(* ===== verification/Mizu_Prelude.thy ===== *)
theory Mizu_Prelude
  imports
    Main
    "HOL-Library.Word"
    "HOL-Library.Char_ord"
    "HOL-Library.List_Lexorder"
    "HOL-Library.Sublist"
begin

text \<open>
  The prelude of the Mizu development: the machine integers of the source, the
  decimal text of an integer, the byte view of a Rust \<^verbatim>\<open>str\<close>, and the generic
  facts on lists the components share.

  A Rust \<^verbatim>\<open>i64\<close> is an \<^typ>\<open>int\<close> kept inside \<open>in_i64\<close>: every checked operation of
  the source computes the exact result and tests the range, which is what
  \<open>checked_i64\<close> does. A Rust \<^verbatim>\<open>u64\<close> counter is a \<^typ>\<open>nat\<close> with saturation at
  \<open>u64_max\<close> written out. A \<^verbatim>\<open>u32\<close> hash is a 32 bit word, because its
  multiplication wraps around. A \<^verbatim>\<open>str\<close> is the list of its UTF-8 bytes, so
  \<^verbatim>\<open>len()\<close> is \<^const>\<open>length\<close> and \<^verbatim>\<open>Ord\<close> is the byte-wise lexicographic order.
\<close>

named_theorems i64_defs "range predicates and checked arithmetic of i64"
named_theorems u64_defs "saturating arithmetic of u64 and usize"

type_synonym u32 = "32 word"

section \<open>Machine integers\<close>

definition i64_min :: int where
  "i64_min = - (2 ^ 63)"

definition i64_max :: int where
  "i64_max = 2 ^ 63 - 1"

definition in_i64 :: "int \<Rightarrow> bool" where
  "in_i64 x \<longleftrightarrow> i64_min \<le> x \<and> x \<le> i64_max"

definition checked_i64 :: "int \<Rightarrow> int option" where
  "checked_i64 x = (if in_i64 x then Some x else None)"

definition u64_max :: nat where
  "u64_max = 2 ^ 64 - 1"

definition sat_add :: "nat \<Rightarrow> nat \<Rightarrow> nat" where
  "sat_add a b = min (a + b) u64_max"

definition sat_mul :: "nat \<Rightarrow> nat \<Rightarrow> nat" where
  "sat_mul a b = min (a * b) u64_max"

definition trunc_div :: "int \<Rightarrow> int \<Rightarrow> int" where
  "trunc_div a b = sgn a * sgn b * (\<bar>a\<bar> div \<bar>b\<bar>)"

definition trunc_rem :: "int \<Rightarrow> int \<Rightarrow> int" where
  "trunc_rem a b = a - b * trunc_div a b"

lemmas i64_unfold [i64_defs] = in_i64_def i64_min_def i64_max_def
lemmas u64_unfold [u64_defs] = sat_add_def sat_mul_def u64_max_def

lemma checked_i64_Some [simp]: "checked_i64 x = Some y \<longleftrightarrow> y = x \<and> in_i64 x"
  by (auto simp: checked_i64_def)

lemma checked_i64_None [simp]: "checked_i64 x = None \<longleftrightarrow> \<not> in_i64 x"
  by (simp add: checked_i64_def)

lemma in_i64_0 [simp]: "in_i64 0"
  by (simp add: i64_defs)

lemma sat_add_ge: "a \<le> u64_max \<Longrightarrow> a \<le> sat_add a b"
  by (simp add: sat_add_def)

lemma sat_add_le_add: "sat_add a b \<le> a + b"
  by (simp add: sat_add_def)

lemma sat_add_le_max [simp]: "sat_add a b \<le> u64_max"
  by (simp add: sat_add_def)

lemma sat_add_exact: "sat_add a b \<le> m \<Longrightarrow> m < u64_max \<Longrightarrow> sat_add a b = a + b"
  by (auto simp: sat_add_def min_def split: if_splits)

lemma sat_add_mono: "b \<le> c \<Longrightarrow> sat_add a b \<le> sat_add a c"
  by (simp add: sat_add_def)

lemma trunc_div_rem: "b * trunc_div a b + trunc_rem a b = a"
  by (simp add: trunc_rem_def)

lemma trunc_div_nonneg: "0 \<le> a \<Longrightarrow> 0 < b \<Longrightarrow> trunc_div a b = a div b"
  by (cases "a = 0") (simp_all add: trunc_div_def)

lemma trunc_div_neg: "a < 0 \<Longrightarrow> 0 < b \<Longrightarrow> trunc_div a b = - ((- a) div b)"
  by (simp add: trunc_div_def)

lemma trunc_rem_nonneg: "0 \<le> a \<Longrightarrow> 0 < b \<Longrightarrow> trunc_rem a b = a mod b"
  by (simp add: trunc_rem_def trunc_div_nonneg minus_mult_div_eq_mod)

lemma trunc_rem_neg: "a < 0 \<Longrightarrow> 0 < b \<Longrightarrow> trunc_rem a b = - ((- a) mod b)"
  using minus_mult_div_eq_mod [of "- a" b] by (simp add: trunc_rem_def trunc_div_neg)

lemma abs_trunc_div_le: "\<bar>trunc_div a b\<bar> \<le> \<bar>a\<bar>"
proof (cases "b = 0")
  case True
  then show ?thesis by (simp add: trunc_div_def)
next
  case False
  then have "\<bar>a\<bar> div \<bar>b\<bar> \<le> \<bar>a\<bar>" and "0 \<le> \<bar>a\<bar> div \<bar>b\<bar>"
    using zdiv_mono2 [of "\<bar>a\<bar>" 1 "\<bar>b\<bar>"] by (auto simp: pos_imp_zdiv_nonneg_iff)
  then show ?thesis
    by (auto simp: trunc_div_def abs_mult sgn_if)
qed

text \<open>\<^verbatim>\<open>usize::BITS - n.leading_zeros()\<close>: the length of the binary notation.\<close>

fun bit_length :: "nat \<Rightarrow> nat" where
  "bit_length n = (if n = 0 then 0 else Suc (bit_length (n div 2)))"

declare bit_length.simps [simp del]

section \<open>Decimal text\<close>

definition digit_char :: "nat \<Rightarrow> char" where
  "digit_char d = char_of (48 + d)"

definition is_digit :: "char \<Rightarrow> bool" where
  "is_digit c \<longleftrightarrow> 48 \<le> (of_char c :: nat) \<and> (of_char c :: nat) \<le> 57"

definition digit_val :: "char \<Rightarrow> nat" where
  "digit_val c = of_char c - 48"

fun show_nat :: "nat \<Rightarrow> string" where
  "show_nat n = (if n < 10 then [digit_char n] else show_nat (n div 10) @ [digit_char (n mod 10)])"

declare show_nat.simps [simp del]

definition show_int :: "int \<Rightarrow> string" where
  "show_int i = (if i < 0 then CHR ''-'' # show_nat (nat (- i)) else show_nat (nat i))"

text \<open>Zero padding on the left, the \<^verbatim>\<open>{:0width$}\<close> of \<^verbatim>\<open>format!\<close>.\<close>

definition pad_zeros :: "nat \<Rightarrow> string \<Rightarrow> string" where
  "pad_zeros w s = replicate (w - length s) (CHR ''0'') @ s"

definition digits_val :: "string \<Rightarrow> nat" where
  "digits_val s = foldl (\<lambda>acc c. acc * 10 + digit_val c) 0 s"

text \<open>
  \<^verbatim>\<open>str::parse::<i64>\<close> of the standard library: an optional sign, at least one
  digit, nothing else, and the value in range.
\<close>

definition parse_i64 :: "string \<Rightarrow> int option" where
  "parse_i64 s =
     (let neg = (s \<noteq> [] \<and> hd s = CHR ''-'');
          body = (if s \<noteq> [] \<and> (hd s = CHR ''-'' \<or> hd s = CHR ''+'') then tl s else s)
      in if body = [] \<or> \<not> list_all is_digit body then None
         else checked_i64 (if neg then - int (digits_val body) else int (digits_val body)))"

lemma of_char_digit_char [simp]: "d < 10 \<Longrightarrow> (of_char (digit_char d) :: nat) = 48 + d"
  by (simp add: digit_char_def)

lemma digit_val_digit_char [simp]: "d < 10 \<Longrightarrow> digit_val (digit_char d) = d"
  by (simp add: digit_val_def)

lemma is_digit_digit_char [simp]: "d < 10 \<Longrightarrow> is_digit (digit_char d)"
  by (simp add: is_digit_def)

lemma digits_val_snoc: "digits_val (s @ [c]) = digits_val s * 10 + digit_val c"
  by (simp add: digits_val_def)

lemma show_nat_nonempty [simp]: "show_nat n \<noteq> []"
  by (subst show_nat.simps) simp

lemma list_all_is_digit_show_nat [simp]: "list_all is_digit (show_nat n)"
proof (induction n rule: show_nat.induct)
  case (1 n)
  then show ?case by (subst show_nat.simps) simp
qed

lemma digits_val_show_nat [simp]: "digits_val (show_nat n) = n"
proof (induction n rule: show_nat.induct)
  case (1 n)
  show ?case
  proof (cases "n < 10")
    case True
    then show ?thesis by (subst show_nat.simps) (simp add: digits_val_def)
  next
    case False
    with 1 show ?thesis by (subst show_nat.simps) (simp add: digits_val_snoc)
  qed
qed

lemma is_digit_not_sign: "is_digit c \<Longrightarrow> c \<noteq> CHR ''-'' \<and> c \<noteq> CHR ''+''"
  by (auto simp: is_digit_def)

lemma hd_show_nat_not_sign: "hd (show_nat n) \<noteq> CHR ''-'' \<and> hd (show_nat n) \<noteq> CHR ''+''"
  using list_all_is_digit_show_nat [of n] show_nat_nonempty [of n]
  by (metis is_digit_not_sign list.set_sel(1) list_all_iff)

lemma parse_i64_show_int: "in_i64 i \<Longrightarrow> parse_i64 (show_int i) = Some i"
  using hd_show_nat_not_sign [of "nat i"]
  by (auto simp: parse_i64_def show_int_def)

lemma length_show_nat_le: "n < 10 ^ k \<Longrightarrow> 0 < k \<Longrightarrow> length (show_nat n) \<le> k"
proof (induction n arbitrary: k rule: show_nat.induct)
  case (1 n)
  show ?case
  proof (cases "n < 10")
    case True
    with 1 show ?thesis by (subst show_nat.simps) simp
  next
    case False
    with "1.prems" obtain k' where k: "k = Suc k'" "0 < k'"
      by (cases k; cases "k - 1") auto
    with "1.prems" have "n div 10 < 10 ^ k'" by (simp add: less_mult_imp_div_less)
    with 1 k False show ?thesis by (subst show_nat.simps) simp
  qed
qed

section \<open>Bytes and characters of a string\<close>

text \<open>
  \<^verbatim>\<open>chars().count()\<close> of a UTF-8 string: the bytes that are not continuation
  bytes (\<^verbatim>\<open>10xxxxxx\<close>).
\<close>

definition is_continuation :: "char \<Rightarrow> bool" where
  "is_continuation c \<longleftrightarrow> 128 \<le> (of_char c :: nat) \<and> (of_char c :: nat) < 192"

definition char_count :: "string \<Rightarrow> nat" where
  "char_count s = length (filter (\<lambda>c. \<not> is_continuation c) s)"

lemma char_count_le: "char_count s \<le> length s"
  by (simp add: char_count_def)

text \<open>\<^verbatim>\<open>str::contains\<close>: some suffix of the haystack starts with the needle.\<close>

fun str_contains :: "string \<Rightarrow> string \<Rightarrow> bool" where
  "str_contains [] n = (n = [])"
| "str_contains (c # h) n = (prefix n (c # h) \<or> str_contains h n)"

lemma str_contains_iff: "str_contains h n \<longleftrightarrow> sublist n h"
  by (induction h) (auto simp: sublist_Cons_right)

text \<open>The em dash of the source's messages, as the UTF-8 bytes of U+2014.\<close>

definition em_dash :: string where
  "em_dash = [char_of (226::nat), char_of (128::nat), char_of (148::nat)]"

section \<open>Lists\<close>

lemma find_map_of:
  "find (\<lambda>p. fst p = k) ps = map_option (\<lambda>v. (k, v)) (map_of ps k)"
  by (induction ps) auto

lemma nth_option_Some [simp]:
  "(if i < length xs then Some (xs ! i) else None) = Some x \<longleftrightarrow> i < length xs \<and> xs ! i = x"
  by simp

lemma set_zip_subset: "(x, y) \<in> set (zip xs ys) \<Longrightarrow> x \<in> set xs \<and> y \<in> set ys"
  by (auto dest: set_zip_leftD set_zip_rightD)

lemma subseq_subset: "subseq xs ys \<Longrightarrow> set xs \<subseteq> set ys"
  by (auto elim: list_emb_set)

end
