(* ===== verification/Mizu_Result.thy ===== *)
theory Mizu_Result
  imports Mizu_Prelude
begin

text \<open>
  Errors as values, and the state-passing computations of the evaluator.

  \<open>mizu_error\<close> is the enum of \<^verbatim>\<open>core/errors/mod.rs\<close>. A Rust function returning
  \<^verbatim>\<open>Result<T, MizuError>\<close> becomes a function into \<open>outcome\<close>: \<open>Ok\<close> a value, or
  \<open>Fail\<close> a fault. A fault is an \<^verbatim>\<open>Err\<close> of the source, a panic of the language (an
  index out of bounds, a debug-mode overflow), or running out of the recursion
  fuel of the model; the last two are never \<^verbatim>\<open>Err\<close> values, and the theorems that
  exclude them are stated separately.

  A method on \<^verbatim>\<open>&mut self\<close> is a function from a state to an outcome and a state;
  \<open>bindS\<close> is the \<^verbatim>\<open>?\<close> operator over it. \<open>valid\<close> is the Hoare triple the component
  proofs are written in: a precondition, a postcondition for \<open>Ok\<close> and a
  postcondition for \<open>Fail\<close>.
\<close>

datatype mizu_error =
    ParseError string
  | IntegerOverflow
  | TypeError string string
  | StaticTypeError string
  | VariableNotFound string
  | BindingNotFound string
  | IoError string
  | DivisionByZero
  | Network string
  | DnsError string
  | ExecutionError string
  | Timeout
  | SecurityViolation string
  | IpcError string
  | MultipleErrors "mizu_error list"

datatype fault = Error mizu_error | Panic | OutOfFuel

datatype 'a outcome = Ok 'a | Fail fault

abbreviation Err :: "mizu_error \<Rightarrow> 'a outcome" where
  "Err e \<equiv> Fail (Error e)"

fun is_ok :: "'a outcome \<Rightarrow> bool" where
  "is_ok (Ok _) = True"
| "is_ok (Fail _) = False"

fun bindO :: "'a outcome \<Rightarrow> ('a \<Rightarrow> 'b outcome) \<Rightarrow> 'b outcome" where
  "bindO (Ok v) f = f v"
| "bindO (Fail e) f = Fail e"

definition ok_or :: "'a option \<Rightarrow> mizu_error \<Rightarrow> 'a outcome" where
  "ok_or x e = (case x of Some v \<Rightarrow> Ok v | None \<Rightarrow> Err e)"

lemma ok_or_simps [simp]:
  "ok_or (Some v) e = Ok v"
  "ok_or None e = Err e"
  by (simp_all add: ok_or_def)

lemma bindO_Ok: "bindO m f = Ok w \<longleftrightarrow> (\<exists>v. m = Ok v \<and> f v = Ok w)"
  by (cases m) auto

text \<open>A loop that collects results and returns the first error.\<close>

fun mapO :: "('a \<Rightarrow> 'b outcome) \<Rightarrow> 'a list \<Rightarrow> 'b list outcome" where
  "mapO f [] = Ok []"
| "mapO f (x # xs) = bindO (f x) (\<lambda>y. bindO (mapO f xs) (\<lambda>ys. Ok (y # ys)))"

lemma mapO_Ok: "mapO f xs = Ok ys \<longleftrightarrow> list_all2 (\<lambda>x y. f x = Ok y) xs ys"
  by (induction xs arbitrary: ys) (auto simp: bindO_Ok list_all2_Cons1)

text \<open>A Rust slice index: the element, or the panic of an index out of bounds.\<close>

definition index_or_panic :: "'a list \<Rightarrow> nat \<Rightarrow> 'a outcome" where
  "index_or_panic xs i = (if i < length xs then Ok (xs ! i) else Fail Panic)"

section \<open>State-passing computations\<close>

type_synonym ('s, 'a) comput = "'s \<Rightarrow> 'a outcome \<times> 's"

definition okS :: "'a \<Rightarrow> ('s, 'a) comput" where
  "okS v = (\<lambda>s. (Ok v, s))"

definition failS :: "fault \<Rightarrow> ('s, 'a) comput" where
  "failS e = (\<lambda>s. (Fail e, s))"

abbreviation errS :: "mizu_error \<Rightarrow> ('s, 'a) comput" where
  "errS e \<equiv> failS (Error e)"

definition liftS :: "'a outcome \<Rightarrow> ('s, 'a) comput" where
  "liftS x = (\<lambda>s. (x, s))"

definition getS :: "('s \<Rightarrow> 'a) \<Rightarrow> ('s, 'a) comput" where
  "getS f = (\<lambda>s. (Ok (f s), s))"

definition modS :: "('s \<Rightarrow> 's) \<Rightarrow> ('s, unit) comput" where
  "modS f = (\<lambda>s. (Ok (), f s))"

definition bindS :: "('s, 'a) comput \<Rightarrow> ('a \<Rightarrow> ('s, 'b) comput) \<Rightarrow> ('s, 'b) comput" where
  "bindS m f = (\<lambda>s. case m s of (Ok v, s') \<Rightarrow> f v s' | (Fail e, s') \<Rightarrow> (Fail e, s'))"

text \<open>A block whose last statements run on both paths: cleanup after a call.\<close>

definition finallyS :: "('s, 'a) comput \<Rightarrow> ('s \<Rightarrow> 's) \<Rightarrow> ('s, 'a) comput" where
  "finallyS m f = (\<lambda>s. case m s of (r, s') \<Rightarrow> (r, f s'))"

text \<open>The arguments of a call, evaluated left to right, the first failure ending it.\<close>

fun mapS :: "('a \<Rightarrow> ('s, 'b) comput) \<Rightarrow> 'a list \<Rightarrow> ('s, 'b list) comput" where
  "mapS f [] = okS []"
| "mapS f (x # xs) = bindS (f x) (\<lambda>y. bindS (mapS f xs) (\<lambda>ys. okS (y # ys)))"

lemmas comput_defs = okS_def failS_def liftS_def getS_def modS_def bindS_def finallyS_def

section \<open>Hoare triples\<close>

definition valid ::
  "('s \<Rightarrow> bool) \<Rightarrow> ('s, 'a) comput \<Rightarrow> ('a \<Rightarrow> 's \<Rightarrow> bool) \<Rightarrow> (fault \<Rightarrow> 's \<Rightarrow> bool) \<Rightarrow> bool" where
  "valid P m Q E \<longleftrightarrow>
     (\<forall>s. P s \<longrightarrow> (case m s of (Ok v, s') \<Rightarrow> Q v s' | (Fail e, s') \<Rightarrow> E e s'))"

named_theorems valid_rules "introduction rules for Hoare triples"

lemma validI:
  assumes "\<And>s v s'. P s \<Longrightarrow> m s = (Ok v, s') \<Longrightarrow> Q v s'"
    and "\<And>s e s'. P s \<Longrightarrow> m s = (Fail e, s') \<Longrightarrow> E e s'"
  shows "valid P m Q E"
  using assms by (auto simp: valid_def split: prod.splits outcome.splits)

lemma validD_ok: "valid P m Q E \<Longrightarrow> P s \<Longrightarrow> m s = (Ok v, s') \<Longrightarrow> Q v s'"
  by (fastforce simp: valid_def)

lemma validD_fail: "valid P m Q E \<Longrightarrow> P s \<Longrightarrow> m s = (Fail e, s') \<Longrightarrow> E e s'"
  by (fastforce simp: valid_def)

lemma valid_weaken:
  assumes "valid P' m Q' E'" "\<And>s. P s \<Longrightarrow> P' s" "\<And>v s. Q' v s \<Longrightarrow> Q v s" "\<And>e s. E' e s \<Longrightarrow> E e s"
  shows "valid P m Q E"
proof (rule validI)
  fix s v s' assume "P s" "m s = (Ok v, s')"
  then show "Q v s'" using assms(2,3) validD_ok [OF assms(1)] by blast
next
  fix s e s' assume "P s" "m s = (Fail e, s')"
  then show "E e s'" using assms(2,4) validD_fail [OF assms(1)] by blast
qed

lemma valid_pre: "valid P' m Q E \<Longrightarrow> (\<And>s. P s \<Longrightarrow> P' s) \<Longrightarrow> valid P m Q E"
  by (rule valid_weaken)

lemma valid_okS [valid_rules]: "(\<And>s. P s \<Longrightarrow> Q v s) \<Longrightarrow> valid P (okS v) Q E"
  by (simp add: valid_def okS_def)

lemma valid_failS [valid_rules]: "(\<And>s. P s \<Longrightarrow> E e s) \<Longrightarrow> valid P (failS e) Q E"
  by (simp add: valid_def failS_def)

lemma valid_liftS [valid_rules]:
  assumes "\<And>v s. x = Ok v \<Longrightarrow> P s \<Longrightarrow> Q v s" "\<And>e s. x = Fail e \<Longrightarrow> P s \<Longrightarrow> E e s"
  shows "valid P (liftS x) Q E"
  using assms by (cases x) (auto simp: valid_def liftS_def)

lemma valid_getS [valid_rules]: "(\<And>s. P s \<Longrightarrow> Q (f s) s) \<Longrightarrow> valid P (getS f) Q E"
  by (simp add: valid_def getS_def)

lemma valid_modS [valid_rules]: "(\<And>s. P s \<Longrightarrow> Q () (f s)) \<Longrightarrow> valid P (modS f) Q E"
  by (simp add: valid_def modS_def)

lemma valid_bindS:
  assumes m: "valid P m Q E" and f: "\<And>v. valid (Q v) (f v) R E"
  shows "valid P (bindS m f) R E"
proof (rule validI)
  fix s v s' assume "P s" "bindS m f s = (Ok v, s')"
  then obtain w t where "m s = (Ok w, t)" "f w t = (Ok v, s')"
    by (auto simp: bindS_def split: prod.splits outcome.splits)
  then show "R v s'" using \<open>P s\<close> validD_ok [OF m] validD_ok [OF f] by blast
next
  fix s e s' assume "P s" "bindS m f s = (Fail e, s')"
  then consider "m s = (Fail e, s')" | w t where "m s = (Ok w, t)" "f w t = (Fail e, s')"
    by (auto simp: bindS_def split: prod.splits outcome.splits)
  then show "E e s'"
    using \<open>P s\<close> validD_fail [OF m] validD_ok [OF m] validD_fail [OF f] by cases blast+
qed

lemma valid_bind_inv:
  assumes "valid P m (\<lambda>v s. A v \<and> P s) E" "\<And>v. A v \<Longrightarrow> valid P (f v) Q E"
  shows "valid P (bindS m f) Q E"
proof (rule valid_bindS [OF assms(1)])
  show "valid (\<lambda>s. A v \<and> P s) (f v) Q E" for v
    using assms(2) by (cases "A v") (simp_all add: valid_def)
qed

lemma valid_by_state: "(\<And>s. P s \<Longrightarrow> valid (\<lambda>t. t = s) m Q E) \<Longrightarrow> valid P m Q E"
  by (fastforce simp: valid_def)

lemma valid_const: "valid P m Q E \<Longrightarrow> valid (\<lambda>s. c \<and> P s) m (\<lambda>v s. c \<and> Q v s) E"
  by (cases c) (simp_all add: valid_def)

lemma valid_finallyS:
  assumes "valid P m (\<lambda>v s. Q v (f s)) (\<lambda>e s. E e (f s))"
  shows "valid P (finallyS m f) Q E"
  using assms by (auto simp: valid_def finallyS_def split: prod.splits outcome.splits)

lemma valid_mapS:
  assumes "\<And>x. x \<in> set xs \<Longrightarrow> valid P (f x) (\<lambda>v s. A v \<and> P s) E"
  shows "valid P (mapS f xs) (\<lambda>vs s. length vs = length xs \<and> list_all A vs \<and> P s) E"
  using assms
proof (induction xs)
  case Nil
  then show ?case by (auto intro: valid_okS)
next
  case (Cons x xs)
  have tl: "valid (\<lambda>s. A v \<and> P s) (mapS f xs)
      (\<lambda>vs s. A v \<and> length vs = length xs \<and> list_all A vs \<and> P s) E" for v
    using Cons by (intro valid_const) simp
  have hd: "valid P (f x) (\<lambda>v s. A v \<and> P s) E"
    using Cons.prems by simp
  show ?case
    by (simp, rule valid_bindS [OF hd], rule valid_bindS [OF tl], rule valid_okS) auto
qed

lemma valid_if [valid_rules]:
  assumes "c \<Longrightarrow> valid P m Q E" "\<not> c \<Longrightarrow> valid P n Q E"
  shows "valid P (if c then m else n) Q E"
  using assms by simp

lemma valid_option [valid_rules]:
  assumes "x = None \<Longrightarrow> valid P m Q E" "\<And>y. x = Some y \<Longrightarrow> valid P (f y) Q E"
  shows "valid P (case x of None \<Rightarrow> m | Some y \<Rightarrow> f y) Q E"
  using assms by (cases x) auto

end
