(* ===== verification/Mizu_Value.thy ===== *)
theory Mizu_Value
  imports Mizu_Result
begin

text \<open>
  The runtime values of \<^verbatim>\<open>core/types/value.rs\<close>: the \<open>mval\<close> enum with its records,
  the FNV-1a field hash, the constructor of records, field lookup, the budgeted
  structural equality and the exact decimal printer.

  The shared pointers of the source (\<^verbatim>\<open>Arc\<close>) carry no data of their own. Where the
  source asks whether two pointers are the same (\<^verbatim>\<open>Arc::ptr_eq\<close>) the model takes the
  answer as a parameter \<open>peq\<close> for strings, lists and records, of which the proofs
  only use that the same allocation has the same contents; a file handle, whose
  equality is its identity, carries the identity of its allocation.
\<close>

unbundle bit_operations_syntax

definition DECIMAL_SCALE :: int where
  "DECIMAL_SCALE = 100000000"

record file_handle =
  fh_arc :: nat
  fh_path :: string
  fh_filename :: string

datatype mval =
    VNull
  | VBool bool
  | VInt int
  | VDecimal int
  | VString string
  | VList "mval list"
  | VRecord "record_field list"
  | VFileHandle file_handle
and record_field = RecordField (rf_key: string) (rf_hash: u32) (rf_value: mval)

definition hash_field :: "string \<Rightarrow> u32" where
  "hash_field s =
     foldl (\<lambda>hash b. (hash XOR of_nat (of_char b)) * 0x01000193) 0x811c9dc5 s"

section \<open>Records\<close>

text \<open>\<^verbatim>\<open>Vec::dedup_by\<close> with key equality: an element equal to the last one kept goes.\<close>

fun dedup_by_key :: "record_field list \<Rightarrow> record_field list" where
  "dedup_by_key [] = []"
| "dedup_by_key [f] = [f]"
| "dedup_by_key (f # g # fs) =
     (if rf_key g = rf_key f then dedup_by_key (f # fs) else f # dedup_by_key (g # fs))"

definition record_from_unsorted :: "(string \<times> mval) list \<Rightarrow> mval" where
  "record_from_unsorted pairs =
     (let fields = map (\<lambda>(key, v). RecordField key (hash_field key) v) pairs
      in VRecord (dedup_by_key (sort_key rf_key fields)))"

fun get_field :: "mval \<Rightarrow> u32 \<Rightarrow> string \<Rightarrow> mval option" where
  "get_field (VRecord fs) field_hash field_name =
     map_option rf_value (find (\<lambda>f. rf_hash f = field_hash \<and> rf_key f = field_name) fs)"
| "get_field _ _ _ = None"

section \<open>Budgeted structural equality\<close>

text \<open>
  The pairs of values of two field slices, or \<open>None\<close> when a position disagrees on
  the hash or the key.
\<close>

fun zip_fields :: "record_field list \<Rightarrow> record_field list \<Rightarrow> (mval \<times> mval) list option" where
  "zip_fields (fx # xs) (fy # ys) =
     (if rf_hash fx \<noteq> rf_hash fy \<or> rf_key fx \<noteq> rf_key fy then None
      else map_option ((#) (rf_value fx, rf_value fy)) (zip_fields xs ys))"
| "zip_fields _ _ = Some []"

lemma size_zip_fields:
  "zip_fields xs ys = Some ps \<Longrightarrow> (\<Sum>p\<leftarrow>ps. Suc (size (fst p))) \<le> size_list size xs"
proof (induction xs ys arbitrary: ps rule: zip_fields.induct)
  case (1 fx xs fy ys)
  then show ?case by (cases fx) (fastforce split: if_splits)
qed auto

lemma size_zip: "(\<Sum>p\<leftarrow>zip xs ys. Suc (size (fst p))) \<le> size_list size xs"
  by (induction xs ys rule: list_induct2') auto

lemma size_zip_rev: "(\<Sum>p\<leftarrow>rev (zip xs ys). Suc (size (fst p))) < Suc (Suc (size_list size xs))"
  using size_zip [of xs ys] by (simp add: rev_map [symmetric])

lemma size_zip_fields_rev:
  "zip_fields xs ys = Some ps \<Longrightarrow> (\<Sum>p\<leftarrow>rev ps. Suc (size (fst p))) < Suc (Suc (size_list size xs))"
  using size_zip_fields [of xs ys ps] by (simp add: rev_map [symmetric])

text \<open>
  The work stack keeps its top at the head of the list; pushing a run of pairs in
  order therefore reverses it. The second component of the result is the caller's
  running budget.
\<close>

function budget_eq_loop ::
  "(mval \<Rightarrow> mval \<Rightarrow> bool) \<Rightarrow> nat \<Rightarrow> (mval \<times> mval) list \<Rightarrow> nat \<Rightarrow> bool outcome \<times> nat" where
  "budget_eq_loop peq max_budget [] budget = (Ok True, budget)"
| "budget_eq_loop peq max_budget ((a, b) # stack) budget0 =
    (let budget = sat_add budget0 1 in
     if budget > max_budget then (Err Timeout, budget)
     else case (a, b) of
       (VNull, VNull) \<Rightarrow> budget_eq_loop peq max_budget stack budget
     | (VBool x, VBool y) \<Rightarrow>
         if x \<noteq> y then (Ok False, budget) else budget_eq_loop peq max_budget stack budget
     | (VInt x, VInt y) \<Rightarrow>
         if x \<noteq> y then (Ok False, budget) else budget_eq_loop peq max_budget stack budget
     | (VDecimal x, VDecimal y) \<Rightarrow>
         if x \<noteq> y then (Ok False, budget) else budget_eq_loop peq max_budget stack budget
     | (VInt x, VDecimal y) \<Rightarrow>
         if x * DECIMAL_SCALE \<noteq> y then (Ok False, budget)
         else budget_eq_loop peq max_budget stack budget
     | (VDecimal y, VInt x) \<Rightarrow>
         if x * DECIMAL_SCALE \<noteq> y then (Ok False, budget)
         else budget_eq_loop peq max_budget stack budget
     | (VString x, VString y) \<Rightarrow>
         if peq a b then budget_eq_loop peq max_budget stack budget
         else (let budget' = sat_add budget (min (length x) (length y)) in
               if budget' > max_budget then (Err Timeout, budget')
               else if x \<noteq> y then (Ok False, budget')
               else budget_eq_loop peq max_budget stack budget')
     | (VFileHandle x, VFileHandle y) \<Rightarrow>
         if fh_arc x \<noteq> fh_arc y then (Ok False, budget)
         else budget_eq_loop peq max_budget stack budget
     | (VList x, VList y) \<Rightarrow>
         if peq a b then budget_eq_loop peq max_budget stack budget
         else if length x \<noteq> length y then (Ok False, budget)
         else (let budget' = sat_add budget (length x) in
               if budget' > max_budget then (Err Timeout, budget')
               else budget_eq_loop peq max_budget (rev (zip x y) @ stack) budget')
     | (VRecord x, VRecord y) \<Rightarrow>
         if peq a b then budget_eq_loop peq max_budget stack budget
         else if length x \<noteq> length y then (Ok False, budget)
         else (let budget' = sat_add budget (length x) in
               if budget' > max_budget then (Err Timeout, budget')
               else case zip_fields x y of
                      None \<Rightarrow> (Ok False, budget')
                    | Some ps \<Rightarrow> budget_eq_loop peq max_budget (rev ps @ stack) budget')
     | _ \<Rightarrow> (Ok False, budget))"
  by pat_completeness auto
termination
  by (relation "measure (\<lambda>(_, _, st, _). \<Sum>p\<leftarrow>st. Suc (size (fst p)))")
    (auto simp: size_zip_rev size_zip_fields_rev)

declare budget_eq_loop.simps(2) [simp del]

definition budget_eq ::
  "(mval \<Rightarrow> mval \<Rightarrow> bool) \<Rightarrow> mval \<Rightarrow> mval \<Rightarrow> nat \<Rightarrow> nat \<Rightarrow> bool outcome \<times> nat" where
  "budget_eq peq self other budget max_budget = budget_eq_loop peq max_budget [(self, other)] budget"

section \<open>Decimal notation and display\<close>

text \<open>The loop that trims trailing zeros of a nonzero fraction.\<close>

fun trim_frac :: "nat \<Rightarrow> nat \<Rightarrow> nat \<times> nat" where
  "trim_frac frac num_digits =
     (if frac \<noteq> 0 \<and> frac mod 10 = 0 then trim_frac (frac div 10) (num_digits - 1)
      else (frac, num_digits))"

declare trim_frac.simps [simp del]

definition format_decimal :: "int \<Rightarrow> bool \<Rightarrow> string" where
  "format_decimal scaled always_fractional =
     (let integer_part = trunc_div scaled DECIMAL_SCALE;
          fractional_part = \<bar>trunc_rem scaled DECIMAL_SCALE\<bar>;
          sign = (if scaled < 0 \<and> integer_part = 0 then ''-'' else '''')
      in if fractional_part = 0
         then (if always_fractional then sign @ show_int integer_part @ ''.0''
               else sign @ show_int integer_part)
         else (case trim_frac (nat fractional_part) 8 of
                 (frac, num_digits) \<Rightarrow>
                   sign @ show_int integer_part @ ''.'' @ pad_zeros num_digits (show_nat frac)))"

text \<open>\<^verbatim>\<open>chars().filter(|c| !c.is_control())\<close> on UTF-8 bytes: C0, DEL and the two-byte C1 range.\<close>

fun strip_control :: "string \<Rightarrow> string" where
  "strip_control [] = []"
| "strip_control (c # cs) =
     (if (of_char c :: nat) < 32 \<or> (of_char c :: nat) = 127 then strip_control cs
      else if (of_char c :: nat) = 194 \<and> cs \<noteq> [] \<and> 128 \<le> (of_char (hd cs) :: nat) \<and> (of_char (hd cs) :: nat) < 160
      then strip_control (tl cs)
      else c # strip_control cs)"

fun join_comma :: "string list \<Rightarrow> string" where
  "join_comma [] = ''''"
| "join_comma [s] = s"
| "join_comma (s # t # ts) = s @ '', '' @ join_comma (t # ts)"

fun display :: "mval \<Rightarrow> string" and display_field :: "record_field \<Rightarrow> string" where
  "display VNull = ''null''"
| "display (VBool b) = (if b then ''true'' else ''false'')"
| "display (VInt i) = show_int i"
| "display (VDecimal i) = format_decimal i False"
| "display (VString s) = s"
| "display (VList items) = ''['' @ join_comma (map display items) @ '']''"
| "display (VRecord fs) = ''{'' @ join_comma (map display_field fs) @ ''}''"
| "display (VFileHandle handle) = ''<file: '' @ strip_control (fh_filename handle) @ ''>''"
| "display_field (RecordField key _ v) = key @ '': '' @ display v"

section \<open>Well-formed values\<close>

text \<open>
  The invariant of the type: integers fit in \<^verbatim>\<open>i64\<close>, and every record is strictly
  sorted by key and carries the hash of each key.
\<close>

fun value_ok :: "mval \<Rightarrow> bool" and field_ok :: "record_field \<Rightarrow> bool" where
  "value_ok VNull = True"
| "value_ok (VBool b) = True"
| "value_ok (VInt i) = in_i64 i"
| "value_ok (VDecimal i) = in_i64 i"
| "value_ok (VString s) = True"
| "value_ok (VList items) = list_all value_ok items"
| "value_ok (VRecord fs) = (sorted_wrt (<) (map rf_key fs) \<and> list_all field_ok fs)"
| "value_ok (VFileHandle _) = True"
| "field_ok (RecordField key h v) = (h = hash_field key \<and> value_ok v)"

text \<open>Structural equality as a mathematical function, the reference of \<open>budget_eq\<close>.\<close>

fun value_eq :: "mval \<Rightarrow> mval \<Rightarrow> bool" and field_eq :: "record_field \<Rightarrow> record_field \<Rightarrow> bool" where
  "value_eq VNull VNull = True"
| "value_eq (VBool x) (VBool y) = (x = y)"
| "value_eq (VInt x) (VInt y) = (x = y)"
| "value_eq (VDecimal x) (VDecimal y) = (x = y)"
| "value_eq (VInt x) (VDecimal y) = (x * DECIMAL_SCALE = y)"
| "value_eq (VDecimal x) (VInt y) = (x = y * DECIMAL_SCALE)"
| "value_eq (VString x) (VString y) = (x = y)"
| "value_eq (VFileHandle x) (VFileHandle y) = (fh_arc x = fh_arc y)"
| "value_eq (VList xs) (VList ys) = list_all2 value_eq xs ys"
| "value_eq (VRecord xs) (VRecord ys) = list_all2 field_eq xs ys"
| "value_eq _ _ = False"
| "field_eq (RecordField k h v) (RecordField k' h' v') = (h = h' \<and> k = k' \<and> value_eq v v')"

section \<open>Facts on equality\<close>

lemma value_eq_refl: "value_eq v v" and field_eq_refl: "field_eq f f"
  by (induction v and f) (auto simp: list_all2_same)

lemma zip_fields_Some:
  "length xs = length ys \<Longrightarrow> zip_fields xs ys = Some ps \<Longrightarrow>
     list_all (\<lambda>(a, b). value_eq a b) ps = list_all2 field_eq xs ys"
proof (induction xs ys arbitrary: ps rule: zip_fields.induct)
  case (1 fx xs fy ys)
  then show ?case by (cases fx; cases fy) (auto split: if_splits)
qed auto

lemma zip_fields_None:
  "zip_fields xs ys = None \<Longrightarrow> \<not> list_all2 field_eq xs ys"
proof (induction xs ys rule: zip_fields.induct)
  case (1 fx xs fy ys)
  then show ?case by (cases fx; cases fy) (auto split: if_splits)
qed auto

lemma zip_list_all2:
  "length xs = length ys \<Longrightarrow> list_all (\<lambda>(a, b). P a b) (zip xs ys) = list_all2 P xs ys"
  by (auto simp: list_all2_iff list_all_iff)

definition eq_post :: "nat \<Rightarrow> (mval \<times> mval) list \<Rightarrow> nat \<Rightarrow> bool outcome \<times> nat \<Rightarrow> bool" where
  "eq_post mx st bud r = (case r of
     (Ok b, bud') \<Rightarrow> b = list_all (\<lambda>(x, y). value_eq x y) st \<and> (bud \<le> mx \<longrightarrow> bud' \<le> mx)
   | (Fail e, bud') \<Rightarrow> e = Error Timeout \<and> mx < bud')"

lemma eq_post_step:
  "eq_post mx st' bud' r \<Longrightarrow> bud' \<le> mx \<Longrightarrow>
     list_all (\<lambda>(x, y). value_eq x y) st' = list_all (\<lambda>(x, y). value_eq x y) st \<Longrightarrow> eq_post mx st bud r"
  by (auto simp: eq_post_def split: prod.splits outcome.splits)

lemma eq_post_False:
  "bud' \<le> mx \<Longrightarrow> \<not> list_all (\<lambda>(x, y). value_eq x y) st \<Longrightarrow> eq_post mx st bud (Ok False, bud')"
  by (simp add: eq_post_def)

lemma eq_post_Timeout: "mx < bud' \<Longrightarrow> eq_post mx st bud (Err Timeout, bud')"
  by (simp add: eq_post_def)


abbreviation pairs_size :: "(mval \<times> mval) list \<Rightarrow> nat" where
  "pairs_size st \<equiv> \<Sum>p\<leftarrow>st. Suc (size (fst p))"

lemma budget_eq_loop_post:
  assumes peq: "\<And>a b. peq a b \<Longrightarrow> a = b"
  shows "eq_post mx st bud (budget_eq_loop peq mx st bud)"
proof (induction "pairs_size st" arbitrary: st bud rule: less_induct)
  case less
  have step: "eq_post mx st bud (budget_eq_loop peq mx st' bud')"
    if "pairs_size st' < pairs_size st" "bud' \<le> mx"
      "list_all (\<lambda>(x, y). value_eq x y) st' = list_all (\<lambda>(x, y). value_eq x y) st" for st' bud'
    using eq_post_step [OF less that(2,3)] that(1) by simp
  show ?case
  proof (cases st)
    case Nil
    then show ?thesis by (simp add: eq_post_def)
  next
    case (Cons p rest)
    obtain a b where p: "p = (a, b)" by fastforce
    define Q where "Q = eq_post mx st bud"
    have time: "Q (Err Timeout, bud')" if "mx < bud'" for bud'
      using that by (simp add: Q_def eq_post_Timeout)
    have tail: "Q (budget_eq_loop peq mx rest bud')" if "bud' \<le> mx" "value_eq a b \<or> peq a b" for bud'
      unfolding Q_def using that value_eq_refl peq by (intro step) (auto simp: Cons p)
    have no: "Q (Ok False, bud')" if "bud' \<le> mx" "\<not> value_eq a b" for bud'
      unfolding Q_def using that by (intro eq_post_False) (auto simp: Cons p)
    have ls: "Q (budget_eq_loop peq mx (rev (zip x y) @ rest) bud')"
      if "a = VList x" "b = VList y" "length x = length y" "bud' \<le> mx" for x y bud'
      unfolding Q_def using that size_zip_rev [of x y] by (intro step) (auto simp: Cons p zip_list_all2)
    have rs: "Q (budget_eq_loop peq mx (rev ps @ rest) bud')"
      if "a = VRecord x" "b = VRecord y" "length x = length y" "zip_fields x y = Some ps" "bud' \<le> mx" for x y ps bud'
      unfolding Q_def using that size_zip_fields_rev [of x y] by (intro step) (auto simp: Cons p zip_fields_Some)
    have "Q (budget_eq_loop peq mx st bud)"
      unfolding Cons p budget_eq_loop.simps(2)
      by (cases a; cases b)
        (auto simp: Let_def not_less zip_fields_None list_all2_lengthD dest: list_all2_lengthD
          intro!: time tail no ls rs split: option.splits)
    then show ?thesis by (simp add: Q_def)
  qed
qed
fun val_cost :: "mval \<Rightarrow> nat" and field_cost :: "record_field \<Rightarrow> nat" where
  "val_cost (VString s) = Suc (length s)"
| "val_cost (VList xs) = Suc (length xs + sum_list (map val_cost xs))"
| "val_cost (VRecord fs) = Suc (length fs + sum_list (map field_cost fs))"
| "val_cost VNull = 1"
| "val_cost (VBool _) = 1"
| "val_cost (VInt _) = 1"
| "val_cost (VDecimal _) = 1"
| "val_cost (VFileHandle _) = 1"
| "field_cost (RecordField _ _ v) = val_cost v"

lemma val_cost_zip: "(\<Sum>p\<leftarrow>zip xs ys. val_cost (fst p)) \<le> sum_list (map val_cost xs)"
  by (induction xs ys rule: list_induct2') auto

lemma val_cost_zip_fields:
  "zip_fields xs ys = Some ps \<Longrightarrow> (\<Sum>p\<leftarrow>ps. val_cost (fst p)) \<le> sum_list (map field_cost xs)"
proof (induction xs ys arbitrary: ps rule: zip_fields.induct)
  case (1 fx xs fy ys)
  then show ?case by (cases fx) (fastforce split: if_splits)
qed auto

lemma budget_eq_loop_enough:
  assumes "bud + (\<Sum>p\<leftarrow>st. val_cost (fst p)) \<le> mx" "mx \<le> u64_max"
  shows "is_ok (fst (budget_eq_loop peq mx st bud))"
  using assms
proof (induction "pairs_size st" arbitrary: st bud rule: less_induct)
  case less
  show ?case
  proof (cases st)
    case Nil
    then show ?thesis by simp
  next
    case (Cons p rest)
    obtain a b where p: "p = (a, b)" by fastforce
    have step: "is_ok (fst (budget_eq_loop peq mx st' bud'))"
      if "pairs_size st' < pairs_size st" "bud' + (\<Sum>p\<leftarrow>st'. val_cost (fst p)) \<le> mx" for st' bud'
      using less.hyps that less.prems by blast
    have tail: "is_ok (fst (budget_eq_loop peq mx rest bud'))" if "bud' \<le> bud + val_cost a" for bud'
      using that less.prems by (intro step) (auto simp: Cons p)
    have ls: "is_ok (fst (budget_eq_loop peq mx (rev (zip x y) @ rest) bud'))"
      if "a = VList x" "bud' \<le> bud + Suc (length x)" for x y bud'
      using that less.prems size_zip_rev [of x y] val_cost_zip [of x y]
      by (intro step) (auto simp: Cons p rev_map [symmetric])
    have rs: "is_ok (fst (budget_eq_loop peq mx (rev ps @ rest) bud'))"
      if "a = VRecord x" "zip_fields x y = Some ps" "bud' \<le> bud + Suc (length x)" for x y ps bud'
      using that less.prems size_zip_fields_rev [of x y] val_cost_zip_fields [of x y]
      by (intro step) (auto simp: Cons p rev_map [symmetric])
    have "bud + val_cost a \<le> mx" using less.prems by (simp add: Cons p)
    then show ?thesis
      unfolding Cons p budget_eq_loop.simps(2)
      by (cases a; cases b)
        (auto simp: Let_def not_less sat_add_def intro!: tail ls rs split: option.splits)
  qed
qed


definition bud_post :: "nat \<Rightarrow> nat \<Rightarrow> bool outcome \<times> nat \<Rightarrow> bool" where
  "bud_post mx bud r \<longleftrightarrow> bud \<le> snd r \<and> snd r \<le> u64_max \<and>
     (case fst r of Ok _ \<Rightarrow> bud \<le> mx \<longrightarrow> snd r \<le> mx | Fail e \<Rightarrow> e = Error Timeout)"

lemma bud_post_step: "bud_post mx bud' r \<Longrightarrow> bud \<le> bud' \<Longrightarrow> bud' \<le> mx \<Longrightarrow> bud_post mx bud r"
  by (auto simp: bud_post_def split: outcome.splits)

lemma budget_eq_loop_budget:
  "bud \<le> u64_max \<Longrightarrow> bud_post mx bud (budget_eq_loop peq mx st bud)"
proof (induction "pairs_size st" arbitrary: st bud rule: less_induct)
  case less
  show ?case
  proof (cases st)
    case Nil
    then show ?thesis using less.prems by (simp add: bud_post_def)
  next
    case (Cons p rest)
    obtain a b where p: "p = (a, b)" by fastforce
    have one: "bud \<le> sat_add bud 1" and two: "bud \<le> sat_add (sat_add bud 1) k" for k
      using less.prems sat_add_ge [of bud 1] sat_add_ge [of "sat_add bud 1" k] by auto
    have step: "bud_post mx bud (budget_eq_loop peq mx st' bud')"
      if "pairs_size st' < pairs_size st" "bud' \<le> mx" "bud \<le> bud'" "bud' \<le> u64_max" for st' bud'
      using less.hyps [OF that(1,4)] that by (blast intro: bud_post_step)
    have tail: "bud_post mx bud (budget_eq_loop peq mx rest bud')"
      if "bud' \<le> mx" "bud \<le> bud'" "bud' \<le> u64_max" for bud'
      using that by (intro step) (auto simp: Cons p)
    have ls: "bud_post mx bud (budget_eq_loop peq mx (rev (zip x y) @ rest) bud')"
      if "a = VList x" "bud' \<le> mx" "bud \<le> bud'" "bud' \<le> u64_max" for x y bud'
      using that size_zip_rev [of x y] by (intro step) (auto simp: Cons p)
    have rs: "bud_post mx bud (budget_eq_loop peq mx (rev ps @ rest) bud')"
      if "a = VRecord x" "zip_fields x y = Some ps" "bud' \<le> mx" "bud \<le> bud'" "bud' \<le> u64_max" for x y ps bud'
      using that size_zip_fields_rev [of x y] by (intro step) (auto simp: Cons p)
    have stop: "bud_post mx bud (Ok False, bud')" if "bud' \<le> mx" "bud \<le> bud'" "bud' \<le> u64_max" for bud'
      using that by (simp add: bud_post_def)
    have time: "bud_post mx bud (Err Timeout, bud')" if "bud \<le> bud'" "bud' \<le> u64_max" for bud'
      using that by (simp add: bud_post_def)
    show ?thesis
      unfolding Cons p budget_eq_loop.simps(2) Let_def
      using one two
      by (cases a; cases b) (auto simp: not_less intro!: time tail stop ls rs split: option.splits)
  qed
qed
section \<open>Facts on records\<close>

lemma dedup_hd: "fs \<noteq> [] \<Longrightarrow> dedup_by_key fs \<noteq> [] \<and> hd (dedup_by_key fs) = hd fs"
  by (induction fs rule: dedup_by_key.induct) auto

lemma set_dedup_subset: "set (dedup_by_key fs) \<subseteq> set fs"
  by (induction fs rule: dedup_by_key.induct) auto

lemma sorted_dedup:
  "sorted (map rf_key fs) \<Longrightarrow> sorted_wrt (<) (map rf_key (dedup_by_key fs))"
proof (induction fs rule: dedup_by_key.induct)
  case (3 f g fs)
  show ?case
  proof (cases "rf_key g = rf_key f")
    case True
    with 3 show ?thesis by simp
  next
    case False
    with 3 have "rf_key f < rf_key h" if "h \<in> set (g # fs)" for h
      using that by (auto simp: less_le intro: order.antisym)
    with set_dedup_subset [of "g # fs"] have "\<forall>h \<in> set (dedup_by_key (g # fs)). rf_key f < rf_key h"
      by blast
    with 3 False show ?thesis by simp
  qed
qed auto

lemma find_dedup:
  "sorted (map rf_key fs) \<Longrightarrow>
     find (\<lambda>f. P f \<and> rf_key f = k) (dedup_by_key fs) =
     (case find (\<lambda>f. rf_key f = k) fs of Some f \<Rightarrow> if P f then Some f else None | None \<Rightarrow> None)"
proof (induction fs rule: dedup_by_key.induct)
  case (3 f g fs)
  have "find (\<lambda>f. P f \<and> rf_key f = k) (dedup_by_key (g # fs)) = None"
    if "rf_key f = k" "rf_key g \<noteq> k"
    using that 3(3) set_dedup_subset [of "g # fs"] by (fastforce simp: find_None_iff)
  with 3 show ?case by (auto split: option.splits)
qed auto

lemma find_insort_key:
  "find (\<lambda>f. rf_key f = k) (insort_key rf_key f fs) =
     (if rf_key f = k then Some f else find (\<lambda>f. rf_key f = k) fs)" if "sorted (map rf_key fs)"
  using that by (induction fs) auto

lemma find_sort_key: "find (\<lambda>f. rf_key f = k) (sort_key rf_key fs) = find (\<lambda>f. rf_key f = k) fs"
  by (induction fs) (simp_all add: find_insort_key)

lemma get_field_record:
  "get_field (record_from_unsorted ps) (hash_field k) k = map_of ps k"
proof -
  have "find (\<lambda>f. rf_key f = k) (map (\<lambda>(key, v). RecordField key (hash_field key) v) ps)
      = map_option (RecordField k (hash_field k)) (map_of ps k)"
    by (induction ps) auto
  then show ?thesis
    by (auto simp: record_from_unsorted_def Let_def find_dedup find_sort_key split: option.splits)
qed
lemma field_ok_sel: "field_ok f \<longleftrightarrow> rf_hash f = hash_field (rf_key f) \<and> value_ok (rf_value f)"
  by (cases f) simp

lemma value_ok_record:
  assumes "\<And>k v. (k, v) \<in> set ps \<Longrightarrow> value_ok v"
  shows "value_ok (record_from_unsorted ps)"
proof -
  let ?fs = "map (\<lambda>(key, v). RecordField key (hash_field key) v) ps"
  have "list_all field_ok ?fs"
    using assms by (auto simp: list_all_iff)
  then have "list_all field_ok (dedup_by_key (sort_key rf_key ?fs))"
    using set_dedup_subset [of "sort_key rf_key ?fs"] by (auto simp: list_all_iff)
  then show ?thesis
    by (simp add: record_from_unsorted_def Let_def sorted_dedup)
qed

lemma get_field_ok: "value_ok v \<Longrightarrow> get_field v h k = Some w \<Longrightarrow> value_ok w"
  by (cases v) (auto simp: find_Some_iff list_all_iff field_ok_sel set_conv_nth)

section \<open>Properties\<close>

text \<open>
  When \<open>budget_eq\<close> answers, the answer is structural equality, whatever pointers the
  two values share, and the caller's running total is still within the budget.
\<close>

theorem budget_eq_decides:
  assumes "\<And>a b. peq a b \<Longrightarrow> a = b" and "budget \<le> max_budget"
    and "budget_eq peq self other budget max_budget = (Ok r, budget')"
  shows "(r \<longleftrightarrow> value_eq self other) \<and> budget' \<le> max_budget"
proof -
  have "eq_post max_budget [(self, other)] budget (budget_eq_loop peq max_budget [(self, other)] budget)"
    by (rule budget_eq_loop_post) (rule assms(1))
  with assms(2,3) show ?thesis by (simp add: eq_post_def budget_eq_def)
qed

theorem budget_eq_decides_witness:
  "value_eq (VList [VInt 1, VDecimal 200000000]) (VList [VDecimal 100000000, VInt 2])"
proof -
  have "budget_eq (\<lambda>a b. False) (VList [VInt 1, VDecimal 200000000])
          (VList [VDecimal 100000000, VInt 2]) 0 100 = (Ok True, 5)"
    by (simp add: budget_eq_def budget_eq_loop.simps(2) Let_def sat_add_def u64_max_def DECIMAL_SCALE_def)
  then show ?thesis
    using budget_eq_decides [of "\<lambda>a b. False" 0 100] by fastforce
qed

text \<open>
  The only failure of \<open>budget_eq\<close> is \<open>Timeout\<close>, with the budget exceeded; and a budget
  that covers the size of the left value is always enough to get the answer.
\<close>

theorem budget_eq_fails_only_on_budget:
  assumes "\<And>a b. peq a b \<Longrightarrow> a = b"
  shows "(budget_eq peq self other budget max_budget = (Fail e, budget') \<longrightarrow>
            e = Error Timeout \<and> max_budget < budget')
       \<and> (budget + val_cost self \<le> max_budget \<longrightarrow> max_budget \<le> u64_max \<longrightarrow>
            fst (budget_eq peq self other budget max_budget) = Ok (value_eq self other))"
proof -
  let ?r = "budget_eq_loop peq max_budget [(self, other)] budget"
  have post: "eq_post max_budget [(self, other)] budget ?r"
    by (rule budget_eq_loop_post) (rule assms)
  have enough: "is_ok (fst ?r)" if "budget + val_cost self \<le> max_budget" "max_budget \<le> u64_max"
    using budget_eq_loop_enough [of budget "[(self, other)]" max_budget peq] that by simp
  show ?thesis
    using post enough
    by (cases ?r; cases "fst ?r") (auto simp: budget_eq_def eq_post_def)
qed

theorem budget_eq_fails_only_on_budget_witness:
  "fst (budget_eq (\<lambda>a b. False) (VString ''ab'') (VString ''ab'') 0 3) = Ok True"
  using budget_eq_fails_only_on_budget [of "\<lambda>a b. False" "VString ''ab''" "VString ''ab''" 0 3]
  by (simp add: u64_max_def)

text \<open>
  Field lookup in a record built from unsorted pairs returns the first pair with that
  key in input order, for every key and every list of pairs (hash collisions included).
\<close>

theorem record_lookup_first_wins:
  "get_field (record_from_unsorted pairs) (hash_field k) k = map_of pairs k"
  by (rule get_field_record)

text \<open>
  A record built from well-formed values is well formed: strictly sorted by key, hence
  without duplicate keys, with the hash of every key.
\<close>

theorem record_from_unsorted_wf:
  assumes "\<And>k v. (k, v) \<in> set pairs \<Longrightarrow> value_ok v"
  shows "value_ok (record_from_unsorted pairs)"
  using assms by (rule value_ok_record)

theorem record_from_unsorted_wf_witness:
  "value_ok (record_from_unsorted [(''b'', VInt 1), (''a'', VNull), (''b'', VBool True)])"
  by (rule record_from_unsorted_wf) (auto simp: i64_defs)

end
