(* ===== verification/Mizu_Text.thy ===== *)
theory Mizu_Text
  imports Mizu_Result
begin

text \<open>
  The operations of Rust's \<^verbatim>\<open>str\<close> the parsers use, on UTF-8 bytes: white space and trimming,
  splitting into lines, \<^verbatim>\<open>splitn\<close> at white space, and the \<^verbatim>\<open>Debug\<close> text of a string.
\<close>

section \<open>White space\<close>

text \<open>
  The encodings of the characters with the Unicode property \<^verbatim>\<open>White_Space\<close>. An encoding is no
  part of another one, so the first match is the only one.
\<close>

definition utf8_3 :: "nat \<Rightarrow> nat \<Rightarrow> nat \<Rightarrow> string" where
  "utf8_3 a b c = [char_of a, char_of b, char_of c]"

definition white_space :: "string list" where
  "white_space =
     map (\<lambda>n. [char_of n]) [9 :: nat, 10, 11, 12, 13, 32]
     @ [[char_of (0xC2::nat), char_of (0x85::nat)], [char_of (0xC2::nat), char_of (0xA0::nat)],
        utf8_3 0xE1 0x9A 0x80]
     @ map (utf8_3 0xE2 0x80) [0x80 ..< 0x8B]
     @ [utf8_3 0xE2 0x80 0xA8, utf8_3 0xE2 0x80 0xA9, utf8_3 0xE2 0x80 0xAF, utf8_3 0xE2 0x81 0x9F,
        utf8_3 0xE3 0x80 0x80]"

definition white_prefix :: "string \<Rightarrow> string option" where
  "white_prefix s = find (\<lambda>w. prefix w s) white_space"

lemma white_space_nonempty: "w \<in> set white_space \<Longrightarrow> w \<noteq> []"
  by (auto simp: white_space_def utf8_3_def)

lemma white_prefix_Some: "white_prefix s = Some w \<Longrightarrow> w \<noteq> [] \<and> prefix w s"
  by (auto simp: white_prefix_def find_Some_iff dest: white_space_nonempty [OF nth_mem])

lemma white_prefix_drop: "white_prefix s = Some w \<Longrightarrow> length (drop (length w) s) < length s"
  using white_prefix_Some [of s w] by (auto simp: prefix_def)

function trim_start :: "string \<Rightarrow> string" where
  "trim_start s = (case white_prefix s of None \<Rightarrow> s | Some w \<Rightarrow> trim_start (drop (length w) s))"
  by auto
termination
  by (relation "measure length") (auto simp: white_prefix_drop simp del: length_drop)

declare trim_start.simps [simp del]

definition white_suffix :: "string \<Rightarrow> string option" where
  "white_suffix s = find (\<lambda>w. suffix w s) white_space"

lemma white_suffix_take:
  assumes "white_suffix s = Some w"
  shows "length (take (length s - length w) s) < length s"
proof -
  have "w \<noteq> []" "suffix w s"
    using assms by (auto simp: white_suffix_def find_Some_iff dest: white_space_nonempty [OF nth_mem])
  then show ?thesis by (cases s) (auto simp: suffix_def)
qed

function trim_end :: "string \<Rightarrow> string" where
  "trim_end s = (case white_suffix s of None \<Rightarrow> s | Some w \<Rightarrow> trim_end (take (length s - length w) s))"
  by auto
termination
  by (relation "measure length") (auto simp: white_suffix_take simp del: length_take)

declare trim_end.simps [simp del]

definition trim :: "string \<Rightarrow> string" where
  "trim s = trim_end (trim_start s)"

section \<open>Lines and fields\<close>

text \<open>\<^verbatim>\<open>str::lines\<close>: a line ends in a newline, before which one carriage return is dropped too.\<close>

definition newline :: char where
  "newline = CHR 0x0A"

definition strip_cr :: "string \<Rightarrow> string" where
  "strip_cr l = (if l \<noteq> [] \<and> last l = CHR 0x0D then butlast l else l)"

fun lines_loop :: "string \<Rightarrow> string \<Rightarrow> string list" where
  "lines_loop [] acc = (if acc = [] then [] else [rev acc])"
| "lines_loop (c # cs) acc =
     (if c = newline then strip_cr (rev acc) # lines_loop cs [] else lines_loop cs (c # acc))"

definition lines :: "string \<Rightarrow> string list" where
  "lines s = lines_loop s []"

text \<open>\<^verbatim>\<open>splitn(n, char::is_whitespace)\<close>: at most \<open>n\<close> pieces, each separator one character.\<close>

function splitn_white :: "nat \<Rightarrow> string \<Rightarrow> string \<Rightarrow> string list" where
  "splitn_white n [] acc = [rev acc]"
| "splitn_white n (c # cs) acc =
     (if n \<le> 1 then [rev acc @ c # cs]
      else case white_prefix (c # cs) of
        Some w \<Rightarrow> rev acc # splitn_white (n - 1) (drop (length w) (c # cs)) []
      | None \<Rightarrow> splitn_white n cs (c # acc))"
  by pat_completeness auto
termination
  by (relation "measure (\<lambda>(n, s, acc). length s)") (auto dest: white_prefix_drop)

section \<open>Debug text\<close>

fun show_hex :: "nat \<Rightarrow> string" where
  "show_hex n =
     (if n < 16 then [''0123456789abcdef'' ! n] else show_hex (n div 16) @ [''0123456789abcdef'' ! (n mod 16)])"

declare show_hex.simps [simp del]

text \<open>\<^verbatim>\<open>{:?}\<close> of a string, with the escapes of ASCII.\<close>

definition escape_debug :: "char \<Rightarrow> string" where
  "escape_debug c =
     (let n = of_char c :: nat in
      if n = 0 then [CHR 0x5C, CHR ''0'']
      else if n = 9 then [CHR 0x5C, CHR ''t'']
      else if n = 10 then [CHR 0x5C, CHR ''n'']
      else if n = 13 then [CHR 0x5C, CHR ''r'']
      else if n = 0x22 \<or> n = 0x5C then [CHR 0x5C, c]
      else if n < 0x20 \<or> n = 0x7F then CHR 0x5C # ''u{'' @ show_hex n @ ''}''
      else [c])"

definition debug_string :: "string \<Rightarrow> string" where
  "debug_string s = CHR 0x22 # concat (map escape_debug s) @ [CHR 0x22]"

section \<open>Searching\<close>

text \<open>\<^verbatim>\<open>find\<close> of a character or of a text, as what comes before and after its first occurrence.\<close>

definition split_char :: "char \<Rightarrow> string \<Rightarrow> (string \<times> string) option" where
  "split_char c s =
     (if c \<in> set s then Some (takeWhile (\<lambda>x. x \<noteq> c) s, tl (dropWhile (\<lambda>x. x \<noteq> c) s)) else None)"

fun split_str :: "string \<Rightarrow> string \<Rightarrow> (string \<times> string) option" where
  "split_str pat [] = (if pat = [] then Some ([], []) else None)"
| "split_str pat (c # cs) =
     (if prefix pat (c # cs) then Some ([], drop (length pat) (c # cs))
      else map_option (\<lambda>(a, b). (c # a, b)) (split_str pat cs))"

text \<open>\<^verbatim>\<open>rfind\<close> of a character.\<close>

definition rsplit_char :: "char \<Rightarrow> string \<Rightarrow> (string \<times> string) option" where
  "rsplit_char c s = map_option (\<lambda>(b, a). (rev a, rev b)) (split_char c (rev s))"

text \<open>\<^verbatim>\<open>splitn(n, c)\<close>.\<close>

fun splitn_char :: "nat \<Rightarrow> char \<Rightarrow> string \<Rightarrow> string list" where
  "splitn_char 0 c s = []"
| "splitn_char (Suc 0) c s = [s]"
| "splitn_char (Suc (Suc n)) c s = (case split_char c s of None \<Rightarrow> [s] | Some (a, b) \<Rightarrow> a # splitn_char (Suc n) c b)"

definition strip_prefix :: "string \<Rightarrow> string \<Rightarrow> string option" where
  "strip_prefix p s = (if prefix p s then Some (drop (length p) s) else None)"

definition strip_suffix :: "string \<Rightarrow> string \<Rightarrow> string option" where
  "strip_suffix p s = (if suffix p s then Some (take (length s - length p) s) else None)"

lemma strip_prefix_Some [simp]: "strip_prefix p s = Some r \<longleftrightarrow> s = p @ r"
  by (auto simp: strip_prefix_def prefix_def)

lemma split_char_Some: "split_char c s = Some (a, b) \<Longrightarrow> s = a @ c # b \<and> c \<notin> set a"
proof -
  assume "split_char c s = Some (a, b)"
  then have c: "c \<in> set s" and ab: "a = takeWhile (\<lambda>x. x \<noteq> c) s" "b = tl (dropWhile (\<lambda>x. x \<noteq> c) s)"
    by (auto simp: split_char_def split: if_splits)
  have "dropWhile (\<lambda>x. x \<noteq> c) s \<noteq> []" using c by (auto simp: dropWhile_eq_Nil_conv)
  then have "dropWhile (\<lambda>x. x \<noteq> c) s = c # b"
    using hd_dropWhile [of "\<lambda>x. x \<noteq> c" s] ab(2) by (cases "dropWhile (\<lambda>x. x \<noteq> c) s") auto
  then show ?thesis
    using takeWhile_dropWhile_id [of "\<lambda>x. x \<noteq> c" s] set_takeWhileD [of _ "\<lambda>x. x \<noteq> c" s] ab(1) by (metis (full_types))
qed

lemma split_char_length: "split_char c s = Some (a, b) \<Longrightarrow> length s = Suc (length a + length b)"
  by (auto dest: split_char_Some)

lemma split_str_Some: "split_str pat s = Some (a, b) \<Longrightarrow> s = a @ pat @ b"
  by (induction pat s arbitrary: a b rule: split_str.induct) (auto simp: prefix_def split: if_splits)

lemma length_trim_start: "length (trim_start s) \<le> length s"
proof (induction s rule: trim_start.induct)
  case (1 s)
  then show ?case by (subst trim_start.simps) (fastforce split: option.splits)
qed

lemma length_trim_end: "length (trim_end s) \<le> length s"
proof (induction s rule: trim_end.induct)
  case (1 s)
  then show ?case by (subst trim_end.simps) (fastforce split: option.splits)
qed

lemma length_trim: "length (trim s) \<le> length s"
  using length_trim_end [of "trim_start s"] length_trim_start [of s] by (simp add: trim_def)

text \<open>Printable ASCII is no white space, and of ASCII only the blank is used below.\<close>

definition plain :: "char \<Rightarrow> bool" where
  "plain c \<longleftrightarrow> 32 < (of_char c :: nat) \<and> (of_char c :: nat) < 128"

lemma white_space_codes:
  assumes "w \<in> set white_space"
  shows "\<not> plain (hd w)" "\<not> plain (last w)"
  using assms by (auto simp: white_space_def utf8_3_def plain_def)

lemma white_prefix_plain [simp]: "plain c \<Longrightarrow> white_prefix (c # cs) = None"
  using white_space_codes(1) white_space_nonempty
  by (fastforce simp: white_prefix_def find_None_iff prefix_def neq_Nil_conv)

lemma white_prefix_blank [simp]: "white_prefix (CHR '' '' # cs) = Some '' ''"
proof -
  have b: "char_of (32 :: nat) = CHR '' ''" by code_simp
  obtain rest where w: "white_space = map (\<lambda>n. [char_of n]) [9 :: nat, 10, 11, 12, 13] @ '' '' # rest"
    by (simp add: white_space_def b)
  have n: "char_of (9 :: nat) \<noteq> CHR '' ''" "char_of (10 :: nat) \<noteq> CHR '' ''" "char_of (11 :: nat) \<noteq> CHR '' ''"
    "char_of (12 :: nat) \<noteq> CHR '' ''" "char_of (13 :: nat) \<noteq> CHR '' ''"
    by code_simp+
  show ?thesis by (simp add: white_prefix_def w n)
qed

lemma white_suffix_plain: "s \<noteq> [] \<Longrightarrow> plain (last s) \<Longrightarrow> white_suffix s = None"
  using white_space_codes(2) white_space_nonempty
  by (fastforce simp: white_suffix_def find_None_iff suffix_def)

lemma trim_plain: "s \<noteq> [] \<Longrightarrow> plain (hd s) \<Longrightarrow> plain (last s) \<Longrightarrow> trim s = s"
  by (cases s) (simp_all add: trim_def trim_start.simps trim_end.simps white_suffix_plain del: last.simps)

lemma trim_sides_plain: "s \<noteq> [] \<Longrightarrow> plain (hd s) \<Longrightarrow> trim_start s = s" "s \<noteq> [] \<Longrightarrow> plain (last s) \<Longrightarrow> trim_end s = s"
  by (cases s; simp add: trim_start.simps) (simp add: trim_end.simps white_suffix_plain)

lemma trim_Nil: "trim [] = []" using length_trim [of "[]"] by simp

lemma suffix_trim_start: "suffix (trim_start s) s"
proof (induction s rule: trim_start.induct)
  case (1 s)
  show ?case
    by (subst trim_start.simps)
      (use 1 in \<open>auto split: option.splits intro: suffix_order.trans [OF _ suffix_drop]\<close>)
qed

lemma prefix_trim_end: "prefix (trim_end s) s"
proof (induction s rule: trim_end.induct)
  case (1 s)
  show ?case
    by (subst trim_end.simps)
      (use 1 in \<open>auto split: option.splits intro: prefix_order.trans [OF _ take_is_prefix]\<close>)
qed

lemma sublist_trim [simp]: "sublist (trim s) s"
  unfolding trim_def
  by (rule sublist_order.order_trans [OF prefix_imp_sublist [OF prefix_trim_end] suffix_imp_sublist [OF suffix_trim_start]])

lemma sublist_splitn: "part \<in> set (splitn_char n c s) \<Longrightarrow> sublist part s"
proof (induction n c s rule: splitn_char.induct)
  case (3 n c s)
  show ?case
  proof (cases "split_char c s")
    case (Some p)
    obtain a b where p: "p = (a, b)" by fastforce
    have "s = a @ c # b" using split_char_Some Some p by blast
    then have "sublist a s" "sublist b s" by (auto simp: sublist_def intro: exI [of _ "a @ [c]"] exI [of _ "[]"])
    moreover have "part = a \<or> sublist part b" using 3 Some p by auto
    ultimately show ?thesis by (auto intro: sublist_order.order_trans)
  qed (use 3 in simp)
qed auto

section \<open>Case\<close>

definition ascii_lower :: "char \<Rightarrow> char" where
  "ascii_lower c = (if CHR ''A'' \<le> c \<and> c \<le> CHR ''Z'' then char_of ((of_char c :: nat) + 32) else c)"

definition ascii_upper :: "char \<Rightarrow> char" where
  "ascii_upper c = (if CHR ''a'' \<le> c \<and> c \<le> CHR ''z'' then char_of ((of_char c :: nat) - 32) else c)"

end
