(* ===== verification/Mizu_Interner.thy ===== *)
theory Mizu_Interner
  imports Mizu_Text
begin

text \<open>
  The symbol table of \<^verbatim>\<open>core/types/interner.rs\<close>. A \<open>symbol\<close> is the \<^verbatim>\<open>u32\<close> of the
  source, the index of its name cast from the length of the table, so the cast's
  truncation is written out. \<open>StringInterner\<close> and \<open>FrozenInterner\<close> have the same two
  fields; freezing hands them over, so one record models both and the frozen one
  is a table to which \<open>get_or_intern\<close> is no longer applied.

  The locale \<open>symbol_table\<close> is what the other components rely on: names and
  symbols are in bijection, and interning only ever adds.
\<close>

type_synonym symbol = nat

record string_interner =
  im_map :: "string \<rightharpoonup> symbol"
  im_vec :: "string list"

definition interner_new :: string_interner where
  "interner_new = \<lparr>im_map = Map.empty, im_vec = []\<rparr>"

definition interner_get :: "string_interner \<Rightarrow> string \<Rightarrow> symbol option" where
  "interner_get t s = im_map t s"

definition resolve :: "string_interner \<Rightarrow> symbol \<Rightarrow> string option" where
  "resolve t sy = (if sy < length (im_vec t) then Some (im_vec t ! sy) else None)"

definition get_or_intern :: "string_interner \<Rightarrow> string \<Rightarrow> symbol \<times> string_interner" where
  "get_or_intern t s =
     (case im_map t s of
        Some sy \<Rightarrow> (sy, t)
      | None \<Rightarrow>
          (let sy = length (im_vec t) mod 2 ^ 32
           in (sy, t\<lparr>im_map := (im_map t)(s \<mapsto> sy), im_vec := im_vec t @ [s]\<rparr>)))"

definition freeze :: "string_interner \<Rightarrow> string_interner" where
  "freeze t = \<lparr>im_map = im_map t, im_vec = im_vec t\<rparr>"

text \<open>The invariant: the two tables are inverse to each other and symbols fit in 32 bits.\<close>

definition interner_ok :: "string_interner \<Rightarrow> bool" where
  "interner_ok t \<longleftrightarrow> length (im_vec t) \<le> 2 ^ 32 \<and>
     (\<forall>s sy. interner_get t s = Some sy \<longleftrightarrow> resolve t sy = Some s)"

definition interner_room :: "string_interner \<Rightarrow> bool" where
  "interner_room t \<longleftrightarrow> length (im_vec t) < 2 ^ 32"

locale symbol_table =
  fixes ok :: "'t \<Rightarrow> bool" and room :: "'t \<Rightarrow> bool"
    and get :: "'t \<Rightarrow> string \<Rightarrow> symbol option"
    and res :: "'t \<Rightarrow> symbol \<Rightarrow> string option"
    and intern :: "'t \<Rightarrow> string \<Rightarrow> symbol \<times> 't"
  assumes get_res: "ok t \<Longrightarrow> get t s = Some sy \<longleftrightarrow> res t sy = Some s"
    and intern_ok: "ok t \<Longrightarrow> room t \<Longrightarrow> ok (snd (intern t s))"
    and intern_res: "ok t \<Longrightarrow> room t \<Longrightarrow> res (snd (intern t s)) (fst (intern t s)) = Some s"
    and intern_mono: "ok t \<Longrightarrow> res t sy = Some r \<Longrightarrow> res (snd (intern t s)) sy = Some r"
begin

lemma get_injective: "ok t \<Longrightarrow> get t a = Some sy \<Longrightarrow> get t b = Some sy \<Longrightarrow> a = b"
  by (simp add: get_res)

lemma intern_get: "ok t \<Longrightarrow> room t \<Longrightarrow> get (snd (intern t s)) s = Some (fst (intern t s))"
  using get_res [OF intern_ok] intern_res by blast

lemma intern_stable: "ok t \<Longrightarrow> room t \<Longrightarrow> get t r = Some sy \<Longrightarrow> get (snd (intern t s)) r = Some sy"
  using get_res [OF intern_ok] get_res intern_mono by blast

end

interpretation si: symbol_table interner_ok interner_room interner_get resolve get_or_intern
proof
  show "interner_get t s = Some sy \<longleftrightarrow> resolve t sy = Some s" if "interner_ok t" for t s sy
    using that by (simp add: interner_ok_def)
  show "resolve (snd (get_or_intern t s)) sy = Some r"
    if "interner_ok t" "resolve t sy = Some r" for t sy r s
    using that
    by (auto simp: get_or_intern_def resolve_def Let_def nth_append split: option.splits if_splits)
  show "resolve (snd (get_or_intern t s)) (fst (get_or_intern t s)) = Some s"
    if "interner_ok t" "interner_room t" for t s
    using that
    by (auto simp: get_or_intern_def resolve_def Let_def nth_append interner_ok_def interner_get_def
        interner_room_def split: option.splits)
  show "interner_ok (snd (get_or_intern t s))" if ok: "interner_ok t" and room: "interner_room t" for t s
  proof (cases "im_map t s")
    case None
    have "im_vec t ! i \<noteq> s" if "i < length (im_vec t)" for i
      using ok None that unfolding interner_ok_def interner_get_def resolve_def
      by (metis option.distinct(1))
    with ok room None show ?thesis
      by (auto simp: get_or_intern_def Let_def interner_ok_def interner_room_def interner_get_def
          resolve_def nth_append less_Suc_eq)
  qed (use ok in \<open>simp add: get_or_intern_def\<close>)
qed

text \<open>
  Interning a name and resolving the symbol gives the name back; the same name looked
  up again gives the same symbol; and every name interned before keeps its symbol.
\<close>

theorem intern_roundtrip:
  assumes "interner_ok t" and "interner_room t" and "get_or_intern t s = (sy, t')"
  shows "interner_ok t' \<and> resolve t' sy = Some s \<and> interner_get (freeze t') s = Some sy
       \<and> (\<forall>r i. interner_get t r = Some i \<longrightarrow> interner_get (freeze t') r = Some i)"
  using si.intern_ok [OF assms(1,2), of s] si.intern_res [OF assms(1,2), of s]
    si.intern_get [OF assms(1,2), of s] si.intern_stable [OF assms(1,2)] assms(3)
  by (simp add: freeze_def interner_get_def) (metis snd_conv)

theorem intern_roundtrip_witness:
  "resolve (snd (get_or_intern interner_new ''x'')) 0 = Some ''x''"
proof -
  have "interner_ok interner_new" "interner_room interner_new"
    by (auto simp: interner_ok_def interner_room_def interner_new_def interner_get_def resolve_def)
  from intern_roundtrip [OF this, of "''x''" 0 "snd (get_or_intern interner_new ''x'')"]
  show ?thesis by (simp add: get_or_intern_def interner_new_def Let_def)
qed

end
