(* ===== verification/Mizu_Ast.thy ===== *)
theory Mizu_Ast
  imports Mizu_Value Mizu_Interner
begin

text \<open>
  The expression trees of \<^verbatim>\<open>parser/logic/ast/mod.rs\<close>: nodes in an append-only arena
  that refer to each other by index, the shared argument pool of the calls, the
  check of an arena rebuilt from untrusted bytes (\<open>validate_references\<close>), and the
  actions, functions and computed bindings that own such trees.
\<close>

datatype value_type =
    TNum
  | TStr
  | TBool
  | TList value_type
  | TRecord "(string \<times> value_type) list"
  | TNullable value_type

fun show_type :: "value_type \<Rightarrow> string" where
  "show_type TNum = ''num''"
| "show_type TStr = ''string''"
| "show_type TBool = ''bool''"
| "show_type (TList inner) = ''list<'' @ show_type inner @ ''>''"
| "show_type (TRecord fs) =
     ''record{'' @ join_comma (map (\<lambda>(name, ty). name @ '': '' @ show_type ty) fs) @ ''}''"
| "show_type (TNullable inner) = show_type inner @ ''?''"

datatype network_method = Get | Post | Put | Delete | Query

fun method_as_str :: "network_method \<Rightarrow> string" where
  "method_as_str Get = ''GET''"
| "method_as_str Post = ''POST''"
| "method_as_str Put = ''PUT''"
| "method_as_str Delete = ''DELETE''"
| "method_as_str Query = ''QUERY''"

datatype payload_format = FJson | FForm | FText | FYaml | FMultipart

definition from_keyword :: "string \<Rightarrow> payload_format option" where
  "from_keyword s =
     (if s = ''json'' then Some FJson
      else if s = ''form'' then Some FForm
      else if s = ''text'' then Some FText
      else if s = ''yaml'' then Some FYaml
      else if s = ''multipart'' then Some FMultipart
      else None)"

fun as_keyword :: "payload_format \<Rightarrow> string" where
  "as_keyword FJson = ''json''"
| "as_keyword FForm = ''form''"
| "as_keyword FText = ''text''"
| "as_keyword FYaml = ''yaml''"
| "as_keyword FMultipart = ''multipart''"

datatype binop = Add | Sub | Mul | Div | Eq | Ne | Lt | Gt | Le | Ge | And | Or

section \<open>The arena\<close>

type_synonym expr_id = nat

datatype expr =
    ELiteral mval
  | EVariable symbol
  | EBinaryOp expr_id binop expr_id
  | EFunctionCall symbol nat nat
  | ELet symbol expr_id expr_id
  | ENot expr_id
  | EIfElse expr_id expr_id expr_id
  | EFieldAccess expr_id symbol u32

record expr_arena =
  nodes :: "expr list"
  args_pool :: "expr_id list"

definition arena_new :: expr_arena where
  "arena_new = \<lparr>nodes = [], args_pool = []\<rparr>"

definition alloc :: "expr_arena \<Rightarrow> expr \<Rightarrow> expr_id \<times> expr_arena" where
  "alloc ar e = (length (nodes ar) mod 2 ^ 32, ar\<lparr>nodes := nodes ar @ [e]\<rparr>)"

definition arena_get :: "expr_arena \<Rightarrow> expr_id \<Rightarrow> expr outcome" where
  "arena_get ar i = index_or_panic (nodes ar) i"

definition push_args :: "expr_arena \<Rightarrow> expr_id list \<Rightarrow> (nat \<times> nat) outcome \<times> expr_arena" where
  "push_args ar as =
     (if length (args_pool ar) \<ge> 2 ^ 32
      then (Err (ParseError ''expression arena argument pool exceeds u32::MAX entries''), ar)
      else if length as \<ge> 2 ^ 32
      then (Err (ParseError ''function call has more arguments than can be represented''), ar)
      else (Ok (length (args_pool ar), length as), ar\<lparr>args_pool := args_pool ar @ as\<rparr>))"

definition arena_args :: "expr_arena \<Rightarrow> nat \<Rightarrow> nat \<Rightarrow> expr_id list outcome" where
  "arena_args ar start len =
     (if start + len \<le> length (args_pool ar) then Ok (take len (drop start (args_pool ar)))
      else Fail Panic)"

section \<open>Validation of a rebuilt arena\<close>

definition check_ref :: "nat \<Rightarrow> expr_id \<Rightarrow> string \<Rightarrow> nat \<Rightarrow> unit outcome" where
  "check_ref node_count i what at =
     (if i \<ge> node_count
      then Err (ParseError (''arena node '' @ show_nat at @ '': '' @ what @ '' references node '' @ show_nat i
                  @ '' but the arena holds only '' @ show_nat node_count @ '' nodes''))
      else Ok ())"

fun check_node :: "nat \<Rightarrow> nat \<Rightarrow> nat \<Rightarrow> expr \<Rightarrow> unit outcome" where
  "check_node node_count pool_len at (ELiteral _) = Ok ()"
| "check_node node_count pool_len at (EVariable _) = Ok ()"
| "check_node node_count pool_len at (ENot inner) = check_ref node_count inner ''operand'' at"
| "check_node node_count pool_len at (EBinaryOp left _ right) =
     bindO (check_ref node_count left ''left operand'' at) (\<lambda>_.
       check_ref node_count right ''right operand'' at)"
| "check_node node_count pool_len at (ELet _ v body) =
     bindO (check_ref node_count v ''bound value'' at) (\<lambda>_.
       check_ref node_count body ''body'' at)"
| "check_node node_count pool_len at (EIfElse condition then_expr else_expr) =
     bindO (check_ref node_count condition ''condition'' at) (\<lambda>_.
       bindO (check_ref node_count then_expr ''then branch'' at) (\<lambda>_.
         check_ref node_count else_expr ''else branch'' at))"
| "check_node node_count pool_len at (EFieldAccess base _ _) = check_ref node_count base ''base'' at"
| "check_node node_count pool_len at (EFunctionCall _ args_start args_len) =
     (if args_start + args_len > pool_len
      then Err (ParseError (''arena node '' @ show_nat at @ '': FunctionCall args window ['' @ show_nat args_start
                  @ '', '' @ show_nat (args_start + args_len) @ '') exceeds the '' @ show_nat pool_len
                  @ ''-entry argument pool''))
      else Ok ())"

fun check_nodes :: "nat \<Rightarrow> nat \<Rightarrow> nat \<Rightarrow> expr list \<Rightarrow> unit outcome" where
  "check_nodes node_count pool_len at [] = Ok ()"
| "check_nodes node_count pool_len at (e # es) =
     bindO (check_node node_count pool_len at e) (\<lambda>_. check_nodes node_count pool_len (Suc at) es)"

fun check_pool :: "nat \<Rightarrow> nat \<Rightarrow> expr_id list \<Rightarrow> unit outcome" where
  "check_pool node_count at [] = Ok ()"
| "check_pool node_count at (i # is) =
     (if i \<ge> node_count
      then Err (ParseError (''argument pool entry '' @ show_nat at @ '' references node '' @ show_nat i
                  @ '' but the arena holds only '' @ show_nat node_count @ '' nodes''))
      else check_pool node_count (Suc at) is)"

definition validate_references :: "expr_arena \<Rightarrow> unit outcome" where
  "validate_references ar =
     (let node_count = length (nodes ar) mod 2 ^ 32; pool_len = length (args_pool ar) mod 2 ^ 32
      in bindO (check_nodes node_count pool_len 0 (nodes ar)) (\<lambda>_. check_pool node_count 0 (args_pool ar)))"

section \<open>Trees, functions, actions and bindings\<close>

record expr_tree =
  tree_arena :: expr_arena
  tree_root :: expr_id

definition root_expr :: "expr_tree \<Rightarrow> expr outcome" where
  "root_expr t = arena_get (tree_arena t) (tree_root t)"

datatype action =
    AEval expr_tree
  | AAssign string expr_tree
  | ANavigate expr_tree
  | ANetworkCall network_method symbol "expr_tree option" "expr_tree option" string payload_format
      "(string \<times> expr_tree) list"

datatype timer_interval = Millis nat | IntervalVariable string

record root_timer =
  timer_interval :: timer_interval
  timer_action :: action

record mizu_function =
  fn_params :: "(symbol \<times> value_type) list"
  fn_body :: expr_tree

record computed_binding =
  cb_name :: symbol
  cb_expr :: expr_tree
  cb_depends_on :: "symbol list"
  cb_tainted :: bool

section \<open>Well-formed arenas\<close>

fun expr_refs :: "expr \<Rightarrow> expr_id list" where
  "expr_refs (ELiteral _) = []"
| "expr_refs (EVariable _) = []"
| "expr_refs (EBinaryOp l _ r) = [l, r]"
| "expr_refs (EFunctionCall _ _ _) = []"
| "expr_refs (ELet _ v b) = [v, b]"
| "expr_refs (ENot i) = [i]"
| "expr_refs (EIfElse c t e) = [c, t, e]"
| "expr_refs (EFieldAccess b _ _) = [b]"

fun call_window_ok :: "nat \<Rightarrow> expr \<Rightarrow> bool" where
  "call_window_ok n (EFunctionCall _ s l) = (s + l \<le> n)"
| "call_window_ok n _ = True"

definition node_ok :: "expr_arena \<Rightarrow> expr \<Rightarrow> bool" where
  "node_ok ar e \<longleftrightarrow> list_all (\<lambda>i. i < length (nodes ar)) (expr_refs e)
     \<and> call_window_ok (length (args_pool ar)) e"

definition arena_ok :: "expr_arena \<Rightarrow> bool" where
  "arena_ok ar \<longleftrightarrow> list_all (node_ok ar) (nodes ar) \<and> list_all (\<lambda>i. i < length (nodes ar)) (args_pool ar)"

definition tree_ok :: "expr_tree \<Rightarrow> bool" where
  "tree_ok t \<longleftrightarrow> arena_ok (tree_arena t) \<and> tree_root t < length (nodes (tree_arena t))"

lemma check_ref_Ok [simp]: "check_ref n i w a = Ok u \<longleftrightarrow> i < n"
  by (auto simp: check_ref_def)

lemma check_node_Ok:
  "check_node n p a e = Ok () \<longleftrightarrow> list_all (\<lambda>i. i < n) (expr_refs e) \<and> call_window_ok p e"
  by (cases e) (auto simp: bindO_Ok)

lemma check_nodes_Ok:
  "check_nodes n p a es = Ok () \<longleftrightarrow>
     list_all (\<lambda>e. list_all (\<lambda>i. i < n) (expr_refs e) \<and> call_window_ok p e) es"
  by (induction es arbitrary: a) (auto simp: bindO_Ok check_node_Ok)

lemma check_pool_Ok: "check_pool n a is = Ok () \<longleftrightarrow> list_all (\<lambda>i. i < n) is"
  by (induction "is" arbitrary: a) auto

lemma call_window_mono: "call_window_ok n e \<Longrightarrow> n \<le> m \<Longrightarrow> call_window_ok m e"
  by (cases e) auto

lemma validate_references_ok:
  assumes "validate_references ar = Ok ()"
  shows "arena_ok ar"
proof -
  have n: "length (nodes ar) mod 2 ^ 32 \<le> length (nodes ar)"
    and p: "length (args_pool ar) mod 2 ^ 32 \<le> length (args_pool ar)"
    by simp_all
  have "list_all (\<lambda>e. list_all (\<lambda>i. i < length (nodes ar) mod 2 ^ 32) (expr_refs e)
          \<and> call_window_ok (length (args_pool ar) mod 2 ^ 32) e) (nodes ar)"
    and "list_all (\<lambda>i. i < length (nodes ar) mod 2 ^ 32) (args_pool ar)"
    using assms by (simp_all add: validate_references_def Let_def bindO_Ok check_nodes_Ok check_pool_Ok)
  then show ?thesis
    unfolding arena_ok_def node_ok_def [abs_def] list_all_iff
    by (meson call_window_mono less_le_trans n p)
qed

text \<open>
  Validation is exact: an arena with fewer than \<open>2^32\<close> nodes and pool entries is
  accepted if and only if every reference in it addresses a node it owns and every call's
  window lies inside its pool.
\<close>

theorem validate_references_exact:
  assumes "length (nodes ar) < 2 ^ 32" and "length (args_pool ar) < 2 ^ 32"
  shows "validate_references ar = Ok () \<longleftrightarrow> arena_ok ar"
  using assms
  by (simp add: validate_references_def Let_def bindO_Ok check_nodes_Ok check_pool_Ok arena_ok_def node_ok_def [abs_def])

theorem validate_references_exact_witness:
  "validate_references \<lparr>nodes = [ENot 0, EFunctionCall 7 0 1], args_pool = [1]\<rparr> = Ok ()"
  using validate_references_exact [of "\<lparr>nodes = [ENot 0, EFunctionCall 7 0 1], args_pool = [1]\<rparr>"]
  by (simp add: arena_ok_def node_ok_def)

text \<open>
  Payload keywords round trip: parsing the keyword of a format gives the format, and a
  keyword that parses is the keyword of the result.
\<close>

theorem payload_keyword_roundtrip:
  "from_keyword (as_keyword f) = Some f \<and> (from_keyword s = Some g \<longrightarrow> as_keyword g = s)"
  by (cases f) (auto simp: from_keyword_def split: if_splits)

theorem payload_keyword_roundtrip_witness: "as_keyword FYaml = ''yaml''"
  using payload_keyword_roundtrip [of FJson "''yaml''" FYaml] by (simp add: from_keyword_def)

lemma arena_get_ok: "arena_ok ar \<Longrightarrow> arena_get ar i = Ok e \<Longrightarrow> node_ok ar e"
  by (auto simp: arena_get_def index_or_panic_def arena_ok_def list_all_length split: if_splits)

lemma alloc_ok:
  assumes "arena_ok ar" "node_ok ar e" "length (nodes ar) < 2 ^ 32" "alloc ar e = (i, ar')"
  shows "arena_ok ar' \<and> arena_get ar' i = Ok e"
  using assms
  by (auto simp: alloc_def arena_ok_def node_ok_def list_all_iff arena_get_def index_or_panic_def
      less_SucI)

lemma push_args_roundtrip:
  "push_args ar as = (Ok (start, len), ar') \<Longrightarrow> arena_args ar' start len = Ok as"
  by (auto simp: push_args_def arena_args_def split: if_splits)

end
