(* ===== verification/Mizu_Binop.thy ===== *)
theory Mizu_Binop
  imports Mizu_Ast
begin

text \<open>
  Binary operators, runtime type names and the runtime type check of
  \<^verbatim>\<open>parser/logic/eval.rs\<close>. The arms of the source's match are grouped by operand
  types; within a group they are in the source's order. The products the source
  forms in \<^verbatim>\<open>i128\<close> stay below \<open>2^127\<close> for \<^verbatim>\<open>i64\<close> operands, so they are exact here.
\<close>

fun type_name :: "mval \<Rightarrow> string" where
  "type_name (VInt _) = ''num''"
| "type_name (VDecimal _) = ''num''"
| "type_name (VString _) = ''string''"
| "type_name (VBool _) = ''bool''"
| "type_name (VList _) = ''list''"
| "type_name (VRecord _) = ''record''"
| "type_name VNull = ''null''"
| "type_name (VFileHandle _) = ''file''"

fun compare_op :: "binop \<Rightarrow> int \<Rightarrow> int \<Rightarrow> bool" where
  "compare_op Eq l r = (l = r)"
| "compare_op Ne l r = (l \<noteq> r)"
| "compare_op Lt l r = (l < r)"
| "compare_op Gt l r = (l > r)"
| "compare_op Le l r = (l \<le> r)"
| "compare_op Ge l r = (l \<ge> r)"
| "compare_op _ l r = False"

fun is_comparison :: "binop \<Rightarrow> bool" where
  "is_comparison op = (op \<in> {Eq, Ne, Lt, Gt, Le, Ge})"

definition mismatch :: "mval \<Rightarrow> mval outcome" where
  "mismatch l = Err (TypeError ''compatible operand types'' (type_name l))"

definition overflow_or :: "(int \<Rightarrow> mval) \<Rightarrow> int \<Rightarrow> mval outcome" where
  "overflow_or mk x = (case checked_i64 x of Some y \<Rightarrow> Ok (mk y) | None \<Rightarrow> Err IntegerOverflow)"

fun int_binop :: "binop \<Rightarrow> int \<Rightarrow> int \<Rightarrow> mval outcome" where
  "int_binop Add l r = overflow_or VInt (l + r)"
| "int_binop Sub l r = overflow_or VInt (l - r)"
| "int_binop Mul l r = overflow_or VInt (l * r)"
| "int_binop Div l r =
     (if r = 0 then Err DivisionByZero else overflow_or VDecimal (trunc_div (l * DECIMAL_SCALE) r))"
| "int_binop And l r = mismatch (VInt l)"
| "int_binop Or l r = mismatch (VInt l)"
| "int_binop op l r = Ok (VBool (compare_op op l r))"

fun decimal_binop :: "binop \<Rightarrow> int \<Rightarrow> int \<Rightarrow> mval outcome" where
  "decimal_binop Add l r = overflow_or VDecimal (l + r)"
| "decimal_binop Sub l r = overflow_or VDecimal (l - r)"
| "decimal_binop Mul l r = overflow_or VDecimal (trunc_div (l * r) DECIMAL_SCALE)"
| "decimal_binop Div l r =
     (if r = 0 then Err DivisionByZero else overflow_or VDecimal (trunc_div (l * DECIMAL_SCALE) r))"
| "decimal_binop And l r = mismatch (VDecimal l)"
| "decimal_binop Or l r = mismatch (VDecimal l)"
| "decimal_binop op l r = Ok (VBool (compare_op op l r))"

fun string_binop :: "binop \<Rightarrow> string \<Rightarrow> string \<Rightarrow> nat \<Rightarrow> nat \<Rightarrow> mval outcome \<times> nat" where
  "string_binop Add l r ic max_instructions =
     (let ic' = sat_add ic (sat_add (length l) (length r))
      in if ic' > max_instructions then (Err Timeout, ic') else (Ok (VString (l @ r)), ic'))"
| "string_binop Eq l r ic _ = (Ok (VBool (l = r)), ic)"
| "string_binop Ne l r ic _ = (Ok (VBool (l \<noteq> r)), ic)"
| "string_binop Lt l r ic _ = (Ok (VBool (l < r)), ic)"
| "string_binop Gt l r ic _ = (Ok (VBool (l > r)), ic)"
| "string_binop Le l r ic _ = (Ok (VBool (l \<le> r)), ic)"
| "string_binop Ge l r ic _ = (Ok (VBool (l \<ge> r)), ic)"
| "string_binop _ l r ic _ = (mismatch (VString l), ic)"

fun bool_binop :: "binop \<Rightarrow> bool \<Rightarrow> bool \<Rightarrow> mval outcome" where
  "bool_binop Eq l r = Ok (VBool (l = r))"
| "bool_binop Ne l r = Ok (VBool (l \<noteq> r))"
| "bool_binop And l r = Ok (VBool (l \<and> r))"
| "bool_binop Or l r = Ok (VBool (l \<or> r))"
| "bool_binop _ l r = mismatch (VBool l)"

text \<open>Null against anything: only equality and inequality are defined.\<close>

fun null_binop :: "binop \<Rightarrow> mval \<Rightarrow> mval \<Rightarrow> mval outcome" where
  "null_binop Eq l r = Ok (VBool (l = VNull \<and> r = VNull))"
| "null_binop Ne l r = Ok (VBool (\<not> (l = VNull \<and> r = VNull)))"
| "null_binop _ l r = mismatch l"

definition apply_binop :: "binop \<Rightarrow> mval \<Rightarrow> mval \<Rightarrow> nat \<Rightarrow> nat \<Rightarrow> mval outcome \<times> nat" where
  "apply_binop op lv rv ic max_instructions =
     (if lv = VNull \<or> rv = VNull then (null_binop op lv rv, ic)
      else case (lv, rv) of
        (VInt l, VInt r) \<Rightarrow> (int_binop op l r, ic)
      | (VDecimal l, VDecimal r) \<Rightarrow> (decimal_binop op l r, ic)
      | (VInt l, VDecimal r) \<Rightarrow>
          if is_comparison op then (Ok (VBool (compare_op op (l * DECIMAL_SCALE) r)), ic)
          else (case checked_i64 (l * DECIMAL_SCALE) of
                  None \<Rightarrow> (Err IntegerOverflow, ic)
                | Some scaled_l \<Rightarrow> (decimal_binop op scaled_l r, ic))
      | (VDecimal l, VInt r) \<Rightarrow>
          if is_comparison op then (Ok (VBool (compare_op op l (r * DECIMAL_SCALE))), ic)
          else (case checked_i64 (r * DECIMAL_SCALE) of
                  None \<Rightarrow> (Err IntegerOverflow, ic)
                | Some scaled_r \<Rightarrow> (decimal_binop op l scaled_r, ic))
      | (VString l, VString r) \<Rightarrow> string_binop op l r ic max_instructions
      | (VBool l, VBool r) \<Rightarrow> (bool_binop op l r, ic)
      | (l, _) \<Rightarrow> (mismatch l, ic))"

section \<open>Runtime type check\<close>

fun type_matches :: "mval \<Rightarrow> value_type \<Rightarrow> bool" where
  "type_matches v (TNullable inner) = (v = VNull \<or> type_matches v inner)"
| "type_matches (VInt _) TNum = True"
| "type_matches (VDecimal _) TNum = True"
| "type_matches (VString _) TStr = True"
| "type_matches (VBool _) TBool = True"
| "type_matches (VList items) (TList inner) = list_all (\<lambda>item. type_matches item inner) items"
| "type_matches (VRecord fs) (TRecord expected_fields) =
     list_all2 (\<lambda>f (exp_name, exp_type). rf_key f = exp_name \<and> type_matches (rf_value f) exp_type)
       fs expected_fields"
| "type_matches _ _ = False"

definition check_type :: "mval \<Rightarrow> value_type \<Rightarrow> unit outcome" where
  "check_type v expected =
     (if type_matches v expected then Ok () else Err (TypeError (show_type expected) (type_name v)))"

section \<open>Facts\<close>

lemma overflow_or_Ok: "overflow_or mk x = Ok v \<longleftrightarrow> v = mk x \<and> in_i64 x"
  by (auto simp: overflow_or_def split: option.splits)

lemma overflow_or_faults: "overflow_or mk x = Fail e \<longleftrightarrow> e = Error IntegerOverflow \<and> \<not> in_i64 x"
  by (auto simp: overflow_or_def split: option.splits)

lemma mismatch_simps [simp]:
  "mismatch l \<noteq> Ok v" "mismatch l = Fail e \<longleftrightarrow> e = Error (TypeError ''compatible operand types'' (type_name l))"
  by (auto simp: mismatch_def)

lemma int_binop_ok: "int_binop op l r = Ok v \<Longrightarrow> value_ok v"
  by (cases op) (auto simp: overflow_or_Ok split: if_splits)

lemma decimal_binop_ok: "decimal_binop op l r = Ok v \<Longrightarrow> value_ok v"
  by (cases op) (auto simp: overflow_or_Ok split: if_splits)

lemma string_binop_ok: "string_binop op l r ic m = (Ok v, ic') \<Longrightarrow> value_ok v"
  by (cases op) (auto simp: Let_def split: if_splits)

lemma bool_binop_ok: "bool_binop op l r = Ok v \<Longrightarrow> value_ok v"
  by (cases op) auto

lemma null_binop_ok: "null_binop op l r = Ok v \<Longrightarrow> value_ok v"
  by (cases op) auto

lemma apply_binop_ok: "apply_binop op l r ic m = (Ok v, ic') \<Longrightarrow> value_ok v"
  by (cases l; cases r)
    (auto simp: apply_binop_def int_binop_ok decimal_binop_ok string_binop_ok bool_binop_ok null_binop_ok
      split: if_splits option.splits)

lemma string_binop_budget:
  "string_binop op l r ic m = (res, ic') \<Longrightarrow> ic \<le> u64_max \<Longrightarrow> ic \<le> m \<Longrightarrow>
     ic \<le> ic' \<and> ic' \<le> u64_max \<and> (is_ok res \<longrightarrow> ic' \<le> m)"
  by (cases op) (auto simp: Let_def sat_add_ge split: if_splits)

lemma apply_binop_budget:
  "apply_binop op l r ic m = (res, ic') \<Longrightarrow> ic \<le> u64_max \<Longrightarrow> ic \<le> m \<Longrightarrow>
     ic \<le> ic' \<and> ic' \<le> u64_max \<and> (is_ok res \<longrightarrow> ic' \<le> m)"
  by (cases l; cases r)
    (auto simp: apply_binop_def split: if_splits option.splits dest!: string_binop_budget)

lemma apply_binop_comparison_budget:
  "is_comparison op \<Longrightarrow> apply_binop op l r ic m = (res, ic') \<Longrightarrow> ic' = ic"
  by (cases l; cases r; cases op) (auto simp: apply_binop_def split: if_splits option.splits)

definition binop_faults :: "fault set" where
  "binop_faults = {Error IntegerOverflow, Error DivisionByZero, Error Timeout}
     \<union> range (\<lambda>n. Error (TypeError ''compatible operand types'' n))"

lemma int_binop_faults: "int_binop op l r = Fail e \<Longrightarrow> e \<in> binop_faults"
  by (cases op) (auto simp: overflow_or_faults binop_faults_def split: if_splits)

lemma decimal_binop_faults: "decimal_binop op l r = Fail e \<Longrightarrow> e \<in> binop_faults"
  by (cases op) (auto simp: overflow_or_faults binop_faults_def split: if_splits)

lemma string_binop_faults: "string_binop op l r ic m = (Fail e, ic') \<Longrightarrow> e \<in> binop_faults"
  by (cases op) (auto simp: binop_faults_def Let_def split: if_splits)

lemma bool_binop_faults: "bool_binop op l r = Fail e \<Longrightarrow> e \<in> binop_faults"
  by (cases op) (auto simp: binop_faults_def)

lemma null_binop_faults: "null_binop op l r = Fail e \<Longrightarrow> e \<in> binop_faults"
  by (cases op) (auto simp: binop_faults_def)

lemma mismatch_faults: "mismatch l = Fail e \<Longrightarrow> e \<in> binop_faults"
  by (auto simp: binop_faults_def)

lemmas binop_group_faults = int_binop_faults decimal_binop_faults string_binop_faults
  bool_binop_faults null_binop_faults

lemma apply_binop_faults: "apply_binop op l r ic m = (Fail e, ic') \<Longrightarrow> e \<in> binop_faults"
  by (cases l; cases r)
    (auto simp: apply_binop_def binop_faults_def
      split: if_splits option.splits dest!: binop_group_faults)

lemma binop_faults_no_panic: "e \<in> binop_faults \<Longrightarrow> e \<noteq> Panic \<and> e \<noteq> OutOfFuel"
  by (auto simp: binop_faults_def)

section \<open>Numeric semantics\<close>

text \<open>
  The number a value stands for, as a multiple of \<open>1 / DECIMAL_SCALE\<close>, and the exact
  operation on such multiples, truncating towards zero where the scale loses digits.
\<close>

fun scaled_num :: "mval \<Rightarrow> int option" where
  "scaled_num (VInt i) = Some (i * DECIMAL_SCALE)"
| "scaled_num (VDecimal d) = Some d"
| "scaled_num _ = None"

fun exact_op :: "binop \<Rightarrow> int \<Rightarrow> int \<Rightarrow> int" where
  "exact_op Add x y = x + y"
| "exact_op Sub x y = x - y"
| "exact_op Mul x y = trunc_div (x * y) DECIMAL_SCALE"
| "exact_op Div x y = trunc_div (x * DECIMAL_SCALE) y"
| "exact_op _ x y = 0"

lemma trunc_div_mult_cancel: "c \<noteq> 0 \<Longrightarrow> trunc_div (a * c) (b * c) = trunc_div a b"
  by (auto simp: trunc_div_def abs_mult sgn_mult)

lemma trunc_div_exact: "c \<noteq> 0 \<Longrightarrow> trunc_div (a * c) c = a"
  using trunc_div_mult_cancel [of c a 1] by (simp add: trunc_div_def sgn_mult_abs)

lemma scale_nonzero [simp]: "DECIMAL_SCALE \<noteq> 0" "0 < DECIMAL_SCALE"
  by (simp_all add: DECIMAL_SCALE_def)

lemma exact_op_scale:
  "exact_op Mul (l * DECIMAL_SCALE) (r * DECIMAL_SCALE) = l * r * DECIMAL_SCALE"
  "exact_op Div (l * DECIMAL_SCALE) (r * DECIMAL_SCALE) = trunc_div (l * DECIMAL_SCALE) r"
  using trunc_div_exact [of DECIMAL_SCALE "l * r * DECIMAL_SCALE"]
    trunc_div_mult_cancel [of DECIMAL_SCALE "l * DECIMAL_SCALE" r]
  by (simp_all add: algebra_simps)

lemma apply_binop_numeric:
  assumes "scaled_num a = Some x" "scaled_num b = Some y"
  shows "is_comparison op \<Longrightarrow> apply_binop op a b ic m = (Ok (VBool (compare_op op x y)), ic)"
    and "op \<in> {Add, Sub, Mul, Div} \<Longrightarrow> apply_binop op a b ic m = (Ok v, ic') \<Longrightarrow>
           scaled_num v = Some (exact_op op x y)"
proof -
  show "apply_binop op a b ic m = (Ok (VBool (compare_op op x y)), ic)" if "is_comparison op"
    using that assms by (cases a; cases b; cases op) (auto simp: apply_binop_def)
  show "scaled_num v = Some (exact_op op x y)"
    if "op \<in> {Add, Sub, Mul, Div}" "apply_binop op a b ic m = (Ok v, ic')"
    using that assms exact_op_scale
    by (cases a; cases b; cases op)
      (auto simp: apply_binop_def overflow_or_Ok algebra_simps split: if_splits option.splits)
qed

text \<open>
  Numeric operators do not depend on how a number is spelled: comparisons always answer,
  with the order of the numbers the operands stand for, and an arithmetic result stands for
  the exact result truncated towards zero at the eighth decimal.
\<close>

theorem numeric_operators_exact:
  assumes "scaled_num a = Some x" and "scaled_num b = Some y"
  shows "(is_comparison op \<longrightarrow> apply_binop op a b ic m = (Ok (VBool (compare_op op x y)), ic))
       \<and> (op \<in> {Add, Sub, Mul, Div} \<and> apply_binop op a b ic m = (Ok v, ic') \<longrightarrow>
            scaled_num v = Some (exact_op op x y) \<and> value_ok v)"
  using apply_binop_numeric(1) [OF assms, of op ic m] apply_binop_numeric(2) [OF assms, of op ic m v ic']
    apply_binop_ok [of op a b ic m v ic'] by simp

theorem numeric_operators_exact_witness:
  "scaled_num (VDecimal 350000000) = Some (exact_op Div (7 * DECIMAL_SCALE) (2 * DECIMAL_SCALE))"
proof -
  have "apply_binop Div (VInt 7) (VInt 2) 0 10 = (Ok (VDecimal 350000000), 0)"
    by (simp add: apply_binop_def overflow_or_def trunc_div_def DECIMAL_SCALE_def checked_i64_def i64_defs)
  then show ?thesis
    using numeric_operators_exact [of "VInt 7" "7 * DECIMAL_SCALE" "VInt 2" "2 * DECIMAL_SCALE" Div 0 10
        "VDecimal 350000000" 0]
    by simp
qed

text \<open>
  An operator never panics, whatever its operands: every failure is one of the four
  errors of the source, and the instruction count it leaves is within the budget on success.
\<close>

theorem apply_binop_total:
  assumes "apply_binop op l r ic m = (res, ic')" and "ic \<le> m" and "m \<le> u64_max"
  shows "ic \<le> ic' \<and> (case res of Ok v \<Rightarrow> ic' \<le> m \<and> value_ok v | Fail e \<Rightarrow> e \<in> binop_faults)"
  using apply_binop_budget [OF assms(1)] assms apply_binop_ok apply_binop_faults
  by (auto split: outcome.splits)

theorem apply_binop_total_witness:
  "snd (apply_binop Add (VString ''ab'') (VString ''c'') 4 10) \<le> 10"
proof -
  have r: "apply_binop Add (VString ''ab'') (VString ''c'') 4 10 = (Ok (VString ''abc''), 7)"
    by (simp add: apply_binop_def Let_def sat_add_def u64_max_def)
  show ?thesis using apply_binop_total [OF r] r by (simp add: u64_max_def)
qed

end
