(* ===== verification/Mizu_Evaluator.thy ===== *)
theory Mizu_Evaluator
  imports Mizu_Binop
begin

text \<open>
  The evaluator's state of \<^verbatim>\<open>core/types/eval/types.rs\<close> and its scope operations, with
  the capability actions of \<^verbatim>\<open>messages.rs\<close> it queues.

  The local scope is kept twice: as two parallel stacks and as a reverse index
  from a symbol to its positions. \<open>locals_ok\<close> says the three agree; the locale
  \<open>scope_stack\<close> is the contract the evaluator relies on, a plain stack of bindings
  on which pushing, popping and truncating are list operations and lookup is the
  innermost binding of the current frame. It is interpreted on the three-table
  implementation.
\<close>

datatype runtime_action =
    RNone
  | RNetworkCall network_method nat "mval option" "string option" symbol payload_format "(string \<times> mval) list"
  | RResolvedCall string string "mval option" symbol payload_format "(string \<times> mval) list"
  | RStoreLocal string mval
  | RCopyToClipboard string
  | RGetSystemTime symbol
  | RNavigate string
  | RDownloadMedia string
  | RDownloadAlias nat

definition MAX_INTERPOLATED_BYTES :: nat where
  "MAX_INTERPOLATED_BYTES = 64 * 1024"

definition MAX_EVAL_DEPTH :: nat where
  "MAX_EVAL_DEPTH = 256"

record evaluator =
  global_store :: "symbol \<rightharpoonup> mval"
  local_stack :: "mval list"
  local_symbols :: "symbol list"
  local_index :: "symbol \<rightharpoonup> nat list"
  instruction_count :: nat
  max_instructions :: nat
  eval_depth :: nat
  accumulated_actions :: "runtime_action list"
  undo_log :: "(symbol \<times> mval) list"
  computed_var_syms :: "symbol set"

definition evaluator_new :: "nat \<Rightarrow> evaluator" where
  "evaluator_new mx =
     \<lparr>global_store = Map.empty, local_stack = [], local_symbols = [], local_index = Map.empty,
      instruction_count = 0, max_instructions = mx, eval_depth = 0, accumulated_actions = [],
      undo_log = [], computed_var_syms = {}\<rparr>"

definition evaluator_default :: evaluator where
  "evaluator_default = evaluator_new 20000"

definition push_local :: "symbol \<Rightarrow> mval \<Rightarrow> evaluator \<Rightarrow> evaluator" where
  "push_local y v st =
     (let idx = length (local_stack st);
          old = (case local_index st y of None \<Rightarrow> [] | Some is \<Rightarrow> is)
      in st\<lparr>local_stack := local_stack st @ [v],
            local_symbols := local_symbols st @ [y],
            local_index := (local_index st)(y \<mapsto> old @ [idx])\<rparr>)"

definition pop_index :: "symbol \<Rightarrow> (symbol \<rightharpoonup> nat list) \<Rightarrow> (symbol \<rightharpoonup> nat list)" where
  "pop_index y ix =
     (case ix y of
        None \<Rightarrow> ix
      | Some v \<Rightarrow> (if butlast v = [] then ix(y := None) else ix(y \<mapsto> butlast v)))"

definition pop_local :: "evaluator \<Rightarrow> evaluator" where
  "pop_local st =
     (if local_symbols st = [] then st
      else st\<lparr>local_symbols := butlast (local_symbols st),
              local_stack := butlast (local_stack st),
              local_index := pop_index (last (local_symbols st)) (local_index st)\<rparr>)"

definition truncate_locals :: "nat \<Rightarrow> evaluator \<Rightarrow> evaluator" where
  "truncate_locals new_len st =
     st\<lparr>local_index := fold pop_index (rev (drop new_len (local_symbols st))) (local_index st),
        local_stack := take new_len (local_stack st),
        local_symbols := take new_len (local_symbols st)\<rparr>"

definition set_global :: "symbol \<Rightarrow> mval \<Rightarrow> evaluator \<Rightarrow> evaluator" where
  "set_global y v st =
     (let old_val = (case global_store st y of None \<Rightarrow> VNull | Some w \<Rightarrow> w)
      in st\<lparr>global_store := (global_store st)(y \<mapsto> v), undo_log := undo_log st @ [(y, old_val)]\<rparr>)"

definition get_global :: "evaluator \<Rightarrow> symbol \<Rightarrow> mval" where
  "get_global st y = (case global_store st y of None \<Rightarrow> VNull | Some v \<Rightarrow> v)"

definition get_local :: "evaluator \<Rightarrow> symbol \<Rightarrow> nat \<Rightarrow> mval option outcome" where
  "get_local st y frame_pointer =
     (case local_index st y of
        None \<Rightarrow> Ok None
      | Some indices \<Rightarrow>
          if indices = [] then Ok None
          else if last indices \<ge> frame_pointer
          then bindO (index_or_panic (local_stack st) (last indices)) (\<lambda>v. Ok (Some v))
          else Ok None)"

definition get_value_by_name :: "evaluator \<Rightarrow> string \<Rightarrow> string_interner \<Rightarrow> mval option outcome" where
  "get_value_by_name st name t =
     (case interner_get t name of
        None \<Rightarrow> Ok None
      | Some y \<Rightarrow>
          bindO (get_local st y 0) (\<lambda>r. case r of
            Some v \<Rightarrow> Ok (Some v)
          | None \<Rightarrow> (case global_store st y of
                Some v \<Rightarrow> if v \<noteq> VNull then Ok (Some v) else Ok None
              | None \<Rightarrow> Ok None)))"

section \<open>The scope as a stack of bindings\<close>

definition locals_abs :: "evaluator \<Rightarrow> (symbol \<times> mval) list" where
  "locals_abs st = zip (local_symbols st) (local_stack st)"

fun positions :: "symbol \<Rightarrow> nat \<Rightarrow> symbol list \<Rightarrow> nat list" where
  "positions y i [] = []"
| "positions y i (x # xs) = (if x = y then i # positions y (Suc i) xs else positions y (Suc i) xs)"

definition index_of :: "symbol list \<Rightarrow> symbol \<rightharpoonup> nat list" where
  "index_of xs y = (if positions y 0 xs = [] then None else Some (positions y 0 xs))"

definition locals_ok :: "evaluator \<Rightarrow> bool" where
  "locals_ok st \<longleftrightarrow> length (local_stack st) = length (local_symbols st)
     \<and> local_index st = index_of (local_symbols st)"

locale scope_stack =
  fixes ok :: "'s \<Rightarrow> bool" and abs :: "'s \<Rightarrow> (symbol \<times> mval) list"
    and push :: "symbol \<Rightarrow> mval \<Rightarrow> 's \<Rightarrow> 's" and pop :: "'s \<Rightarrow> 's" and trunc :: "nat \<Rightarrow> 's \<Rightarrow> 's"
    and look :: "'s \<Rightarrow> symbol \<Rightarrow> nat \<Rightarrow> mval option outcome"
  assumes push_ok: "ok s \<Longrightarrow> ok (push y v s)"
    and push_abs: "ok s \<Longrightarrow> abs (push y v s) = abs s @ [(y, v)]"
    and pop_ok: "ok s \<Longrightarrow> ok (pop s)"
    and pop_abs: "ok s \<Longrightarrow> abs (pop s) = butlast (abs s)"
    and trunc_ok: "ok s \<Longrightarrow> ok (trunc n s)"
    and trunc_abs: "ok s \<Longrightarrow> abs (trunc n s) = take n (abs s)"
    and look_abs: "ok s \<Longrightarrow> look s y fp = Ok (map_of (rev (drop fp (abs s))) y)"
begin

lemma look_pushed: "ok s \<Longrightarrow> fp \<le> length (abs s) \<Longrightarrow> look (push y v s) y fp = Ok (Some v)"
  by (simp add: look_abs push_ok push_abs)

lemma look_other:
  "ok s \<Longrightarrow> x \<noteq> y \<Longrightarrow> look (push y v s) x fp = look s x fp"
  by (simp add: look_abs push_ok push_abs) (cases "fp \<le> length (abs s)"; simp)

lemma pop_push: "ok s \<Longrightarrow> abs (pop (push y v s)) = abs s"
  by (simp add: pop_abs push_ok push_abs)

lemma look_no_panic: "ok s \<Longrightarrow> look s y fp \<noteq> Fail e"
  by (simp add: look_abs)

end

lemma positions_append: "positions y i (xs @ ys) = positions y i xs @ positions y (i + length xs) ys"
  by (induction xs arbitrary: i) auto

lemma index_of_snoc:
  "index_of (xs @ [y]) = (index_of xs)(y \<mapsto> (case index_of xs y of None \<Rightarrow> [] | Some is \<Rightarrow> is) @ [length xs])"
  by (auto simp: index_of_def positions_append fun_eq_iff)

lemma pop_index_snoc: "pop_index y (index_of (xs @ [y])) = index_of xs"
  by (auto simp: pop_index_def index_of_def positions_append fun_eq_iff)

lemma fold_pop_index: "fold pop_index (rev ys) (index_of (xs @ ys)) = index_of xs"
proof (induction ys rule: rev_induct)
  case (snoc y ys)
  then show ?case using pop_index_snoc [of y "xs @ ys"] by simp
qed simp

lemma positions_less: "i \<in> set (positions y k xs) \<Longrightarrow> i < k + length xs"
  by (induction xs arbitrary: k) (fastforce split: if_splits)+

lemma index_of_less: "index_of xs y = Some is \<Longrightarrow> is \<noteq> [] \<and> last is < length xs"
  using positions_less [of "last is" y 0 xs] by (auto simp: index_of_def split: if_splits)

lemma index_of_lookup:
  assumes "length xs = length vs"
  shows "(case index_of xs y of
      None \<Rightarrow> Ok None
    | Some is \<Rightarrow> if is = [] then Ok None
        else if last is \<ge> fp then bindO (index_or_panic vs (last is)) (\<lambda>v. Ok (Some v)) else Ok None)
   = Ok (map_of (rev (drop fp (zip xs vs))) y)"
  using assms
proof (induction xs arbitrary: vs rule: rev_induct)
  case Nil
  then show ?case by (simp add: index_of_def)
next
  case (snoc x xs)
  then obtain ws w where vs: "vs = ws @ [w]" "length xs = length ws"
    by (cases vs rule: rev_cases) auto
  have z: "drop fp (zip (xs @ [x]) vs) =
      (if fp \<le> length xs then drop fp (zip xs ws) @ [(x, w)] else [])"
    using vs by auto
  show ?case
  proof (cases "x = y")
    case True
    then show ?thesis using vs z by (auto simp: index_of_snoc index_or_panic_def)
  next
    case False
    then have "index_of (xs @ [x]) y = index_of xs y" by (simp add: index_of_snoc)
    with snoc.IH [OF vs(2)] False show ?thesis
      using vs z by (auto simp: index_or_panic_def nth_append dest: index_of_less split: option.splits if_splits)
  qed
qed

interpretation ls: scope_stack locals_ok locals_abs push_local pop_local truncate_locals get_local
proof
  fix s y v n fp
  assume ok: "locals_ok s"
  show "locals_ok (push_local y v s)" "locals_abs (push_local y v s) = locals_abs s @ [(y, v)]"
    using ok by (simp_all add: locals_ok_def locals_abs_def push_local_def Let_def index_of_snoc)
  show "locals_ok (pop_local s)" "locals_abs (pop_local s) = butlast (locals_abs s)"
    using ok
    by (cases "local_symbols s" rule: rev_cases; cases "local_stack s" rule: rev_cases;
        simp add: locals_ok_def locals_abs_def pop_local_def pop_index_snoc butlast_append)+
  show "locals_ok (truncate_locals n s)" "locals_abs (truncate_locals n s) = take n (locals_abs s)"
    using ok fold_pop_index [of "drop n (local_symbols s)" "take n (local_symbols s)"]
    by (simp_all add: locals_ok_def locals_abs_def truncate_locals_def take_zip)
  show "get_local s y fp = Ok (map_of (rev (drop fp (locals_abs s))) y)"
    using ok index_of_lookup [of "local_symbols s" "local_stack s" fp y]
    by (simp add: get_local_def locals_ok_def locals_abs_def)
qed
text \<open>
  The local scope of the evaluator refines a stack of bindings: pushing appends, popping
  and truncating drop from the end, the invariant is kept, and a lookup never panics and
  finds the innermost binding at or above the frame pointer.
\<close>

theorem local_scope_refines_stack:
  assumes "locals_ok st"
  shows "locals_ok (push_local y v st) \<and> locals_abs (push_local y v st) = locals_abs st @ [(y, v)]
       \<and> locals_ok (pop_local st) \<and> locals_abs (pop_local st) = butlast (locals_abs st)
       \<and> locals_ok (truncate_locals n st) \<and> locals_abs (truncate_locals n st) = take n (locals_abs st)
       \<and> get_local st y fp = Ok (map_of (rev (drop fp (locals_abs st))) y)"
  using assms
  by (simp add: ls.push_ok ls.push_abs ls.pop_ok ls.pop_abs ls.trunc_ok ls.trunc_abs ls.look_abs)

lemma evaluator_new_locals_ok [simp]: "locals_ok (evaluator_new m)"
  by (simp add: locals_ok_def evaluator_new_def index_of_def fun_eq_iff)

theorem local_scope_refines_stack_witness:
  "get_local (push_local 3 (VInt 8) (push_local 3 (VInt 7) (evaluator_new 9))) 3 1 = Ok (Some (VInt 8))"
proof -
  have "locals_ok (push_local 3 (VInt 8) (push_local 3 (VInt 7) (evaluator_new 9)))"
    by (simp add: ls.push_ok)
  from local_scope_refines_stack [OF this, of 3 VNull 0 1] show ?thesis
    by (simp add: ls.push_abs ls.push_ok) (simp add: locals_abs_def evaluator_new_def)
qed

section \<open>Frame facts of the scope operations\<close>

lemma scope_frame [simp]:
  "global_store (push_local y v st) = global_store st"
  "instruction_count (push_local y v st) = instruction_count st"
  "max_instructions (push_local y v st) = max_instructions st"
  "eval_depth (push_local y v st) = eval_depth st"
  "accumulated_actions (push_local y v st) = accumulated_actions st"
  "undo_log (push_local y v st) = undo_log st"
  "computed_var_syms (push_local y v st) = computed_var_syms st"
  "global_store (pop_local st) = global_store st"
  "instruction_count (pop_local st) = instruction_count st"
  "max_instructions (pop_local st) = max_instructions st"
  "eval_depth (pop_local st) = eval_depth st"
  "accumulated_actions (pop_local st) = accumulated_actions st"
  "undo_log (pop_local st) = undo_log st"
  "computed_var_syms (pop_local st) = computed_var_syms st"
  "global_store (truncate_locals n st) = global_store st"
  "instruction_count (truncate_locals n st) = instruction_count st"
  "max_instructions (truncate_locals n st) = max_instructions st"
  "eval_depth (truncate_locals n st) = eval_depth st"
  "accumulated_actions (truncate_locals n st) = accumulated_actions st"
  "undo_log (truncate_locals n st) = undo_log st"
  "computed_var_syms (truncate_locals n st) = computed_var_syms st"
  by (simp_all add: push_local_def pop_local_def truncate_locals_def Let_def)

lemma locals_abs_length: "locals_ok st \<Longrightarrow> length (locals_abs st) = length (local_stack st)"
  by (simp add: locals_ok_def locals_abs_def)

text \<open>Two states with the same abstract scope and a consistent index agree on all three tables.\<close>

lemma locals_determined:
  assumes "locals_ok s" "locals_ok t" "locals_abs s = locals_abs t"
  shows "local_stack s = local_stack t \<and> local_symbols s = local_symbols t \<and> local_index s = local_index t"
proof -
  have "map fst (locals_abs s) = local_symbols s" "map snd (locals_abs s) = local_stack s"
    "map fst (locals_abs t) = local_symbols t" "map snd (locals_abs t) = local_stack t"
    using assms(1,2) by (simp_all add: locals_abs_def locals_ok_def)
  with assms show ?thesis by (metis locals_ok_def)
qed

end
