(* ===== verification/Mizu_Compare.thy ===== *)
theory Mizu_Compare
  imports Mizu_Value "HOL-Library.Multiset"
begin

text \<open>
  The ordering of values of \<^verbatim>\<open>core/types/eval/compare.rs\<close> and the standard library's
  stable \<^verbatim>\<open>sort_by\<close> the evaluator runs with it. The locale \<open>weak_order\<close> is the
  contract \<^verbatim>\<open>sort_by\<close> needs from its comparator (a total preorder); it is
  interpreted on \<open>compare_values\<close>, ascending and reversed.
\<close>

datatype ordering = Less | Equal | Greater

fun reverse_ord :: "ordering \<Rightarrow> ordering" where
  "reverse_ord Less = Greater"
| "reverse_ord Equal = Equal"
| "reverse_ord Greater = Less"

lemma reverse_ord_idem [simp]: "reverse_ord (reverse_ord r) = r"
  by (cases r) auto

definition cmp :: "'a::linorder \<Rightarrow> 'a \<Rightarrow> ordering" where
  "cmp x y = (if x < y then Less else if x = y then Equal else Greater)"

fun variant_weight :: "mval \<Rightarrow> nat" where
  "variant_weight VNull = 1"
| "variant_weight (VBool _) = 2"
| "variant_weight (VInt _) = 3"
| "variant_weight (VDecimal _) = 3"
| "variant_weight (VString _) = 4"
| "variant_weight (VList _) = 5"
| "variant_weight (VRecord _) = 6"
| "variant_weight (VFileHandle _) = 7"

text \<open>
  The loop over two slices: the first position that differs decides, and after the
  common prefix the lengths are compared.
\<close>

fun lex_cmp :: "('a \<Rightarrow> 'a \<Rightarrow> ordering) \<Rightarrow> 'a list \<Rightarrow> 'a list \<Rightarrow> ordering" where
  "lex_cmp f (x # xs) (y # ys) = (if f x y \<noteq> Equal then f x y else lex_cmp f xs ys)"
| "lex_cmp f xs ys = cmp (length xs) (length ys)"

lemma lex_cmp_cong [fundef_cong]:
  assumes "xs = xs'" "ys = ys'" "\<And>x y. x \<in> set xs' \<Longrightarrow> y \<in> set ys' \<Longrightarrow> f x y = g x y"
  shows "lex_cmp f xs ys = lex_cmp g xs' ys'"
  using assms(3) unfolding assms(1,2) by (induction f xs' ys' rule: lex_cmp.induct) auto

fun compare_some :: "mval \<Rightarrow> mval \<Rightarrow> ordering" and
    compare_field :: "record_field \<Rightarrow> record_field \<Rightarrow> ordering" where
  "compare_some VNull VNull = Equal"
| "compare_some (VBool x) (VBool y) = cmp x y"
| "compare_some (VInt x) (VInt y) = cmp x y"
| "compare_some (VDecimal x) (VDecimal y) = cmp x y"
| "compare_some (VInt x) (VDecimal y) = cmp (x * DECIMAL_SCALE) y"
| "compare_some (VDecimal x) (VInt y) = cmp x (y * DECIMAL_SCALE)"
| "compare_some (VString x) (VString y) = cmp x y"
| "compare_some (VList x) (VList y) = lex_cmp compare_some x y"
| "compare_some (VRecord x) (VRecord y) = lex_cmp compare_field x y"
| "compare_some x y = cmp (variant_weight x) (variant_weight y)"
| "compare_field (RecordField k _ v) (RecordField k' _ v') =
     (if cmp k k' \<noteq> Equal then cmp k k' else compare_some v v')"

fun compare_values :: "mval option \<Rightarrow> mval option \<Rightarrow> ordering" where
  "compare_values None None = Equal"
| "compare_values None (Some _) = Less"
| "compare_values (Some _) None = Greater"
| "compare_values (Some a) (Some b) = compare_some a b"

section \<open>Sorting with a comparator\<close>

text \<open>
  \<^verbatim>\<open>slice::sort_by\<close> is a stable sort: on a total preorder its result is determined,
  and insertion from the right computes it.
\<close>

fun insert_by :: "('a \<Rightarrow> 'a \<Rightarrow> ordering) \<Rightarrow> 'a \<Rightarrow> 'a list \<Rightarrow> 'a list" where
  "insert_by f x [] = [x]"
| "insert_by f x (y # ys) = (if f x y = Greater then y # insert_by f x ys else x # y # ys)"

definition sort_by :: "('a \<Rightarrow> 'a \<Rightarrow> ordering) \<Rightarrow> 'a list \<Rightarrow> 'a list" where
  "sort_by f xs = foldr (insert_by f) xs []"

fun resolve_dot_path :: "mval \<Rightarrow> string list \<Rightarrow> mval option" where
  "resolve_dot_path root [] = Some root"
| "resolve_dot_path root (segment # segments) =
     (case get_field root (hash_field segment) segment of
        None \<Rightarrow> None
      | Some current \<Rightarrow> resolve_dot_path current segments)"

section \<open>The contract of a comparator\<close>

text \<open>Composition of two comparisons that are both at most equal.\<close>

fun seq_ord :: "ordering \<Rightarrow> ordering \<Rightarrow> ordering" where
  "seq_ord Equal r = r"
| "seq_ord l r = l"

lemma seq_ord_Less [simp]: "l \<noteq> Greater \<Longrightarrow> seq_ord l Less = Less"
  by (cases l) auto

locale weak_order =
  fixes f :: "'a \<Rightarrow> 'a \<Rightarrow> ordering"
  assumes rev: "f y x = reverse_ord (f x y)"
    and trans: "f x y \<noteq> Greater \<Longrightarrow> f y z \<noteq> Greater \<Longrightarrow> f x z = seq_ord (f x y) (f y z)"
begin

lemma refl: "f x x = Equal"
  using rev [of x x] by (cases "f x x") auto

lemma total: "f x y \<noteq> Greater \<or> f y x \<noteq> Greater"
  using rev [of y x] by (cases "f x y") auto

lemma le_trans: "f x y \<noteq> Greater \<Longrightarrow> f y z \<noteq> Greater \<Longrightarrow> f x z \<noteq> Greater"
  using trans [of x y z] by (cases "f x y") auto

lemma set_insert_by: "set (insert_by f x ys) = insert x (set ys)"
  by (induction ys) auto

lemma mset_insert_by: "mset (insert_by f x ys) = add_mset x (mset ys)"
  by (induction ys) auto

lemma mset_sort_by: "mset (sort_by f xs) = mset xs"
  by (induction xs) (simp_all add: sort_by_def mset_insert_by)

lemma sorted_insert_by:
  "sorted_wrt (\<lambda>a b. f a b \<noteq> Greater) ys \<Longrightarrow> sorted_wrt (\<lambda>a b. f a b \<noteq> Greater) (insert_by f x ys)"
proof (induction ys)
  case (Cons y ys)
  have "f y x \<noteq> Greater" if "f x y = Greater"
    using rev [of y x] that by simp
  with Cons le_trans [of x y] show ?case by (auto simp: set_insert_by)
qed simp

lemma sorted_sort_by: "sorted_wrt (\<lambda>a b. f a b \<noteq> Greater) (sort_by f xs)"
  by (induction xs) (simp_all add: sort_by_def sorted_insert_by)

lemma filter_insert_by:
  assumes "sorted_wrt (\<lambda>a b. f a b \<noteq> Greater) ys"
  shows "filter (\<lambda>y. f z y = Equal) (insert_by f x ys) = filter (\<lambda>y. f z y = Equal) (x # ys)"
  using assms
proof (induction ys)
  case (Cons y ys)
  have "\<not> (f z x = Equal \<and> f z y = Equal)" if "f x y = Greater"
  proof
    assume e: "f z x = Equal \<and> f z y = Equal"
    then have "f x z = Equal" using rev [of x z] by simp
    with e trans [of x z y] that show False by simp
  qed
  with Cons show ?case by auto
qed simp

lemma stable_sort_by: "filter (\<lambda>y. f z y = Equal) (sort_by f xs) = filter (\<lambda>y. f z y = Equal) xs"
  by (induction xs) (use sorted_sort_by in \<open>simp_all add: sort_by_def filter_insert_by\<close>)

lemma reversed: "weak_order (\<lambda>x y. reverse_ord (f x y))"
proof
  show "reverse_ord (f y x) = reverse_ord (reverse_ord (f x y))" for x y
    using rev [of x y] by simp
  show "reverse_ord (f x z) = seq_ord (reverse_ord (f x y)) (reverse_ord (f y z))"
    if "reverse_ord (f x y) \<noteq> Greater" "reverse_ord (f y z) \<noteq> Greater" for x y z
    using that rev [of y x] rev [of z y] rev [of z x] trans [of z y x]
    by (cases "f x y"; cases "f y z") auto
qed

lemma on_key: "weak_order (\<lambda>x y. f (k x) (k y))"
  by (unfold_locales) (rule rev, erule (1) trans)

end

section \<open>Values are weakly ordered\<close>

lemma cmp_simps [simp]:
  "cmp x y = Equal \<longleftrightarrow> x = y" "cmp x y = Less \<longleftrightarrow> x < y" "cmp x y = Greater \<longleftrightarrow> y < x"
  by (auto simp: cmp_def)

lemma cmp_rev: "cmp y x = reverse_ord (cmp x y)"
  by (auto simp: cmp_def)

lemma cmp_trans: "cmp x y \<noteq> Greater \<Longrightarrow> cmp y z \<noteq> Greater \<Longrightarrow> cmp x z = seq_ord (cmp x y) (cmp y z)"
  by (auto simp: cmp_def split: if_splits)

lemma cmp_scale: "cmp (x * DECIMAL_SCALE) (y * DECIMAL_SCALE) = cmp x y"
  by (simp add: cmp_def DECIMAL_SCALE_def)

lemma lex_cmp_rev:
  assumes "\<And>x y. x \<in> set xs \<Longrightarrow> y \<in> set ys \<Longrightarrow> f y x = reverse_ord (f x y)"
  shows "lex_cmp f ys xs = reverse_ord (lex_cmp f xs ys)"
  using assms
proof (induction f xs ys rule: lex_cmp.induct)
  case (1 f x xs y ys)
  then have "f y x = reverse_ord (f x y)" by simp
  with 1 show ?case by (cases "f x y") auto
qed (auto simp: cmp_def)

lemma lex_cmp_trans:
  assumes "\<And>x y z. x \<in> set xs \<Longrightarrow> f x y \<noteq> Greater \<Longrightarrow> f y z \<noteq> Greater \<Longrightarrow> f x z = seq_ord (f x y) (f y z)"
    and "lex_cmp f xs ys \<noteq> Greater" "lex_cmp f ys zs \<noteq> Greater"
  shows "lex_cmp f xs zs = seq_ord (lex_cmp f xs ys) (lex_cmp f ys zs)"
  using assms
proof (induction xs arbitrary: ys zs)
  case Nil
  then show ?case by (cases ys; cases zs) (auto simp: cmp_def split: if_splits)
next
  case (Cons x xs)
  show ?case
  proof (cases ys)
    case Nil
    with Cons.prems show ?thesis by (simp add: cmp_def)
  next
    case ys: (Cons y ys')
    show ?thesis
    proof (cases zs)
      case Nil
      with Cons.prems ys show ?thesis by (simp add: cmp_def)
    next
      case zs: (Cons z zs')
      have "f x y \<noteq> Greater" "f y z \<noteq> Greater"
        using Cons.prems(2,3) by (auto simp: ys zs split: if_splits)
      then have "f x z = seq_ord (f x y) (f y z)"
        using Cons.prems(1) by simp
      then show ?thesis
        using Cons.prems(2,3) Cons.IH [OF Cons.prems(1), of ys' zs']
        by (cases "f x y"; cases "f y z") (simp_all add: ys zs)
    qed
  qed
qed

lemma compare_rev:
  "compare_some b a = reverse_ord (compare_some a b)"
  "compare_field g f = reverse_ord (compare_field f g)"
proof (induction a and f arbitrary: b and g)
  case (VList xs)
  then show ?case by (cases b) (auto simp: cmp_def intro: lex_cmp_rev)
next
  case (VRecord fs)
  then show ?case by (cases b) (auto simp: cmp_def intro: lex_cmp_rev)
next
  case (RecordField k h v)
  then show ?case using cmp_rev [of "rf_key g" k] by (cases g) (auto simp: cmp_def)
next
  case VNull
  show ?case by (cases b) (auto simp: cmp_def)
next
  case (VBool x)
  show ?case by (cases b) (auto simp: cmp_def)
next
  case (VInt x)
  show ?case by (cases b) (auto simp: cmp_def)
next
  case (VDecimal x)
  show ?case by (cases b) (auto simp: cmp_def)
next
  case (VString x)
  show ?case by (cases b) (auto simp: cmp_def)
next
  case (VFileHandle x)
  show ?case by (cases b) (auto simp: cmp_def)
qed

lemma compare_trans:
  "compare_some a b \<noteq> Greater \<Longrightarrow> compare_some b c \<noteq> Greater \<Longrightarrow>
     compare_some a c = seq_ord (compare_some a b) (compare_some b c)"
  "compare_field f g \<noteq> Greater \<Longrightarrow> compare_field g h \<noteq> Greater \<Longrightarrow>
     compare_field f h = seq_ord (compare_field f g) (compare_field g h)"
proof (induction a and f arbitrary: b c and g h)
  case (VList xs)
  show ?case
  proof (cases "\<exists>ys zs. b = VList ys \<and> c = VList zs")
    case True
    with VList show ?thesis by (auto intro!: lex_cmp_trans)
  next
    case False
    with VList.prems show ?thesis by (cases b; cases c) (auto simp: cmp_def split: if_splits)
  qed
next
  case (VRecord fs)
  show ?case
  proof (cases "\<exists>ys zs. b = VRecord ys \<and> c = VRecord zs")
    case True
    with VRecord show ?thesis by (auto intro!: lex_cmp_trans)
  next
    case False
    with VRecord.prems show ?thesis by (cases b; cases c) (auto simp: cmp_def split: if_splits)
  qed
next
  case (RecordField k w v)
  show ?case
    using RecordField.prems RecordField.IH [of "rf_value g" "rf_value h"]
    by (cases g; cases h) (auto simp: cmp_def split: if_splits)
next
  case (VInt i)
  then show ?case
    by (cases b; cases c) (auto simp: cmp_def DECIMAL_SCALE_def split: if_splits)
next
  case (VDecimal i)
  then show ?case
    by (cases b; cases c) (auto simp: cmp_def DECIMAL_SCALE_def split: if_splits)
next
  case VNull
  then show ?case by (cases b; cases c) (auto simp: cmp_def split: if_splits)
next
  case (VBool x)
  then show ?case by (cases b; cases c) (auto simp: cmp_def split: if_splits)
next
  case (VString s)
  then show ?case by (cases b; cases c) (auto simp: cmp_def split: if_splits)
next
  case (VFileHandle x)
  then show ?case by (cases b; cases c) (auto simp: cmp_def split: if_splits)
qed

interpretation cv: weak_order compare_values
proof
  show "compare_values y x = reverse_ord (compare_values x y)" for x y
    by (cases x; cases y) (simp_all, rule compare_rev(1))
  show "compare_values x z = seq_ord (compare_values x y) (compare_values y z)"
    if "compare_values x y \<noteq> Greater" "compare_values y z \<noteq> Greater" for x y z
    using that compare_trans(1) [of "the x" "the y" "the z"] by (cases x; cases y; cases z) auto
qed

end
