(* ===== verification/Mizu_Evaluate.thy ===== *)
theory Mizu_Evaluate
  imports Mizu_Evaluator Mizu_Compare
begin

text \<open>
  The expression evaluator of \<^verbatim>\<open>core/types/eval/evaluate.rs\<close>. Each built-in function is
  a definition of its own over the recursive call \<open>eva\<close>; \<open>evaluate_impl\<close> dispatches on
  the node, and \<open>evaluate_fuel\<close> ties the knot.

  An arena may be cyclic (a rebuilt one is only checked for dangling references) and
  the function table may be recursive, so the recursion of the model takes fuel. The
  depth limit of the source makes \<open>MAX_EVAL_DEPTH + 1\<close> levels enough, which is what
  \<open>evaluate\<close> supplies; the theory \<open>Mizu_Evaluate_Props\<close> proves that it never runs out.

  \<^verbatim>\<open>instruction_count += 1\<close> on a full \<^verbatim>\<open>u64\<close> panics in a checked build; the model
  makes that a panic too, and the budget theorem shows it does not happen.
\<close>

record eval_ctx =
  ctx_functions :: "symbol \<rightharpoonup> mizu_function"
  ctx_interner :: string_interner
  ctx_ptr_eq :: "mval \<Rightarrow> mval \<Rightarrow> bool"

type_synonym 'a ecomput = "(evaluator, 'a) comput"

definition resolve_or :: "string \<Rightarrow> eval_ctx \<Rightarrow> symbol \<Rightarrow> string" where
  "resolve_or dflt ctx y = (case resolve (ctx_interner ctx) y of Some n \<Rightarrow> n | None \<Rightarrow> dflt)"

text \<open>\<^verbatim>\<open>as i64\<close> of a length: the low 64 bits read as two's complement.\<close>

definition as_i64 :: "nat \<Rightarrow> int" where
  "as_i64 n = (int n + 2 ^ 63) mod 2 ^ 64 - 2 ^ 63"

section \<open>Pieces shared by the built-ins\<close>

definition as_list :: "mval \<Rightarrow> mval list outcome" where
  "as_list v = (case v of VList l \<Rightarrow> Ok l | _ \<Rightarrow> Err (TypeError ''list'' (type_name v)))"

definition as_string :: "mval \<Rightarrow> string outcome" where
  "as_string v = (case v of VString s \<Rightarrow> Ok s | _ \<Rightarrow> Err (TypeError ''string'' (type_name v)))"

definition charge :: "nat \<Rightarrow> unit ecomput" where
  "charge n = modS (\<lambda>st. st\<lparr>instruction_count := sat_add (instruction_count st) n\<rparr>)"

definition check_budget :: "unit ecomput" where
  "check_budget =
     (\<lambda>st. if instruction_count st > max_instructions st then (Err Timeout, st) else (Ok (), st))"

definition queue_action :: "runtime_action \<Rightarrow> unit ecomput" where
  "queue_action a = modS (\<lambda>st. st\<lparr>accumulated_actions := accumulated_actions st @ [a]\<rparr>)"

section \<open>Effectful built-ins\<close>

definition copy_to_clipboard :: "(expr_id \<Rightarrow> mval ecomput) \<Rightarrow> expr_id list \<Rightarrow> mval ecomput" where
  "copy_to_clipboard eva args =
     (if length args \<noteq> 1 then errS (ExecutionError ''copy_to_clipboard expects 1 argument'')
      else bindS (eva (args ! 0)) (\<lambda>v. case v of
             VString s \<Rightarrow> bindS (queue_action (RCopyToClipboard s)) (\<lambda>_. okS (VBool True))
           | _ \<Rightarrow> errS (ExecutionError ''copy_to_clipboard argument must be a node id string'')))"

definition bare_variable :: "expr_arena \<Rightarrow> expr_id list \<Rightarrow> symbol option outcome" where
  "bare_variable ar args =
     (case args of
        [i] \<Rightarrow> bindO (arena_get ar i) (\<lambda>e. case e of EVariable y \<Rightarrow> Ok (Some y) | _ \<Rightarrow> Ok None)
      | _ \<Rightarrow> Ok None)"

definition get_system_time :: "expr_arena \<Rightarrow> expr_id list \<Rightarrow> mval ecomput" where
  "get_system_time ar args =
     bindS (liftS (bare_variable ar args)) (\<lambda>r. case r of
       None \<Rightarrow> errS (ExecutionError ''get_system_time expects a single bare variable identifier, e.g. get_system_time(my_var)'')
     | Some target_variable \<Rightarrow>
         bindS (getS (\<lambda>st. target_variable \<in> computed_var_syms st)) (\<lambda>is_comp.
           if is_comp then errS (ExecutionError ''get_system_time cannot target a computed variable'')
           else bindS (queue_action (RGetSystemTime target_variable)) (\<lambda>_. okS (VBool True))))"

definition store_local :: "(expr_id \<Rightarrow> mval ecomput) \<Rightarrow> expr_id list \<Rightarrow> mval ecomput" where
  "store_local eva args =
     (if length args \<noteq> 2 then errS (ExecutionError ''store_local expects 2 arguments: (key, value)'')
      else bindS (eva (args ! 0)) (\<lambda>key_val. case key_val of
             VString key_str \<Rightarrow>
               bindS (eva (args ! 1)) (\<lambda>v.
               bindS (queue_action (RStoreLocal key_str v)) (\<lambda>_. okS (VBool True)))
           | _ \<Rightarrow> errS (ExecutionError ''store_local key must be a string'')))"

definition download :: "expr_arena \<Rightarrow> expr_id list \<Rightarrow> mval ecomput" where
  "download ar args =
     bindS (liftS (bare_variable ar args)) (\<lambda>r. case r of
       None \<Rightarrow> errS (ExecutionError ''download: alias must be a bare identifier, e.g. download(backup)'')
     | Some alias_sym \<Rightarrow> bindS (queue_action (RDownloadAlias alias_sym)) (\<lambda>_. okS VNull))"

section \<open>List built-ins\<close>

definition filter_op :: "string \<Rightarrow> binop option outcome" where
  "filter_op op =
     (if op = ''eq'' then Ok (Some Eq)
      else if op = ''ne'' then Ok (Some Ne)
      else if op = ''lt'' then Ok (Some Lt)
      else if op = ''le'' then Ok (Some Le)
      else if op = ''gt'' then Ok (Some Gt)
      else if op = ''ge'' then Ok (Some Ge)
      else if op = ''contains'' then Ok None
      else Err (ExecutionError (''filter: unknown operator `'' @ op @
             ''` '' @ em_dash @ '' expected one of eq, ne, lt, le, gt, ge, contains'')))"

text \<open>Whether one element is kept; \<open>ic\<close> is the loop's copy of the instruction count.\<close>

definition filter_include ::
  "binop option \<Rightarrow> mval \<Rightarrow> mval \<Rightarrow> nat \<Rightarrow> nat \<Rightarrow> bool outcome \<times> nat" where
  "filter_include bop field_v target ic mx =
     (case bop of
        Some op \<Rightarrow>
          (case apply_binop op field_v target ic mx of
             (Ok (VBool b), ic') \<Rightarrow> (Ok b, ic')
           | (Ok _, ic') \<Rightarrow> (Ok False, ic')
           | (Fail (Error (TypeError _ _)), ic') \<Rightarrow> (Ok False, ic')
           | (Fail e, ic') \<Rightarrow> (Fail e, ic'))
      | None \<Rightarrow>
          (case (field_v, target) of
             (VString h, VString n) \<Rightarrow> (Ok (str_contains h n), ic)
           | _ \<Rightarrow> (Ok False, ic)))"

fun filter_loop ::
  "binop option \<Rightarrow> string \<Rightarrow> mval \<Rightarrow> nat \<Rightarrow> mval list \<Rightarrow> nat \<Rightarrow> mval list outcome \<times> nat" where
  "filter_loop bop field target mx [] ic = (Ok [], ic)"
| "filter_loop bop field target mx (item # items) ic =
     (case get_field item (hash_field field) field of
        None \<Rightarrow> filter_loop bop field target mx items ic
      | Some field_v \<Rightarrow>
          (case filter_include bop field_v target ic mx of
             (Fail e, ic') \<Rightarrow> (Fail e, ic')
           | (Ok keep, ic') \<Rightarrow>
               (case filter_loop bop field target mx items ic' of
                  (Ok rest, ic'') \<Rightarrow> (Ok (if keep then item # rest else rest), ic'')
                | (Fail e, ic'') \<Rightarrow> (Fail e, ic''))))"

definition contains_extra :: "string \<Rightarrow> mval list \<Rightarrow> nat" where
  "contains_extra field items =
     (\<Sum>item\<leftarrow>items. case get_field item (hash_field field) field of
        Some (VString s) \<Rightarrow> length s
      | _ \<Rightarrow> 0)"

definition builtin_filter :: "(expr_id \<Rightarrow> mval ecomput) \<Rightarrow> expr_id list \<Rightarrow> mval ecomput" where
  "builtin_filter eva args =
     bindS (eva (args ! 0)) (\<lambda>list_val.
     bindS (eva (args ! 1)) (\<lambda>field_val.
     bindS (eva (args ! 2)) (\<lambda>op_val.
     bindS (eva (args ! 3)) (\<lambda>target.
     bindS (liftS (as_list list_val)) (\<lambda>items.
     bindS (liftS (as_string field_val)) (\<lambda>field.
     bindS (liftS (as_string op_val)) (\<lambda>op.
     bindS (charge (length items)) (\<lambda>_.
     bindS (if op = ''contains'' then charge (contains_extra field items) else okS ()) (\<lambda>_.
     bindS check_budget (\<lambda>_.
     bindS (liftS (filter_op op)) (\<lambda>bop.
     (\<lambda>st. case filter_loop bop field target (max_instructions st) items (instruction_count st) of
        (Ok filtered, ic) \<Rightarrow> (Ok (VList filtered), st\<lparr>instruction_count := ic\<rparr>)
      | (Fail e, _) \<Rightarrow> (Fail e, st)))))))))))))"

fun count_loop :: "eval_ctx \<Rightarrow> string \<Rightarrow> mval \<Rightarrow> mval list \<Rightarrow> nat \<Rightarrow> nat ecomput" where
  "count_loop ctx field target [] n = okS n"
| "count_loop ctx field target (item # items) n =
     (case get_field item (hash_field field) field of
        None \<Rightarrow> count_loop ctx field target items n
      | Some v \<Rightarrow>
          bindS (\<lambda>st. case budget_eq (ctx_ptr_eq ctx) v target (instruction_count st) (max_instructions st) of
                   (r, ic) \<Rightarrow> (r, st\<lparr>instruction_count := ic\<rparr>)) (\<lambda>same.
          count_loop ctx field target items (if same then Suc n else n)))"

definition builtin_count :: "eval_ctx \<Rightarrow> (expr_id \<Rightarrow> mval ecomput) \<Rightarrow> expr_id list \<Rightarrow> mval ecomput" where
  "builtin_count ctx eva args =
     bindS (eva (args ! 0)) (\<lambda>list_val.
     bindS (eva (args ! 1)) (\<lambda>field_val.
     bindS (eva (args ! 2)) (\<lambda>target.
     bindS (liftS (as_list list_val)) (\<lambda>items.
     bindS (charge (length items)) (\<lambda>_.
     bindS check_budget (\<lambda>_.
     bindS (liftS (as_string field_val)) (\<lambda>field.
     bindS (count_loop ctx field target items 0) (\<lambda>n. okS (VInt (as_i64 n))))))))))"

fun sort_key_ok :: "mval option \<Rightarrow> bool" where
  "sort_key_ok (Some (VList _)) = False"
| "sort_key_ok (Some (VRecord _)) = False"
| "sort_key_ok (Some (VFileHandle _)) = False"
| "sort_key_ok _ = True"

definition sort_items :: "string \<Rightarrow> bool \<Rightarrow> mval list \<Rightarrow> mval list outcome" where
  "sort_items field desc items =
     (let paired = map (\<lambda>item. (get_field item (hash_field field) field, item)) items
      in if list_all (\<lambda>p. sort_key_ok (fst p)) paired
         then Ok (map snd (sort_by (\<lambda>a b. let ord = compare_values (fst a) (fst b)
                                          in if desc then reverse_ord ord else ord) paired))
         else Err (ExecutionError ''sort: cannot sort on complex nested fields (List/Record)''))"

definition builtin_sort :: "(expr_id \<Rightarrow> mval ecomput) \<Rightarrow> expr_id list \<Rightarrow> mval ecomput" where
  "builtin_sort eva args =
     bindS (eva (args ! 0)) (\<lambda>list_val.
     bindS (eva (args ! 1)) (\<lambda>field_val.
     bindS (eva (args ! 2)) (\<lambda>direction_val.
     bindS (liftS (as_list list_val)) (\<lambda>items.
     bindS (charge (sat_mul (length items) (bit_length (length items)))) (\<lambda>_.
     bindS check_budget (\<lambda>_.
     bindS (liftS (as_string field_val)) (\<lambda>field.
     bindS (liftS (as_string direction_val)) (\<lambda>direction.
     if direction \<noteq> ''asc'' \<and> direction \<noteq> ''desc''
     then errS (ExecutionError (''sort: direction must be `asc` or `desc`, got `'' @ direction @ ''`''))
     else bindS (liftS (sort_items field (direction = ''desc'') items)) (\<lambda>sorted_items.
          okS (VList sorted_items))))))))))"

section \<open>Scalar built-ins\<close>

definition builtin_length :: "(expr_id \<Rightarrow> mval ecomput) \<Rightarrow> expr_id list \<Rightarrow> mval ecomput" where
  "builtin_length eva args =
     bindS (eva (args ! 0)) (\<lambda>v. case v of
       VList l \<Rightarrow> okS (VInt (as_i64 (length l)))
     | VString s \<Rightarrow>
         (\<lambda>st. if sat_add (instruction_count st) (length s) > max_instructions st then (Err Timeout, st)
               else (Ok (VInt (as_i64 (char_count s))),
                     st\<lparr>instruction_count := sat_add (instruction_count st) (char_count s)\<rparr>))
     | _ \<Rightarrow> errS (TypeError ''list or string'' (type_name v)))"

definition builtin_to_string :: "(expr_id \<Rightarrow> mval ecomput) \<Rightarrow> expr_id list \<Rightarrow> mval ecomput" where
  "builtin_to_string eva args =
     bindS (eva (args ! 0)) (\<lambda>v. case v of
       VInt _ \<Rightarrow> okS (VString (display v))
     | VDecimal _ \<Rightarrow> okS (VString (display v))
     | VBool _ \<Rightarrow> okS (VString (display v))
     | _ \<Rightarrow> errS (TypeError ''num or bool'' (type_name v)))"

definition builtin_contains :: "(expr_id \<Rightarrow> mval ecomput) \<Rightarrow> expr_id list \<Rightarrow> mval ecomput" where
  "builtin_contains eva args =
     bindS (eva (args ! 0)) (\<lambda>haystack_val.
     bindS (eva (args ! 1)) (\<lambda>needle_val.
     bindS (liftS (as_string haystack_val)) (\<lambda>haystack.
     bindS (liftS (as_string needle_val)) (\<lambda>needle.
     bindS (charge (length haystack)) (\<lambda>_.
     bindS check_budget (\<lambda>_. okS (VBool (str_contains haystack needle))))))))"

definition builtin_has_field :: "(expr_id \<Rightarrow> mval ecomput) \<Rightarrow> expr_id list \<Rightarrow> mval ecomput" where
  "builtin_has_field eva args =
     bindS (eva (args ! 0)) (\<lambda>record_val.
     bindS (eva (args ! 1)) (\<lambda>name_val. case record_val of
       VRecord _ \<Rightarrow>
         bindS (liftS (as_string name_val)) (\<lambda>name.
           okS (VBool (get_field record_val (hash_field name) name \<noteq> None)))
     | _ \<Rightarrow> errS (TypeError ''record'' (type_name record_val))))"

section \<open>Calls of logic functions\<close>

text \<open>
  Binding the parameters: each argument is checked against its annotation and pushed.
  A failing check returns at once, with the parameters before it already pushed.
\<close>

fun bind_params :: "((symbol \<times> value_type) \<times> mval) list \<Rightarrow> unit ecomput" where
  "bind_params [] = okS ()"
| "bind_params (((param_sym, expected_type), arg_val) # ps) =
     bindS (liftS (check_type arg_val expected_type)) (\<lambda>_.
     bindS (modS (push_local param_sym arg_val)) (\<lambda>_. bind_params ps))"

definition call_function ::
  "(expr \<Rightarrow> nat \<Rightarrow> expr_arena \<Rightarrow> mval ecomput) \<Rightarrow> eval_ctx \<Rightarrow> (expr_id \<Rightarrow> mval ecomput) \<Rightarrow>
   symbol \<Rightarrow> expr_id list \<Rightarrow> mval ecomput" where
  "call_function ev ctx eva y args =
     (case ctx_functions ctx y of
        None \<Rightarrow> errS (ParseError (''call to undefined function `'' @ resolve_or ''<unknown>'' ctx y @ ''`''))
      | Some func \<Rightarrow>
          if length args \<noteq> length (fn_params func)
          then errS (ParseError (''function `'' @ resolve_or ''<unknown>'' ctx y @ ''` expects ''
                 @ show_nat (length (fn_params func)) @ '' argument(s), got '' @ show_nat (length args)))
          else bindS (mapS eva args) (\<lambda>evaluated_args.
               bindS (getS (\<lambda>st. length (local_stack st))) (\<lambda>new_fp.
               bindS (bind_params (zip (fn_params func) evaluated_args)) (\<lambda>_.
               bindS (liftS (root_expr (fn_body func))) (\<lambda>body.
               finallyS (ev body new_fp (tree_arena (fn_body func))) (truncate_locals new_fp))))))"

definition eval_call ::
  "(expr \<Rightarrow> nat \<Rightarrow> expr_arena \<Rightarrow> mval ecomput) \<Rightarrow> eval_ctx \<Rightarrow> (expr_id \<Rightarrow> mval ecomput) \<Rightarrow>
   expr_arena \<Rightarrow> symbol \<Rightarrow> expr_id list \<Rightarrow> mval ecomput" where
  "eval_call ev ctx eva ar y args =
     (let name = resolve_or ''<unknown>'' ctx y; n = length args in
      if name = ''copy_to_clipboard'' then copy_to_clipboard eva args
      else if name = ''get_system_time'' then get_system_time ar args
      else if name = ''store_local'' then store_local eva args
      else if name = ''filter'' \<and> n = 4 then builtin_filter eva args
      else if name = ''count'' \<and> n = 3 then builtin_count ctx eva args
      else if name = ''download'' \<and> n = 1 then download ar args
      else if name = ''sort'' \<and> n = 3 then builtin_sort eva args
      else if name = ''length'' \<and> n = 1 then builtin_length eva args
      else if name = ''to_string'' \<and> n = 1 then builtin_to_string eva args
      else if name = ''contains'' \<and> n = 2 then builtin_contains eva args
      else if name = ''has_field'' \<and> n = 2 then builtin_has_field eva args
      else call_function ev ctx eva y args)"

section \<open>Nodes\<close>

definition eval_variable :: "eval_ctx \<Rightarrow> symbol \<Rightarrow> nat \<Rightarrow> mval ecomput" where
  "eval_variable ctx y fp =
     (\<lambda>st. case get_local st y fp of
        Fail e \<Rightarrow> (Fail e, st)
      | Ok (Some v) \<Rightarrow> (Ok v, st)
      | Ok None \<Rightarrow>
          if get_global st y \<noteq> VNull then (Ok (get_global st y), st)
          else (Err (VariableNotFound (resolve_or ''<unknown>'' ctx y)), st))"

definition eval_binop ::
  "(expr_id \<Rightarrow> mval ecomput) \<Rightarrow> binop \<Rightarrow> expr_id \<Rightarrow> expr_id \<Rightarrow> mval ecomput" where
  "eval_binop eva op left right =
     bindS (eva left) (\<lambda>lv.
     bindS (eva right) (\<lambda>rv.
     (\<lambda>st. case apply_binop op lv rv (instruction_count st) (max_instructions st) of
        (r, ic) \<Rightarrow> (r, st\<lparr>instruction_count := ic\<rparr>))))"

definition eval_let ::
  "(expr_id \<Rightarrow> mval ecomput) \<Rightarrow> symbol \<Rightarrow> expr_id \<Rightarrow> expr_id \<Rightarrow> mval ecomput" where
  "eval_let eva y v body =
     bindS (eva v) (\<lambda>bound_val.
     bindS (modS (push_local y bound_val)) (\<lambda>_. finallyS (eva body) pop_local))"

definition eval_field ::
  "eval_ctx \<Rightarrow> (expr_id \<Rightarrow> mval ecomput) \<Rightarrow> expr_id \<Rightarrow> symbol \<Rightarrow> u32 \<Rightarrow> mval ecomput" where
  "eval_field ctx eva base field field_hash =
     bindS (eva base) (\<lambda>base_val. case base_val of
       VRecord _ \<Rightarrow>
         liftS (ok_or (get_field base_val field_hash (resolve_or '''' ctx field))
                  (VariableNotFound (resolve_or '''' ctx field)))
     | _ \<Rightarrow> errS (TypeError ''record'' (type_name base_val)))"

definition eval_if ::
  "(expr_id \<Rightarrow> mval ecomput) \<Rightarrow> expr_id \<Rightarrow> expr_id \<Rightarrow> expr_id \<Rightarrow> mval ecomput" where
  "eval_if eva condition then_expr else_expr =
     bindS (eva condition) (\<lambda>c. case c of
       VBool b \<Rightarrow> if b then eva then_expr else eva else_expr
     | _ \<Rightarrow> errS (TypeError ''bool'' (type_name c)))"

definition eval_not :: "(expr_id \<Rightarrow> mval ecomput) \<Rightarrow> expr_id \<Rightarrow> mval ecomput" where
  "eval_not eva inner =
     bindS (eva inner) (\<lambda>v. case v of
       VBool b \<Rightarrow> okS (VBool (\<not> b))
     | _ \<Rightarrow> errS (TypeError ''bool'' (type_name v)))"

definition evaluate_impl ::
  "(expr \<Rightarrow> nat \<Rightarrow> expr_arena \<Rightarrow> mval ecomput) \<Rightarrow> eval_ctx \<Rightarrow> expr \<Rightarrow> nat \<Rightarrow> expr_arena \<Rightarrow> mval ecomput" where
  "evaluate_impl ev ctx e fp ar =
     (let eva = (\<lambda>i. bindS (liftS (arena_get ar i)) (\<lambda>e'. ev e' fp ar)) in
      case e of
        ELiteral v \<Rightarrow> okS v
      | EVariable y \<Rightarrow> eval_variable ctx y fp
      | EBinaryOp left op right \<Rightarrow> eval_binop eva op left right
      | EFunctionCall y args_start args_len \<Rightarrow>
          bindS (liftS (arena_args ar args_start args_len)) (\<lambda>args. eval_call ev ctx eva ar y args)
      | ELet y v body \<Rightarrow> eval_let eva y v body
      | ENot inner \<Rightarrow> eval_not eva inner
      | EIfElse condition then_expr else_expr \<Rightarrow> eval_if eva condition then_expr else_expr
      | EFieldAccess base field field_hash \<Rightarrow> eval_field ctx eva base field field_hash)"

section \<open>The recursion\<close>

definition enter_eval :: "mval ecomput \<Rightarrow> mval ecomput" where
  "enter_eval body =
     (\<lambda>st. if instruction_count st \<ge> u64_max then (Fail Panic, st)
           else let st1 = st\<lparr>instruction_count := instruction_count st + 1\<rparr>
           in if instruction_count st1 > max_instructions st1 then (Err Timeout, st1)
           else let st2 = st1\<lparr>eval_depth := eval_depth st1 + 1\<rparr>
           in if eval_depth st2 > MAX_EVAL_DEPTH
              then (Err (ExecutionError ''evaluation nesting too deep (max 256 levels)''),
                    st2\<lparr>eval_depth := eval_depth st2 - 1\<rparr>)
              else finallyS body (\<lambda>s. s\<lparr>eval_depth := eval_depth s - 1\<rparr>) st2)"

primrec evaluate_fuel :: "nat \<Rightarrow> eval_ctx \<Rightarrow> expr \<Rightarrow> nat \<Rightarrow> expr_arena \<Rightarrow> mval ecomput" where
  "evaluate_fuel 0 ctx e fp ar = failS OutOfFuel"
| "evaluate_fuel (Suc n) ctx e fp ar = enter_eval (evaluate_impl (evaluate_fuel n ctx) ctx e fp ar)"

definition evaluate :: "eval_ctx \<Rightarrow> expr \<Rightarrow> nat \<Rightarrow> expr_arena \<Rightarrow> mval ecomput" where
  "evaluate ctx = evaluate_fuel (Suc MAX_EVAL_DEPTH) ctx"

text \<open>\<^verbatim>\<open>evaluate(tree.root(), fp, .., &tree.arena)\<close>, as every caller of the evaluator writes it.\<close>

definition evaluate_tree :: "eval_ctx \<Rightarrow> expr_tree \<Rightarrow> nat \<Rightarrow> mval ecomput" where
  "evaluate_tree ctx t fp =
     bindS (liftS (root_expr t)) (\<lambda>e. evaluate ctx e fp (tree_arena t))"

end
