(* ===== verification/Mizu_Evaluate_Props.thy ===== *)
theory Mizu_Evaluate_Props
  imports Mizu_Evaluate
begin

text \<open>
  What the evaluator promises. The locale \<open>evaluator_contract\<close> is the contract of the
  recursive call: from a state in which the scope tables agree, the budget is not
  spent and every value is well formed, evaluating a well-formed node returns a
  well-formed value in such a state again with the same scope, or an error of the
  source; it never panics, never runs out of fuel, and never touches the globals.
  Inside the locale every built-in and every node is shown to keep the contract;
  \<open>evaluate_fuel\<close> is then an interpretation, by induction on the fuel.
\<close>

section \<open>States and programs\<close>

definition frame_rel :: "evaluator \<Rightarrow> evaluator \<Rightarrow> bool" where
  "frame_rel s0 s \<longleftrightarrow>
     global_store s = global_store s0 \<and> undo_log s = undo_log s0 \<and>
     computed_var_syms s = computed_var_syms s0 \<and> max_instructions s = max_instructions s0 \<and>
     eval_depth s = eval_depth s0 \<and> prefix (accumulated_actions s0) (accumulated_actions s) \<and>
     instruction_count s0 \<le> instruction_count s \<and> instruction_count s \<le> u64_max"

definition vals_ok :: "evaluator \<Rightarrow> bool" where
  "vals_ok s \<longleftrightarrow> (\<forall>y v. global_store s y = Some v \<longrightarrow> value_ok v) \<and> list_all value_ok (local_stack s)"

definition state_ok :: "evaluator \<Rightarrow> bool" where
  "state_ok s \<longleftrightarrow> locals_ok s \<and> vals_ok s \<and> instruction_count s \<le> max_instructions s
     \<and> max_instructions s < u64_max"

text \<open>The relation after a charge that has not been checked yet, after success, and after failure.\<close>

definition mid_rel :: "evaluator \<Rightarrow> evaluator \<Rightarrow> bool" where
  "mid_rel s0 s \<longleftrightarrow> locals_ok s \<and> vals_ok s \<and> max_instructions s < u64_max
     \<and> frame_rel s0 s \<and> locals_abs s = locals_abs s0"

definition ok_rel :: "evaluator \<Rightarrow> evaluator \<Rightarrow> bool" where
  "ok_rel s0 s \<longleftrightarrow> mid_rel s0 s \<and> instruction_count s \<le> max_instructions s"

definition fail_rel :: "evaluator \<Rightarrow> evaluator \<Rightarrow> bool" where
  "fail_rel s0 s \<longleftrightarrow> locals_ok s \<and> vals_ok s \<and> frame_rel s0 s \<and> prefix (locals_abs s0) (locals_abs s)"

definition clean :: "fault \<Rightarrow> bool" where
  "clean e \<longleftrightarrow> (\<exists>err. e = Error err)"

fun lit_ok :: "expr \<Rightarrow> bool" where
  "lit_ok (ELiteral v) = value_ok v"
| "lit_ok _ = True"

definition arena_wf :: "expr_arena \<Rightarrow> bool" where
  "arena_wf ar \<longleftrightarrow> arena_ok ar \<and> list_all lit_ok (nodes ar)"

definition expr_wf :: "expr_arena \<Rightarrow> expr \<Rightarrow> bool" where
  "expr_wf ar e \<longleftrightarrow> node_ok ar e \<and> lit_ok e"

definition tree_wf :: "expr_tree \<Rightarrow> bool" where
  "tree_wf t \<longleftrightarrow> arena_wf (tree_arena t) \<and> tree_root t < length (nodes (tree_arena t))"

definition ctx_wf :: "eval_ctx \<Rightarrow> bool" where
  "ctx_wf ctx \<longleftrightarrow> (\<forall>y f. ctx_functions ctx y = Some f \<longrightarrow> tree_wf (fn_body f))"

lemma clean_simps [simp]: "clean (Error e)" "\<not> clean Panic" "\<not> clean OutOfFuel"
  by (simp_all add: clean_def)

lemma clean_binop: "e \<in> binop_faults \<Longrightarrow> clean e"
  by (auto simp: binop_faults_def)

lemma frame_trans: "frame_rel a b \<Longrightarrow> frame_rel b c \<Longrightarrow> frame_rel a c"
  by (auto simp: frame_rel_def intro: prefix_order.trans)

lemma ok_rel_refl: "state_ok s \<Longrightarrow> ok_rel s s"
  by (simp add: ok_rel_def mid_rel_def frame_rel_def state_ok_def)

lemma ok_rel_state: "ok_rel s0 s \<Longrightarrow> state_ok s"
  by (simp add: ok_rel_def mid_rel_def state_ok_def)

lemma ok_rel_trans: "ok_rel a b \<Longrightarrow> ok_rel b c \<Longrightarrow> ok_rel a c"
  by (auto simp: ok_rel_def mid_rel_def intro: frame_trans)

lemma ok_rel_depth: "ok_rel s0 s \<Longrightarrow> eval_depth s = eval_depth s0"
  by (simp add: ok_rel_def mid_rel_def frame_rel_def)

lemma ok_fail: "ok_rel a b \<Longrightarrow> fail_rel b c \<Longrightarrow> fail_rel a c"
  by (auto simp: ok_rel_def mid_rel_def fail_rel_def intro: frame_trans)

lemma mid_fail: "mid_rel a b \<Longrightarrow> fail_rel a b"
  by (simp add: mid_rel_def fail_rel_def)

lemma ok_mid: "ok_rel a b \<Longrightarrow> mid_rel a b"
  by (simp add: ok_rel_def)

lemmas ok_is_fail = mid_fail [OF ok_mid]

lemma vals_ok_local: "vals_ok s \<Longrightarrow> locals_ok s \<Longrightarrow> get_local s y fp = Ok (Some v) \<Longrightarrow> value_ok v"
  by (auto simp: ls.look_abs vals_ok_def locals_abs_def list_all_iff
      dest!: map_of_SomeD in_set_dropD set_zip_rightD)

lemma vals_ok_global: "vals_ok s \<Longrightarrow> value_ok (get_global s y)"
  by (auto simp: get_global_def vals_ok_def split: option.splits)

lemma vals_ok_push: "vals_ok s \<Longrightarrow> value_ok v \<Longrightarrow> vals_ok (push_local y v s)"
  by (simp add: vals_ok_def push_local_def Let_def)

lemma vals_ok_pop: "vals_ok s \<Longrightarrow> vals_ok (pop_local s)"
  by (auto simp: vals_ok_def pop_local_def list_all_iff dest: in_set_butlastD)

lemma vals_ok_trunc: "vals_ok s \<Longrightarrow> vals_ok (truncate_locals n s)"
  by (auto simp: vals_ok_def truncate_locals_def list_all_iff dest: in_set_takeD)

lemma as_i64_in_range [simp]: "in_i64 (as_i64 n)"
proof -
  have "0 \<le> (int n + 2 ^ 63) mod 2 ^ 64" "(int n + 2 ^ 63) mod 2 ^ 64 < 2 ^ 64"
    by simp_all
  then show ?thesis by (auto simp: as_i64_def i64_defs)
qed

section \<open>Charging the budget\<close>

abbreviation post_ok :: "evaluator \<Rightarrow> mval \<Rightarrow> evaluator \<Rightarrow> bool" where
  "post_ok s0 v s \<equiv> value_ok v \<and> ok_rel s0 s"

abbreviation post_fail :: "evaluator \<Rightarrow> fault \<Rightarrow> evaluator \<Rightarrow> bool" where
  "post_fail s0 e s \<equiv> clean e \<and> fail_rel s0 s"

lemma mid_count:
  "mid_rel s0 s \<Longrightarrow> instruction_count s \<le> n \<Longrightarrow> n \<le> u64_max \<Longrightarrow> mid_rel s0 (s\<lparr>instruction_count := n\<rparr>)"
  by (auto simp: mid_rel_def frame_rel_def locals_ok_def vals_ok_def locals_abs_def)

lemma ok_count:
  "ok_rel s0 s \<Longrightarrow> instruction_count s \<le> n \<Longrightarrow> n \<le> max_instructions s \<Longrightarrow>
     ok_rel s0 (s\<lparr>instruction_count := n\<rparr>)"
  using mid_count [of s0 s n] by (simp add: ok_rel_def mid_rel_def)

lemma mid_le_max: "mid_rel s0 s \<Longrightarrow> instruction_count s \<le> u64_max"
  by (simp add: mid_rel_def frame_rel_def)

lemma charge_mid: "valid (mid_rel s0) (charge n) (\<lambda>_. mid_rel s0) E"
  unfolding charge_def
  by (rule valid_modS) (auto intro!: mid_count sat_add_ge mid_le_max)

lemma charge_ok: "valid (ok_rel s0) (charge n) (\<lambda>_. mid_rel s0) E"
  using charge_mid by (rule valid_pre) (rule ok_mid)

lemma check_budget_ok: "valid (mid_rel s0) check_budget (\<lambda>_. ok_rel s0) (post_fail s0)"
  by (auto simp: valid_def check_budget_def ok_rel_def mid_fail)

lemma queue_ok: "valid (ok_rel s0) (queue_action a) (\<lambda>_. ok_rel s0) E"
  unfolding queue_action_def
  by (rule valid_modS)
    (auto simp: ok_rel_def mid_rel_def frame_rel_def locals_ok_def vals_ok_def locals_abs_def prefix_def)

lemma lift_pure:
  assumes "\<And>v. x = Ok v \<Longrightarrow> A v" "\<And>e. x = Fail e \<Longrightarrow> clean e"
  shows "valid (ok_rel s0) (liftS x) (\<lambda>v s. A v \<and> ok_rel s0 s) (post_fail s0)"
  using assms by (auto intro!: valid_liftS ok_is_fail)

lemma err_ok: "valid (ok_rel s0) (errS e) Q (post_fail s0)"
  by (auto intro!: valid_failS ok_is_fail)

lemma ret_ok: "value_ok v \<Longrightarrow> valid (ok_rel s0) (okS v) (post_ok s0) E"
  by (auto intro!: valid_okS)

section \<open>Opening and closing a scope\<close>

definition ext_rel :: "evaluator \<Rightarrow> evaluator \<Rightarrow> bool" where
  "ext_rel s0 s \<longleftrightarrow> state_ok s \<and> frame_rel s0 s \<and> prefix (locals_abs s0) (locals_abs s)"

lemma state_okD: "state_ok s \<Longrightarrow> locals_ok s"
  by (simp add: state_ok_def)

lemma ok_ext: "ok_rel s0 s \<Longrightarrow> ext_rel s0 s"
  by (simp add: ext_rel_def ok_rel_def mid_rel_def state_ok_def)

lemma ext_fail: "ext_rel s0 s \<Longrightarrow> fail_rel s0 s"
  by (simp add: ext_rel_def fail_rel_def state_ok_def)

lemma state_ok_push: "state_ok s \<Longrightarrow> value_ok v \<Longrightarrow> state_ok (push_local y v s)"
  by (simp add: state_ok_def ls.push_ok vals_ok_push)

lemma frame_push: "frame_rel s0 s \<Longrightarrow> frame_rel s0 (push_local y v s)"
  by (simp add: frame_rel_def)

lemma frame_pop: "frame_rel s0 s \<Longrightarrow> frame_rel s0 (pop_local s)"
  by (simp add: frame_rel_def)

lemma frame_trunc: "frame_rel s0 s \<Longrightarrow> frame_rel s0 (truncate_locals n s)"
  by (simp add: frame_rel_def)

lemma ext_push: "ext_rel s0 s \<Longrightarrow> value_ok v \<Longrightarrow> ext_rel s0 (push_local y v s)"
  using ls.push_abs [of s y v] prefix_order.trans [of "locals_abs s0" "locals_abs s"]
  by (auto simp: ext_rel_def state_ok_push frame_push state_okD)

lemma take_prefix: "prefix xs ys \<Longrightarrow> take (length xs) ys = xs"
  by (auto simp: prefix_def)

lemma close_ok:
  assumes "ext_rel s0 s" "ok_rel s s'"
  shows "ok_rel s0 (truncate_locals (length (locals_abs s0)) s')"
  using assms
  by (auto simp: ext_rel_def ok_rel_def mid_rel_def ls.trunc_ok ls.trunc_abs vals_ok_trunc take_prefix
      intro: frame_trunc frame_trans)

lemma close_fail:
  assumes "ext_rel s0 s" "fail_rel s s'"
  shows "fail_rel s0 (truncate_locals (length (locals_abs s0)) s')"
  using assms take_prefix [OF prefix_order.trans, of "locals_abs s0" "locals_abs s" "locals_abs s'"]
  by (auto simp: ext_rel_def fail_rel_def ls.trunc_ok ls.trunc_abs vals_ok_trunc
      intro: frame_trunc frame_trans)

lemma pop_ok:
  assumes "ok_rel s0 s" "ok_rel (push_local y v s) s'"
  shows "ok_rel s0 (pop_local s')"
proof -
  have "locals_ok s" "frame_rel s0 s" "locals_abs s = locals_abs s0"
    using assms(1) by (simp_all add: ok_rel_def mid_rel_def)
  moreover have "frame_rel s s'" using assms(2) by (simp add: ok_rel_def mid_rel_def frame_rel_def)
  ultimately show ?thesis
    using assms(2)
    by (auto simp: ok_rel_def mid_rel_def ls.pop_ok ls.pop_abs ls.push_abs vals_ok_pop
        intro: frame_pop frame_trans)
qed

lemma pop_fail:
  assumes "ok_rel s0 s" "fail_rel (push_local y v s) s'"
  shows "fail_rel s0 (pop_local s')"
proof -
  have s: "locals_ok s" "frame_rel s0 s" "locals_abs s = locals_abs s0"
    using assms(1) by (simp_all add: ok_rel_def mid_rel_def)
  have "frame_rel s s'" using assms(2) by (simp add: fail_rel_def frame_rel_def)
  moreover have "prefix (locals_abs s0) (butlast (locals_abs s'))"
    using assms(2) s by (auto simp: fail_rel_def ls.push_abs prefix_def butlast_append)
  ultimately show ?thesis
    using assms(2) s
    by (auto simp: fail_rel_def ls.pop_ok ls.pop_abs vals_ok_pop intro: frame_pop frame_trans)
qed

lemma bind_params_ok:
  "list_all (\<lambda>p. value_ok (snd p)) ps \<Longrightarrow>
     valid (ext_rel s0) (bind_params ps) (\<lambda>_. ext_rel s0) (post_fail s0)"
proof (induction ps rule: bind_params.induct)
  case 1
  then show ?case by (auto intro: valid_okS)
next
  case (2 y ty v ps)
  have chk: "valid (ext_rel s0) (liftS (check_type v ty)) (\<lambda>_. ext_rel s0) (post_fail s0)"
    by (rule valid_liftS) (auto simp: check_type_def ext_fail split: if_splits)
  have psh: "valid (ext_rel s0) (modS (push_local y v)) (\<lambda>_. ext_rel s0) (post_fail s0)"
    using 2(2) by (intro valid_modS ext_push) auto
  show ?case
    using 2 by (auto intro!: valid_bindS [OF chk] valid_bindS [OF psh])
qed

section \<open>Loops of the list built-ins\<close>

lemma filter_include_budget:
  assumes "filter_include bop fv target ic mx = (r, ic')"
    and "\<And>op. bop = Some op \<Longrightarrow> is_comparison op"
  shows "ic' = ic \<and> (\<forall>e. r = Fail e \<longrightarrow> clean e)"
proof (cases bop)
  case None
  with assms(1) show ?thesis
    by (auto simp: filter_include_def split: mval.splits)
next
  case (Some op)
  obtain q ic2 where q: "apply_binop op fv target ic mx = (q, ic2)" by fastforce
  have ic: "ic2 = ic" using apply_binop_comparison_budget [OF assms(2) [OF Some] q] .
  show ?thesis
  proof (cases q)
    case (Ok v)
    then show ?thesis using assms(1) Some q ic by (cases v) (auto simp: filter_include_def)
  next
    case (Fail e)
    then have "clean e" using apply_binop_faults q clean_binop by blast
    then obtain err where "e = Error err" by (auto simp: clean_def)
    then show ?thesis using assms(1) Some q ic Fail by (cases err) (auto simp: filter_include_def)
  qed
qed

lemma filter_loop_spec:
  assumes "filter_loop bop field target mx items ic = (r, ic')"
    and "\<And>op. bop = Some op \<Longrightarrow> is_comparison op"
  shows "ic' = ic \<and> (case r of Ok l \<Rightarrow> subseq l items | Fail e \<Rightarrow> clean e)"
  using assms
proof (induction items arbitrary: r ic ic')
  case (Cons item items)
  show ?case
  proof (cases "get_field item (hash_field field) field")
    case None
    then have "filter_loop bop field target mx items ic = (r, ic')"
      using Cons.prems(1) by simp
    from Cons.IH [OF this Cons.prems(2)] show ?thesis
      by (auto split: outcome.splits)
  next
    case (Some fv)
    obtain q ic2 where q: "filter_include bop fv target ic mx = (q, ic2)" by fastforce
    obtain t ic3 where t: "filter_loop bop field target mx items ic2 = (t, ic3)" by fastforce
    have "ic2 = ic" "\<forall>e. q = Fail e \<longrightarrow> clean e"
      using filter_include_budget [OF q Cons.prems(2)] by auto
    with Cons.prems(1) Some q t Cons.IH [OF t Cons.prems(2)] show ?thesis
      by (auto split: outcome.splits)
  qed
qed simp

lemma filter_op_comparison: "filter_op op = Ok (Some b) \<Longrightarrow> is_comparison b"
  by (auto simp: filter_op_def split: if_splits)

lemma filter_op_clean: "filter_op op = Fail e \<Longrightarrow> clean e"
  by (auto simp: filter_op_def split: if_splits)

lemma sort_by_set: "set (sort_by f xs) = set xs"
proof -
  have "set (insert_by f x ys) = insert x (set ys)" for x ys
    by (induction ys) auto
  then show ?thesis by (induction xs) (auto simp: sort_by_def)
qed

lemma sort_items_ok:
  "list_all value_ok items \<Longrightarrow> sort_items field desc items = Ok l \<Longrightarrow> list_all value_ok l"
  by (auto simp: sort_items_def Let_def list_all_iff sort_by_set split: if_splits)

lemma sort_items_clean: "sort_items field desc items = Fail e \<Longrightarrow> clean e"
  by (auto simp: sort_items_def Let_def split: if_splits)

lemma count_loop_ok:
  "valid (ok_rel s0) (count_loop ctx field target items n) (\<lambda>_. ok_rel s0) (post_fail s0)"
proof (induction items arbitrary: n)
  case Nil
  then show ?case by (auto intro: valid_okS)
next
  case (Cons item items)
  have eq: "valid (ok_rel s0) (\<lambda>st. case budget_eq peq v target (instruction_count st) (max_instructions st) of
                   (r, ic) \<Rightarrow> (r, st\<lparr>instruction_count := ic\<rparr>)) (\<lambda>_. ok_rel s0) (post_fail s0)" for peq v
  proof (rule validI)
    fix s b s'
    assume s: "ok_rel s0 s" and r: "(case budget_eq peq v target (instruction_count s) (max_instructions s) of
       (r, ic) \<Rightarrow> (r, s\<lparr>instruction_count := ic\<rparr>)) = (Ok b, s')"
    then have "instruction_count s \<le> u64_max" "instruction_count s \<le> max_instructions s"
      by (auto simp: ok_rel_def dest: mid_le_max)
    with r budget_eq_loop_budget [of "instruction_count s" "max_instructions s" peq "[(v, target)]"]
    show "ok_rel s0 s'"
      by (auto simp: budget_eq_def bud_post_def split: prod.splits intro!: ok_count [OF s])
  next
    fix s e s'
    assume s: "ok_rel s0 s" and r: "(case budget_eq peq v target (instruction_count s) (max_instructions s) of
       (r, ic) \<Rightarrow> (r, s\<lparr>instruction_count := ic\<rparr>)) = (Fail e, s')"
    then have "instruction_count s \<le> u64_max"
      by (auto simp: ok_rel_def dest: mid_le_max)
    with r budget_eq_loop_budget [of "instruction_count s" "max_instructions s" peq "[(v, target)]"]
    show "post_fail s0 e s'"
      by (auto simp: budget_eq_def bud_post_def split: prod.splits intro!: mid_fail mid_count [OF ok_mid [OF s]])
  qed
  show ?case
    by (cases "get_field item (hash_field field) field") (simp_all add: Cons valid_bindS [OF eq])
qed

section \<open>The contract\<close>

text \<open>Enough fuel for the levels left below the depth limit.\<close>

definition fuel_ok :: "nat \<Rightarrow> nat \<Rightarrow> bool" where
  "fuel_ok n d \<longleftrightarrow> d \<le> MAX_EVAL_DEPTH \<and> MAX_EVAL_DEPTH < d + n"

lemma fuel_ok_Suc: "fuel_ok (Suc n) d \<Longrightarrow> Suc d \<le> MAX_EVAL_DEPTH \<Longrightarrow> fuel_ok n (Suc d)"
  by (simp add: fuel_ok_def)

locale evaluator_contract =
  fixes ctx :: eval_ctx and fuel :: nat
    and ev :: "expr \<Rightarrow> nat \<Rightarrow> expr_arena \<Rightarrow> mval ecomput"
  assumes ev_valid:
    "ctx_wf ctx \<Longrightarrow> arena_wf ar \<Longrightarrow> expr_wf ar e \<Longrightarrow> fuel_ok fuel (eval_depth s0) \<Longrightarrow>
       valid (ok_rel s0) (ev e fp ar) (post_ok s0) (post_fail s0)"
begin

text \<open>A sub-expression by index.\<close>

definition eva_ok :: "evaluator \<Rightarrow> (expr_id \<Rightarrow> mval ecomput) \<Rightarrow> expr_arena \<Rightarrow> bool" where
  "eva_ok s0 eva ar \<longleftrightarrow>
     (\<forall>i s1. i < length (nodes ar) \<longrightarrow> eval_depth s1 = eval_depth s0 \<longrightarrow>
        valid (ok_rel s1) (eva i) (post_ok s1) (post_fail s1))"

lemma eva_ok_arena:
  assumes "ctx_wf ctx" "arena_wf ar" "fuel_ok fuel (eval_depth s0)"
  shows "eva_ok s0 (\<lambda>i. bindS (liftS (arena_get ar i)) (\<lambda>e. ev e fp ar)) ar"
proof -
  have "valid (ok_rel s1) (bindS (liftS (arena_get ar i)) (\<lambda>e. ev e fp ar)) (post_ok s1) (post_fail s1)"
    if "i < length (nodes ar)" "eval_depth s1 = eval_depth s0" for i s1
  proof (rule valid_bind_inv [where A = "expr_wf ar"])
    show "valid (ok_rel s1) (liftS (arena_get ar i)) (\<lambda>v s. expr_wf ar v \<and> ok_rel s1 s) (post_fail s1)"
      using that assms(2) arena_get_ok [of ar i]
      by (intro lift_pure) (auto simp: arena_get_def index_or_panic_def expr_wf_def arena_wf_def list_all_length)
    show "valid (ok_rel s1) (ev e fp ar) (post_ok s1) (post_fail s1)" if "expr_wf ar e" for e
      using assms that \<open>eval_depth s1 = _\<close> by (intro ev_valid) auto
  qed
  then show ?thesis by (auto simp: eva_ok_def)
qed

lemma eva_okD: "eva_ok s0 eva ar \<Longrightarrow> i < length (nodes ar) \<Longrightarrow> valid (ok_rel s0) (eva i) (post_ok s0) (post_fail s0)"
  by (simp add: eva_ok_def)

lemma as_list_ok:
  "value_ok v \<Longrightarrow> valid (ok_rel s0) (liftS (as_list v)) (\<lambda>l s. list_all value_ok l \<and> ok_rel s0 s) (post_fail s0)"
  by (rule lift_pure) (auto simp: as_list_def split: mval.splits)

lemma as_string_ok:
  "valid (ok_rel s0) (liftS (as_string v)) (\<lambda>l s. True \<and> ok_rel s0 s) (post_fail s0)"
  by (rule lift_pure) (auto simp: as_string_def split: mval.splits)

lemma bare_variable_ok:
  "list_all (\<lambda>i. i < length (nodes ar)) args \<Longrightarrow>
     valid (ok_rel s0) (liftS (bare_variable ar args)) (\<lambda>l s. True \<and> ok_rel s0 s) (post_fail s0)"
  by (rule lift_pure)
    (auto simp: bare_variable_def arena_get_def index_or_panic_def split: list.splits expr.splits)

lemma charge_then:
  assumes "valid (ok_rel s0) m Q (post_fail s0)"
  shows "valid (ok_rel s0) (bindS (charge n) (\<lambda>_. bindS check_budget (\<lambda>_. m))) Q (post_fail s0)"
  by (rule valid_bindS [OF charge_ok], rule valid_bindS [OF check_budget_ok], rule assms)

lemma queue_then:
  assumes "valid (ok_rel s0) m Q E"
  shows "valid (ok_rel s0) (bindS (queue_action a) (\<lambda>_. m)) Q E"
  by (rule valid_bindS [OF queue_ok], rule assms)

lemmas step_rules = valid_bind_inv [OF eva_okD] valid_bind_inv [OF as_list_ok]
  valid_bind_inv [OF as_string_ok] valid_bind_inv [OF bare_variable_ok] charge_then queue_then err_ok ret_ok

lemma copy_to_clipboard_ok:
  assumes "eva_ok s0 eva ar" "list_all (\<lambda>i. i < length (nodes ar)) args"
  shows "valid (ok_rel s0) (copy_to_clipboard eva args) (post_ok s0) (post_fail s0)"
  unfolding copy_to_clipboard_def
  using assms by (auto intro!: step_rules valid_if split: mval.splits simp: list_all_length)

lemma store_local_ok:
  assumes "eva_ok s0 eva ar" "list_all (\<lambda>i. i < length (nodes ar)) args"
  shows "valid (ok_rel s0) (store_local eva args) (post_ok s0) (post_fail s0)"
  unfolding store_local_def
  using assms by (auto intro!: step_rules valid_if split: mval.splits simp: list_all_length)

lemma download_ok:
  assumes "list_all (\<lambda>i. i < length (nodes ar)) args"
  shows "valid (ok_rel s0) (download ar args) (post_ok s0) (post_fail s0)"
  unfolding download_def
  using assms by (auto intro!: step_rules split: option.splits)

lemma get_system_time_ok:
  assumes "list_all (\<lambda>i. i < length (nodes ar)) args"
  shows "valid (ok_rel s0) (get_system_time ar args) (post_ok s0) (post_fail s0)"
  unfolding get_system_time_def
  using assms
  by (auto intro!: step_rules valid_if valid_bind_inv [where A = "\<lambda>_. True", OF valid_getS] split: option.splits)

lemma builtin_to_string_ok:
  assumes "eva_ok s0 eva ar" "list_all (\<lambda>i. i < length (nodes ar)) args" "length args = 1"
  shows "valid (ok_rel s0) (builtin_to_string eva args) (post_ok s0) (post_fail s0)"
  unfolding builtin_to_string_def
  using assms by (auto intro!: step_rules split: mval.splits simp: list_all_length)

lemma builtin_contains_ok:
  assumes "eva_ok s0 eva ar" "list_all (\<lambda>i. i < length (nodes ar)) args" "length args = 2"
  shows "valid (ok_rel s0) (builtin_contains eva args) (post_ok s0) (post_fail s0)"
  unfolding builtin_contains_def
  using assms by (auto intro!: step_rules simp: list_all_length)

lemma builtin_has_field_ok:
  assumes "eva_ok s0 eva ar" "list_all (\<lambda>i. i < length (nodes ar)) args" "length args = 2"
  shows "valid (ok_rel s0) (builtin_has_field eva args) (post_ok s0) (post_fail s0)"
  unfolding builtin_has_field_def
  using assms by (auto intro!: step_rules split: mval.splits simp: list_all_length)

lemma builtin_length_ok:
  assumes "eva_ok s0 eva ar" "list_all (\<lambda>i. i < length (nodes ar)) args" "length args = 1"
  shows "valid (ok_rel s0) (builtin_length eva args) (post_ok s0) (post_fail s0)"
proof -
  have str: "valid (ok_rel s0)
      (\<lambda>st. if sat_add (instruction_count st) (length s) > max_instructions st then (Err Timeout, st)
            else (Ok (VInt (as_i64 (char_count s))),
                  st\<lparr>instruction_count := sat_add (instruction_count st) (char_count s)\<rparr>))
      (post_ok s0) (post_fail s0)" for s
  proof (rule validI)
    fix st v st'
    assume st: "ok_rel s0 st" and r: "(if sat_add (instruction_count st) (length s) > max_instructions st
        then (Err Timeout, st) else (Ok (VInt (as_i64 (char_count s))),
          st\<lparr>instruction_count := sat_add (instruction_count st) (char_count s)\<rparr>)) = (Ok v, st')"
    have "sat_add (instruction_count st) (char_count s) \<le> sat_add (instruction_count st) (length s)"
      by (rule sat_add_mono) (rule char_count_le)
    with r st show "post_ok s0 v st'"
      by (auto split: if_splits intro!: ok_count sat_add_ge dest: mid_le_max [OF ok_mid])
  qed (auto split: if_splits intro: ok_is_fail)
  show ?thesis
    unfolding builtin_length_def
    using assms by (auto intro!: step_rules str split: mval.splits simp: list_all_length)
qed

lemma builtin_filter_ok:
  assumes "eva_ok s0 eva ar" "list_all (\<lambda>i. i < length (nodes ar)) args" "length args = 4"
  shows "valid (ok_rel s0) (builtin_filter eva args) (post_ok s0) (post_fail s0)"
proof -
  have run: "valid (ok_rel s0)
      (\<lambda>st. case filter_loop bop field target (max_instructions st) items (instruction_count st) of
        (Ok filtered, ic) \<Rightarrow> (Ok (VList filtered), st\<lparr>instruction_count := ic\<rparr>)
      | (Fail e, _) \<Rightarrow> (Fail e, st)) (post_ok s0) (post_fail s0)"
    if "list_all value_ok items" "\<And>op. bop = Some op \<Longrightarrow> is_comparison op" for bop field target items
  proof -
    have vals: "list_all value_ok l" if "subseq l items" for l
      using that \<open>list_all value_ok items\<close> by (auto simp: list_all_iff dest: subseq_subset)
    have good: "ic' = ic \<and> list_all value_ok l"
      if "filter_loop bop field target mx items ic = (Ok l, ic')" for mx ic l ic'
      using filter_loop_spec [OF that \<open>\<And>op. bop = Some op \<Longrightarrow> is_comparison op\<close>] vals by simp
    have bad: "clean e" if "filter_loop bop field target mx items ic = (Fail e, ic')" for mx ic e ic'
      using filter_loop_spec [OF that \<open>\<And>op. bop = Some op \<Longrightarrow> is_comparison op\<close>] by simp
    show ?thesis
      by (auto simp: valid_def split: prod.splits outcome.splits dest: good bad intro: ok_is_fail)
  qed
  have ops: "valid (ok_rel s0) (liftS (filter_op op))
      (\<lambda>bop s. (\<forall>b. bop = Some b \<longrightarrow> is_comparison b) \<and> ok_rel s0 s) (post_fail s0)" for op
    by (rule lift_pure) (auto dest: filter_op_comparison filter_op_clean)
  have extra: "valid (mid_rel s0) (if c then charge k else okS ()) (\<lambda>_. mid_rel s0) (post_fail s0)" for c k
    by (auto intro: charge_mid valid_okS)
  show ?thesis
    unfolding builtin_filter_def
    using assms
    by (auto intro!: step_rules valid_bindS [OF charge_ok] valid_bindS [OF extra]
        valid_bindS [OF check_budget_ok] valid_bind_inv [OF ops] run simp: list_all_length)
qed

lemma builtin_count_ok:
  assumes "eva_ok s0 eva ar" "list_all (\<lambda>i. i < length (nodes ar)) args" "length args = 3"
  shows "valid (ok_rel s0) (builtin_count ctx' eva args) (post_ok s0) (post_fail s0)"
  unfolding builtin_count_def
  using assms
  by (auto intro!: step_rules valid_bindS [OF count_loop_ok] simp: list_all_length)

lemma builtin_sort_ok:
  assumes "eva_ok s0 eva ar" "list_all (\<lambda>i. i < length (nodes ar)) args" "length args = 3"
  shows "valid (ok_rel s0) (builtin_sort eva args) (post_ok s0) (post_fail s0)"
proof -
  have srt: "valid (ok_rel s0) (liftS (sort_items field desc items))
      (\<lambda>l s. list_all value_ok l \<and> ok_rel s0 s) (post_fail s0)"
    if "list_all value_ok items" for field desc items
    using that by (intro lift_pure) (auto dest: sort_items_ok sort_items_clean)
  show ?thesis
    unfolding builtin_sort_def
    using assms
    by (auto intro!: step_rules valid_if valid_bind_inv [OF srt] simp: list_all_length)
qed

lemma call_function_ok:
  assumes "ctx_wf ctx" "fuel_ok fuel (eval_depth s0)"
    and eva: "eva_ok s0 eva ar" and args: "list_all (\<lambda>i. i < length (nodes ar)) args"
  shows "valid (ok_rel s0) (call_function ev ctx eva y args) (post_ok s0) (post_fail s0)"
proof (cases "ctx_functions ctx y")
  case None
  then show ?thesis by (simp add: call_function_def err_ok)
next
  case (Some func)
  let ?n = "length (locals_abs s0)"
  have wf: "tree_wf (fn_body func)" using assms(1) Some by (auto simp: ctx_wf_def)
  then obtain body where body: "root_expr (fn_body func) = Ok body"
    and bwf: "expr_wf (tree_arena (fn_body func)) body" and awf: "arena_wf (tree_arena (fn_body func))"
    using arena_get_ok [of "tree_arena (fn_body func)" "tree_root (fn_body func)"]
    by (auto simp: tree_wf_def root_expr_def arena_get_def index_or_panic_def expr_wf_def arena_wf_def
        list_all_length)
  have as: "valid (ok_rel s0) (mapS eva args) (\<lambda>vs s. list_all value_ok vs \<and> ok_rel s0 s) (post_fail s0)"
    using eva args
    by (intro valid_weaken [OF valid_mapS [where A = value_ok and P = "ok_rel s0" and E = "post_fail s0"]])
      (auto simp: list_all_iff intro: eva_okD)
  have fp: "valid (ok_rel s0) (getS (\<lambda>st. length (local_stack st)))
      (\<lambda>n s. n = ?n \<and> ok_rel s0 s) (post_fail s0)"
    by (rule valid_getS) (metis locals_abs_length mid_rel_def ok_mid)
  have bp: "valid (ok_rel s0) (bind_params (zip (fn_params func) vs)) (\<lambda>_. ext_rel s0) (post_fail s0)"
    if "list_all value_ok vs" for vs
    using that
    by (intro valid_pre [OF bind_params_ok ok_ext]) (auto simp: list_all_iff dest: set_zip_rightD)
  have run: "valid (ext_rel s0) (finallyS (ev body ?n (tree_arena (fn_body func))) (truncate_locals ?n))
      (post_ok s0) (post_fail s0)"
  proof (rule valid_by_state, rule valid_finallyS)
    fix s assume s: "ext_rel s0 s"
    then have "fuel_ok fuel (eval_depth s)" and "ok_rel s s"
      using assms(2) by (auto simp: ext_rel_def frame_rel_def ok_rel_refl)
    then show "valid (\<lambda>t. t = s) (ev body ?n (tree_arena (fn_body func)))
        (\<lambda>v t. post_ok s0 v (truncate_locals ?n t)) (\<lambda>e t. post_fail s0 e (truncate_locals ?n t))"
      using close_ok [OF s] close_fail [OF s]
      by (intro valid_weaken [OF ev_valid [OF assms(1) awf bwf, of s]]) auto
  qed
  show ?thesis
    unfolding call_function_def
    by (simp add: Some body)
      (auto simp: liftS_def bindS_def [of "\<lambda>s. (Ok body, s)"]
        intro!: err_ok valid_if valid_bind_inv [OF as] valid_bind_inv [OF fp] valid_bindS [OF bp] run)
qed

lemma eval_call_ok:
  assumes "ctx_wf ctx" "fuel_ok fuel (eval_depth s0)"
    and "eva_ok s0 eva ar" "list_all (\<lambda>i. i < length (nodes ar)) args"
  shows "valid (ok_rel s0) (eval_call ev ctx eva ar y args) (post_ok s0) (post_fail s0)"
  unfolding eval_call_def Let_def
  by (intro valid_if copy_to_clipboard_ok [OF assms(3,4)] get_system_time_ok [OF assms(4)]
      store_local_ok [OF assms(3,4)] builtin_filter_ok [OF assms(3,4)] builtin_count_ok [OF assms(3,4)]
      download_ok [OF assms(4)] builtin_sort_ok [OF assms(3,4)] builtin_length_ok [OF assms(3,4)]
      builtin_to_string_ok [OF assms(3,4)] builtin_contains_ok [OF assms(3,4)]
      builtin_has_field_ok [OF assms(3,4)] call_function_ok [OF assms(1-4)]; elim conjE; assumption)

lemma eval_variable_ok:
  "valid (ok_rel s0) (eval_variable ctx y fp) (post_ok s0) (post_fail s0)"
proof -
  have "valid (\<lambda>t. t = s) (eval_variable ctx y fp) (post_ok s0) (post_fail s0)" if s: "ok_rel s0 s" for s
  proof -
    have "locals_ok s" "vals_ok s" using s by (auto simp: ok_rel_def mid_rel_def)
    moreover from this have "\<exists>r. get_local s y fp = Ok r" by (simp add: ls.look_abs)
    ultimately show ?thesis
      using s by (auto simp: valid_def eval_variable_def dest: vals_ok_local
          intro: vals_ok_global ok_is_fail split: outcome.splits option.splits)
  qed
  then show ?thesis by (rule valid_by_state)
qed

lemma eval_binop_ok:
  assumes "eva_ok s0 eva ar" "l < length (nodes ar)" "r < length (nodes ar)"
  shows "valid (ok_rel s0) (eval_binop eva op l r) (post_ok s0) (post_fail s0)"
proof -
  have run: "valid (ok_rel s0) (\<lambda>st. case apply_binop op lv rv (instruction_count st) (max_instructions st) of
        (r, ic) \<Rightarrow> (r, st\<lparr>instruction_count := ic\<rparr>)) (post_ok s0) (post_fail s0)"
    for lv rv
  proof (rule validI)
    fix s v s' assume s: "ok_rel s0 s" and
      "(case apply_binop op lv rv (instruction_count s) (max_instructions s) of
        (r, ic) \<Rightarrow> (r, s\<lparr>instruction_count := ic\<rparr>)) = (Ok v, s')"
    then obtain ic where r: "apply_binop op lv rv (instruction_count s) (max_instructions s) = (Ok v, ic)"
      and s': "s' = s\<lparr>instruction_count := ic\<rparr>" by (auto split: prod.splits)
    have "instruction_count s \<le> u64_max" "instruction_count s \<le> max_instructions s"
      using s mid_le_max [OF ok_mid [OF s]] by (auto simp: ok_rel_def)
    with apply_binop_budget [OF r] apply_binop_ok [OF r] s s' show "post_ok s0 v s'"
      by (auto intro!: ok_count)
  next
    fix s e s' assume s: "ok_rel s0 s" and
      "(case apply_binop op lv rv (instruction_count s) (max_instructions s) of
        (r, ic) \<Rightarrow> (r, s\<lparr>instruction_count := ic\<rparr>)) = (Fail e, s')"
    then obtain ic where r: "apply_binop op lv rv (instruction_count s) (max_instructions s) = (Fail e, ic)"
      and s': "s' = s\<lparr>instruction_count := ic\<rparr>" by (auto split: prod.splits)
    have "instruction_count s \<le> u64_max" "instruction_count s \<le> max_instructions s"
      using s mid_le_max [OF ok_mid [OF s]] by (auto simp: ok_rel_def)
    then have "mid_rel s0 s'"
      using apply_binop_budget [OF r] s' by (simp add: mid_count [OF ok_mid [OF s]])
    then show "post_fail s0 e s'"
      using clean_binop [OF apply_binop_faults [OF r]] by (simp add: mid_fail)
  qed
  show ?thesis
    unfolding eval_binop_def using assms by (auto intro!: step_rules run)
qed

lemma eval_let_ok:
  assumes "eva_ok s0 eva ar" "v < length (nodes ar)" "body < length (nodes ar)"
  shows "valid (ok_rel s0) (eval_let eva y v body) (post_ok s0) (post_fail s0)"
proof -
  have run: "valid (ok_rel s0) (bindS (modS (push_local y w)) (\<lambda>_. finallyS (eva body) pop_local))
      (post_ok s0) (post_fail s0)" if w: "value_ok w" for w
  proof (rule valid_by_state)
    fix s assume s: "ok_rel s0 s"
    have "state_ok (push_local y w s)"
      using s w by (intro state_ok_push ok_rel_state)
    then have "ok_rel (push_local y w s) (push_local y w s)" by (rule ok_rel_refl)
    moreover have "eval_depth (push_local y w s) = eval_depth s0"
      using s by (simp add: ok_rel_depth)
    then have "valid (ok_rel (push_local y w s)) (eva body) (post_ok (push_local y w s)) (post_fail (push_local y w s))"
      using assms by (simp add: eva_ok_def)
    ultimately have "valid (\<lambda>t. t = push_local y w s) (finallyS (eva body) pop_local) (post_ok s0) (post_fail s0)"
      using pop_ok [OF s] pop_fail [OF s] by (intro valid_finallyS, elim valid_weaken) auto
    then show "valid (\<lambda>t. t = s) (bindS (modS (push_local y w)) (\<lambda>_. finallyS (eva body) pop_local))
        (post_ok s0) (post_fail s0)"
      by (simp add: valid_def bindS_def modS_def)
  qed
  show ?thesis
    unfolding eval_let_def using assms by (auto intro!: step_rules run)
qed

lemma eval_field_ok:
  assumes "eva_ok s0 eva ar" "b < length (nodes ar)"
  shows "valid (ok_rel s0) (eval_field ctx eva b f h) (post_ok s0) (post_fail s0)"
proof -
  have look: "valid (ok_rel s0) (liftS (ok_or (get_field v h k) (VariableNotFound k))) (post_ok s0) (post_fail s0)"
    if "value_ok v" for v k
    using that by (intro lift_pure) (auto simp: ok_or_def dest: get_field_ok split: option.splits)
  show ?thesis
    unfolding eval_field_def using assms
    by (auto intro!: step_rules look split: mval.splits simp del: get_field.simps)
qed

lemma eval_if_ok:
  assumes "eva_ok s0 eva ar" "c < length (nodes ar)" "t < length (nodes ar)" "e < length (nodes ar)"
  shows "valid (ok_rel s0) (eval_if eva c t e) (post_ok s0) (post_fail s0)"
  unfolding eval_if_def using assms
  by (auto intro!: step_rules split: mval.splits) (rule eva_okD, assumption, assumption)+

lemma eval_not_ok:
  assumes "eva_ok s0 eva ar" "i < length (nodes ar)"
  shows "valid (ok_rel s0) (eval_not eva i) (post_ok s0) (post_fail s0)"
  unfolding eval_not_def using assms
  by (auto intro!: step_rules split: mval.splits)

lemma evaluate_impl_ok:
  assumes "ctx_wf ctx" "arena_wf ar" "expr_wf ar e" "fuel_ok fuel (eval_depth s0)"
  shows "valid (ok_rel s0) (evaluate_impl ev ctx e fp ar) (post_ok s0) (post_fail s0)"
proof -
  note eva = eva_ok_arena [OF assms(1,2,4), of fp]
  have nd: "node_ok ar e" "lit_ok e" using assms(3) by (auto simp: expr_wf_def)
  show ?thesis
  proof (cases e)
    case (EFunctionCall y st n)
    have "valid (ok_rel s0) (liftS (arena_args ar st n))
        (\<lambda>args s. list_all (\<lambda>i. i < length (nodes ar)) args \<and> ok_rel s0 s) (post_fail s0)"
      using nd assms(2) EFunctionCall
      by (intro lift_pure) (auto simp: arena_args_def node_ok_def arena_wf_def arena_ok_def list_all_iff
          dest!: in_set_takeD in_set_dropD split: if_splits)
    then show ?thesis
      using EFunctionCall
      by (auto simp: evaluate_impl_def Let_def intro!: valid_bind_inv eval_call_ok [OF assms(1,4) eva])
  qed (use nd eva in \<open>auto simp: evaluate_impl_def Let_def node_ok_def
      intro!: ret_ok eval_variable_ok eval_binop_ok eval_let_ok eval_field_ok eval_if_ok eval_not_ok\<close>)
qed

end

section \<open>Tying the knot\<close>

lemma enter_eval_ok:
  assumes body: "\<And>s. eval_depth s = Suc (eval_depth s0) \<Longrightarrow> Suc (eval_depth s0) \<le> MAX_EVAL_DEPTH \<Longrightarrow>
      valid (ok_rel s) m (post_ok s) (post_fail s)"
  shows "valid (ok_rel s0) (enter_eval m) (post_ok s0) (post_fail s0)"
proof (rule valid_by_state)
  fix s assume s: "ok_rel s0 s"
  define s1 where "s1 = s\<lparr>instruction_count := instruction_count s + 1\<rparr>"
  define s2 where "s2 = s1\<lparr>eval_depth := eval_depth s1 + 1\<rparr>"
  define leave where "leave = (\<lambda>s :: evaluator. s\<lparr>eval_depth := eval_depth s - 1\<rparr>)"
  have lt: "instruction_count s < u64_max" and d: "eval_depth s = eval_depth s0"
    using s by (auto simp: ok_rel_def mid_rel_def frame_rel_def)
  then have m1: "mid_rel s0 s1" using mid_count [OF ok_mid [OF s]] by (simp add: s1_def)
  have run: "valid (\<lambda>t. t = s2) (finallyS m leave) (post_ok s0) (post_fail s0)"
    if ic: "instruction_count s1 \<le> max_instructions s1" and dep: "eval_depth s2 \<le> MAX_EVAL_DEPTH"
  proof -
    have s2: "ok_rel s2 s2" "eval_depth s2 = Suc (eval_depth s0)"
      using m1 ic d
      by (auto simp: s2_def s1_def ok_rel_def mid_rel_def frame_rel_def locals_ok_def vals_ok_def)
    have leave_rel: "ok_rel s2 t \<Longrightarrow> ok_rel s0 (leave t)" "fail_rel s2 t \<Longrightarrow> fail_rel s0 (leave t)" for t
      using m1
      by (auto simp: s2_def ok_rel_def mid_rel_def fail_rel_def frame_rel_def locals_ok_def vals_ok_def
          locals_abs_def leave_def intro: prefix_order.trans)
    show ?thesis
      using s2 dep leave_rel by (intro valid_finallyS valid_weaken [OF body [of s2]]) auto
  qed
  have "fail_rel s0 (s2\<lparr>eval_depth := eval_depth s2 - 1\<rparr>)"
    using mid_fail [OF m1] by (simp add: s2_def)
  then show "valid (\<lambda>t. t = s) (enter_eval m) (post_ok s0) (post_fail s0)"
    using run mid_fail [OF m1] lt unfolding s1_def s2_def leave_def
    by (simp add: valid_def enter_eval_def Let_def)
qed

lemma evaluate_fuel_contract: "evaluator_contract ctx n (evaluate_fuel n ctx)"
proof (induction n)
  case 0
  show ?case by unfold_locales (auto simp: fuel_ok_def)
next
  case (Suc n)
  show ?case
    by unfold_locales
      (auto intro!: enter_eval_ok evaluator_contract.evaluate_impl_ok [OF Suc] fuel_ok_Suc)
qed

interpretation ef: evaluator_contract ctx n "evaluate_fuel n ctx" for ctx n
  by (rule evaluate_fuel_contract)

section \<open>The recursion equation without fuel\<close>

text \<open>
  \<open>less_fuel m m'\<close>: wherever \<open>m\<close> does not run out of fuel, \<open>m'\<close> does the same. Every
  construct of the evaluator is monotone in it, so more fuel never changes a result.
\<close>

definition less_fuel :: "'a ecomput \<Rightarrow> 'a ecomput \<Rightarrow> bool" where
  "less_fuel m m' \<longleftrightarrow> (\<forall>s. fst (m s) \<noteq> Fail OutOfFuel \<longrightarrow> m' s = m s)"

named_theorems fuel_mono "monotonicity of the evaluator in its fuel"

lemma less_fuel_refl [fuel_mono]: "less_fuel m m"
  by (simp add: less_fuel_def)

lemma less_fuel_bind [fuel_mono]:
  assumes "less_fuel m m'" "\<And>v. less_fuel (f v) (f' v)"
  shows "less_fuel (bindS m f) (bindS m' f')"
proof -
  have "bindS m' f' s = bindS m f s" if nf: "fst (bindS m f s) \<noteq> Fail OutOfFuel" for s
  proof -
    have "fst (m s) \<noteq> Fail OutOfFuel"
      using nf by (auto simp: bindS_def split: prod.splits outcome.splits)
    then have "m' s = m s"
      using assms(1) by (simp add: less_fuel_def)
    then show ?thesis
      using assms(2) nf by (auto simp: less_fuel_def bindS_def split: prod.splits outcome.splits)
  qed
  then show ?thesis by (simp add: less_fuel_def)
qed

lemma less_fuel_finally [fuel_mono]: "less_fuel m m' \<Longrightarrow> less_fuel (finallyS m f) (finallyS m' f)"
  by (auto simp: less_fuel_def finallyS_def split: prod.splits)

lemma less_fuel_map [fuel_mono]:
  "(\<And>x. less_fuel (f x) (f' x)) \<Longrightarrow> less_fuel (mapS f xs) (mapS f' xs)"
  by (induction xs) (auto intro!: fuel_mono)

lemma less_fuel_if [fuel_mono]:
  "less_fuel m m' \<Longrightarrow> less_fuel n n' \<Longrightarrow> less_fuel (if c then m else n) (if c then m' else n')"
  by simp

lemma less_fuel_enter [fuel_mono]: "less_fuel m m' \<Longrightarrow> less_fuel (enter_eval m) (enter_eval m')"
  by (auto simp: less_fuel_def enter_eval_def Let_def finallyS_def split: prod.splits)

lemmas builtin_defs = copy_to_clipboard_def store_local_def builtin_filter_def builtin_count_def
  builtin_sort_def builtin_length_def builtin_to_string_def builtin_contains_def builtin_has_field_def

lemma less_fuel_call [fuel_mono]:
  assumes "\<And>e fp ar. less_fuel (ev e fp ar) (ev' e fp ar)" "\<And>i. less_fuel (eva i) (eva' i)"
  shows "less_fuel (call_function ev ctx eva y args) (call_function ev' ctx eva' y args)"
  unfolding call_function_def
  using assms by (auto split: option.splits intro!: fuel_mono)

lemma less_fuel_eval_call [fuel_mono]:
  assumes "\<And>e fp ar. less_fuel (ev e fp ar) (ev' e fp ar)" "\<And>i. less_fuel (eva i) (eva' i)"
  shows "less_fuel (eval_call ev ctx eva ar y args) (eval_call ev' ctx eva' ar y args)"
  unfolding eval_call_def Let_def
  by (intro fuel_mono assms; (unfold builtin_defs, intro fuel_mono assms)?)
    (auto split: mval.splits intro!: fuel_mono assms)

lemma less_fuel_impl [fuel_mono]:
  assumes "\<And>e fp ar. less_fuel (ev e fp ar) (ev' e fp ar)"
  shows "less_fuel (evaluate_impl ev ctx e fp ar) (evaluate_impl ev' ctx e fp ar)"
  using assms
  by (cases e)
    (auto simp: evaluate_impl_def Let_def eval_binop_def eval_let_def eval_field_def eval_if_def eval_not_def
      split: mval.splits intro!: fuel_mono)

lemma less_fuel_Suc: "less_fuel (evaluate_fuel n ctx e fp ar) (evaluate_fuel (Suc n) ctx e fp ar)"
proof (induction n arbitrary: e fp ar)
  case 0
  show ?case by (simp add: less_fuel_def failS_def)
next
  case (Suc n)
  then show ?case unfolding evaluate_fuel.simps(2) [of n] evaluate_fuel.simps(2) [of "Suc n"]
    by (intro fuel_mono)
qed

lemma less_fuel_le:
  "n \<le> m \<Longrightarrow> fst (evaluate_fuel n ctx e fp ar s) \<noteq> Fail OutOfFuel \<Longrightarrow>
     evaluate_fuel m ctx e fp ar s = evaluate_fuel n ctx e fp ar s"
proof (induction m rule: dec_induct)
  case (step m)
  then show ?case using less_fuel_Suc by (metis less_fuel_def)
qed simp

lemma evaluate_contract:
  assumes "ctx_wf ctx" "arena_wf ar" "expr_wf ar e" "eval_depth s0 \<le> MAX_EVAL_DEPTH"
  shows "valid (ok_rel s0) (evaluate ctx e fp ar) (post_ok s0) (post_fail s0)"
  using assms unfolding evaluate_def by (intro ef.ev_valid) (simp_all add: fuel_ok_def)

lemma contract_result:
  assumes "valid (ok_rel s) m (post_ok s) (post_fail s)" "state_ok s" "m s = (r, s')"
  shows "case r of Ok v \<Rightarrow> post_ok s v s' | Fail f \<Rightarrow> post_fail s f s'"
  using assms(1,3) ok_rel_refl [OF assms(2)]
  by (cases r) (auto dest: validD_ok validD_fail)

lemma contract_frame:
  assumes "valid (ok_rel s) m (post_ok s) (post_fail s)" "state_ok s" "m s = (r, s')"
  shows "frame_rel s s'"
  using contract_result [OF assms] by (cases r) (auto simp: ok_rel_def mid_rel_def fail_rel_def)

lemma evaluate_result:
  assumes "ctx_wf ctx" "arena_wf ar" "expr_wf ar e" "state_ok s" "eval_depth s \<le> MAX_EVAL_DEPTH"
    and "evaluate ctx e fp ar s = (r, s')"
  shows "case r of Ok v \<Rightarrow> post_ok s v s' | Fail f \<Rightarrow> post_fail s f s'"
  using contract_result [OF evaluate_contract [OF assms(1,2,3,5)] assms(4,6)] .

section \<open>Properties\<close>

abbreviation bare_ctx :: "(symbol \<rightharpoonup> mizu_function) \<Rightarrow> eval_ctx" where
  "bare_ctx fs \<equiv> \<lparr>ctx_functions = fs, ctx_interner = interner_new, ctx_ptr_eq = (\<lambda>_ _. False)\<rparr>"

lemmas wf_defs = ctx_wf_def tree_wf_def arena_wf_def arena_ok_def expr_wf_def node_ok_def

lemma default_state_ok [simp]:
  "state_ok evaluator_default" "eval_depth evaluator_default \<le> MAX_EVAL_DEPTH"
  by (auto simp: state_ok_def locals_ok_def vals_ok_def evaluator_default_def evaluator_new_def
      index_of_def u64_defs fun_eq_iff)

text \<open>
  (C6) Evaluating any node of an arena that passes \<^verbatim>\<open>validate_references\<close>, even a cyclic
  one, ends: it returns a value or one of the errors of the source, and never panics
  (no index out of bounds, no counter overflow) and never recurses beyond the depth
  limit the model's fuel stands for.
\<close>

theorem evaluate_total:
  assumes "ctx_wf ctx" "arena_wf ar" "expr_wf ar e" "state_ok s" "eval_depth s \<le> MAX_EVAL_DEPTH"
  shows "(\<exists>v s'. evaluate ctx e fp ar s = (Ok v, s')) \<or> (\<exists>err s'. evaluate ctx e fp ar s = (Err err, s'))"
proof -
  obtain r s' where r: "evaluate ctx e fp ar s = (r, s')" by fastforce
  from evaluate_result [OF assms r] r show ?thesis
    by (cases r) (auto simp: clean_def)
qed

theorem evaluate_total_witness:
  "(\<exists>v s'. evaluate (bare_ctx Map.empty)
       (ENot 0) 0 \<lparr>nodes = [ENot 0], args_pool = []\<rparr> evaluator_default = (Ok v, s'))
   \<or> (\<exists>err s'. evaluate (bare_ctx Map.empty)
       (ENot 0) 0 \<lparr>nodes = [ENot 0], args_pool = []\<rparr> evaluator_default = (Err err, s'))"
  by (rule evaluate_total)
    (simp_all add: wf_defs default_state_ok)



text \<open>
  (C7) The frame and type invariant of evaluation. Whatever the outcome, the globals, the
  undo log, the nesting depth and the set of computed variables are untouched, the
  queued actions are only extended, and the three scope tables still agree. After a
  value, the value is well formed (integers in \<^verbatim>\<open>i64\<close>, records sorted and hashed) and the
  scope is exactly the one before; after an error it contains the one before.
\<close>

theorem evaluate_frame:
  assumes "ctx_wf ctx" "arena_wf ar" "expr_wf ar e" "state_ok s" "eval_depth s \<le> MAX_EVAL_DEPTH"
    and "evaluate ctx e fp ar s = (r, s')"
  shows "global_store s' = global_store s \<and> undo_log s' = undo_log s \<and> eval_depth s' = eval_depth s
     \<and> computed_var_syms s' = computed_var_syms s
     \<and> prefix (accumulated_actions s) (accumulated_actions s') \<and> locals_ok s' \<and> vals_ok s'
     \<and> (case r of Ok v \<Rightarrow> value_ok v \<and> locals_abs s' = locals_abs s
                | Fail f \<Rightarrow> prefix (locals_abs s) (locals_abs s'))"
  using evaluate_result [OF assms]
  by (cases r) (auto simp: ok_rel_def mid_rel_def fail_rel_def frame_rel_def)

theorem evaluate_frame_witness:
  "global_store (snd (evaluate (bare_ctx Map.empty) (ENot 0) 0
     \<lparr>nodes = [ELiteral (VBool True)], args_pool = []\<rparr> (evaluator_default\<lparr>global_store := [7 \<mapsto> VInt 1]\<rparr>)))
   = [7 \<mapsto> VInt 1]"
proof -
  let ?s = "evaluator_default\<lparr>global_store := [7 \<mapsto> VInt 1]\<rparr>"
  let ?ar = "\<lparr>nodes = [ELiteral (VBool True)], args_pool = []\<rparr>"
  have ok: "state_ok ?s" "eval_depth ?s \<le> MAX_EVAL_DEPTH"
    using default_state_ok by (auto simp: state_ok_def locals_ok_def vals_ok_def i64_defs)
  obtain r s' where r: "evaluate (bare_ctx Map.empty) (ENot 0) 0 ?ar ?s = (r, s')"
    by fastforce
  have "global_store s' = global_store ?s"
    using evaluate_frame [OF _ _ _ ok r] by (simp add: wf_defs)
  then show ?thesis by (simp add: r)
qed

text \<open>
  (C8) The instruction budget. The count never decreases and never wraps, a value is
  only returned while the count is within \<^verbatim>\<open>max_instructions\<close>, every evaluation of a
  node costs at least one instruction, and once the budget is spent evaluation stops
  with \<^verbatim>\<open>Timeout\<close> without touching anything but the count.
\<close>

theorem evaluate_budget:
  assumes "ctx_wf ctx" "arena_wf ar" "expr_wf ar e" "state_ok s" "eval_depth s \<le> MAX_EVAL_DEPTH"
    and "evaluate ctx e fp ar s = (r, s')"
  shows "instruction_count s < instruction_count s' \<and> instruction_count s' \<le> u64_max
     \<and> (is_ok r \<longrightarrow> instruction_count s' \<le> max_instructions s)
     \<and> (instruction_count s = max_instructions s \<longrightarrow>
          r = Err Timeout \<and> s' = s\<lparr>instruction_count := Suc (instruction_count s)\<rparr>)"
proof -
  have c: "instruction_count s < u64_max" using assms(4) by (simp add: state_ok_def)
  have rec: "enter_eval (evaluate_impl (evaluate_fuel MAX_EVAL_DEPTH ctx) ctx e fp ar) s = (r, s')"
    using assms(6) by (simp add: evaluate_def)
  define s2 where "s2 = s\<lparr>instruction_count := Suc (instruction_count s), eval_depth := Suc (eval_depth s)\<rparr>"
  have sel: "instruction_count s2 = Suc (instruction_count s)" "eval_depth s2 = Suc (eval_depth s)"
    by (simp_all add: s2_def)
  have grow: "Suc (instruction_count s) \<le> instruction_count s''"
    if "Suc (eval_depth s) \<le> MAX_EVAL_DEPTH" "Suc (instruction_count s) \<le> max_instructions s"
      "evaluate_impl (evaluate_fuel MAX_EVAL_DEPTH ctx) ctx e fp ar s2 = (q, s'')" for q s''
  proof -
    have "state_ok s2" using assms(4) that(2)
      by (auto simp: s2_def state_ok_def locals_ok_def vals_ok_def)
    moreover have "valid (ok_rel s2) (evaluate_impl (evaluate_fuel MAX_EVAL_DEPTH ctx) ctx e fp ar)
        (post_ok s2) (post_fail s2)"
      using assms that(1) by (intro ef.evaluate_impl_ok) (simp_all add: fuel_ok_def s2_def)
    ultimately have "frame_rel s2 s''"
      using that(3) contract_frame by blast
    then show ?thesis by (simp add: frame_rel_def s2_def)
  qed
  have "instruction_count s < instruction_count s'"
    using rec c grow sel
    by (auto simp: enter_eval_def Let_def finallyS_def s2_def [symmetric] less_eq_Suc_le split: if_splits prod.splits)
  moreover have "instruction_count s' \<le> u64_max \<and> (is_ok r \<longrightarrow> instruction_count s' \<le> max_instructions s)"
    using evaluate_result [OF assms] by (cases r) (auto simp: ok_rel_def mid_rel_def fail_rel_def frame_rel_def)
  moreover have "instruction_count s = max_instructions s \<longrightarrow>
      r = Err Timeout \<and> s' = s\<lparr>instruction_count := Suc (instruction_count s)\<rparr>"
    using rec c by (auto simp: enter_eval_def)
  ultimately show ?thesis by blast
qed

theorem evaluate_budget_witness:
  "fst (evaluate (bare_ctx Map.empty) (ELiteral (VInt 1)) 0 arena_new
     (evaluator_default\<lparr>instruction_count := 20000\<rparr>)) = Err Timeout"
proof -
  let ?s = "evaluator_default\<lparr>instruction_count := 20000\<rparr>"
  have ok: "state_ok ?s" "eval_depth ?s \<le> MAX_EVAL_DEPTH"
    using default_state_ok
    by (auto simp: state_ok_def locals_ok_def vals_ok_def evaluator_default_def evaluator_new_def)
  obtain r s' where r: "evaluate (bare_ctx Map.empty) (ELiteral (VInt 1)) 0 arena_new ?s = (r, s')"
    by fastforce
  have "instruction_count ?s = max_instructions ?s"
    by (simp add: evaluator_default_def evaluator_new_def)
  then have "r = Err Timeout"
    using evaluate_budget [OF _ _ _ ok r] by (simp add: wf_defs arena_new_def i64_defs)
  then show ?thesis by (simp add: r)
qed

section \<open>A failed call leaves its parameters behind\<close>

text \<open>
  \<open>leak_function\<close> takes a number and a bool. Calling it with two numbers fails on the
  second parameter, after the first has been pushed.
\<close>

lemma evaluate_step:
  "evaluate ctx e fp ar = enter_eval (evaluate_impl (evaluate_fuel 256 ctx) ctx e fp ar)"
  "evaluate_fuel 256 ctx e fp ar = enter_eval (evaluate_impl (evaluate_fuel 255 ctx) ctx e fp ar)"
  using evaluate_fuel.simps(2) [of 256 ctx] evaluate_fuel.simps(2) [of 255 ctx]
  by (simp_all add: evaluate_def MAX_EVAL_DEPTH_def del: evaluate_fuel.simps)

definition leak_function :: mizu_function where
  "leak_function =
     \<lparr>fn_params = [(1, TNum), (2, TBool)],
      fn_body = \<lparr>tree_arena = \<lparr>nodes = [EVariable 1], args_pool = []\<rparr>, tree_root = 0\<rparr>\<rparr>"

text \<open>
  The early return of the parameter check in a call does not truncate the scope: the
  parameters bound before the offending one stay on the local stack of the evaluator.
  A later evaluation at frame pointer 0, which is how actions and computed variables
  are evaluated, then reads such a leftover instead of the global of the same name.
\<close>

theorem failed_call_leaks_parameters:
  "\<exists>s'. evaluate (bare_ctx [0 \<mapsto> leak_function]) (EFunctionCall 0 0 2) 0
        \<lparr>nodes = [ELiteral (VInt 1), ELiteral (VInt 2)], args_pool = [0, 1]\<rparr>
        (evaluator_default\<lparr>global_store := [1 \<mapsto> VInt 99]\<rparr>) = (Err (TypeError ''bool'' ''num''), s')
      \<and> locals_abs s' = [(1, VInt 1)] \<and> global_store s' = [1 \<mapsto> VInt 99]
      \<and> fst (evaluate (bare_ctx Map.empty) (EVariable 1) 0 arena_new s') = Ok (VInt 1)"
  by (simp add: evaluate_step enter_eval_def evaluate_impl_def Let_def comput_defs
      arena_args_def arena_get_def index_or_panic_def eval_call_def call_function_def resolve_or_def
      resolve_def interner_new_def evaluator_default_def evaluator_new_def u64_defs check_type_def
      leak_function_def MAX_EVAL_DEPTH_def push_local_def root_expr_def locals_abs_def
      eval_variable_def get_local_def)

end
