(* ===== verification/Mizu_Builtins.thy ===== *)
theory Mizu_Builtins
  imports Mizu_Evaluate_Props
begin

text \<open>
  What the list built-ins of \<^verbatim>\<open>evaluate.rs\<close> compute: \<^verbatim>\<open>sort\<close> is a stable sorted
  permutation by the key field, \<^verbatim>\<open>filter\<close> keeps the elements in order that satisfy the
  comparison, \<^verbatim>\<open>count\<close> counts the elements whose field equals the target.
\<close>

section \<open>Sorting decorated elements\<close>

lemma insert_by_decorated:
  "insert_by (\<lambda>a b. g (fst a) (fst b)) (k x, x) (map (\<lambda>i. (k i, i)) ys)
   = map (\<lambda>i. (k i, i)) (insert_by (\<lambda>a b. g (k a) (k b)) x ys)"
  by (induction ys) auto

lemma sort_by_decorated:
  "sort_by (\<lambda>a b. g (fst a) (fst b)) (map (\<lambda>i. (k i, i)) xs)
   = map (\<lambda>i. (k i, i)) (sort_by (\<lambda>a b. g (k a) (k b)) xs)"
  by (induction xs) (simp_all add: sort_by_def insert_by_decorated)

definition field_key :: "string \<Rightarrow> mval \<Rightarrow> mval option" where
  "field_key field item = get_field item (hash_field field) field"

definition key_order :: "string \<Rightarrow> bool \<Rightarrow> mval \<Rightarrow> mval \<Rightarrow> ordering" where
  "key_order field desc a b =
     (let ord = compare_values (field_key field a) (field_key field b)
      in if desc then reverse_ord ord else ord)"

lemma key_order_weak: "weak_order (key_order field desc)"
  using weak_order.on_key [OF cv.reversed] cv.on_key
  by (cases desc) (simp_all add: key_order_def [abs_def])

lemma sort_items_eq:
  "sort_items field desc items =
     (if list_all (\<lambda>i. sort_key_ok (field_key field i)) items
      then Ok (sort_by (key_order field desc) items)
      else Err (ExecutionError ''sort: cannot sort on complex nested fields (List/Record)''))"
  using sort_by_decorated [of "\<lambda>x y. if desc then reverse_ord (compare_values x y) else compare_values x y"
      "field_key field" items]
  by (simp add: sort_items_def Let_def field_key_def [symmetric] key_order_def [abs_def] list.pred_map comp_def)

text \<open>
  \<^verbatim>\<open>sort(list, field, direction)\<close>: when it succeeds the result is a permutation of the
  input, ordered by the field in the asked direction, and elements whose keys compare
  equal keep their order.
\<close>

theorem sort_items_correct:
  assumes "sort_items field desc items = Ok l"
  shows "mset l = mset items \<and> sorted_wrt (\<lambda>a b. key_order field desc a b \<noteq> Greater) l
     \<and> (\<forall>z. filter (\<lambda>y. key_order field desc z y = Equal) l = filter (\<lambda>y. key_order field desc z y = Equal) items)"
  using assms weak_order.mset_sort_by [OF key_order_weak] weak_order.sorted_sort_by [OF key_order_weak]
    weak_order.stable_sort_by [OF key_order_weak]
  by (auto simp: sort_items_eq split: if_splits)

theorem sort_items_correct_witness:
  "mset [VInt 1, VNull] = mset [VInt 1, VNull]
   \<and> sorted_wrt (\<lambda>a b. key_order ''k'' True a b \<noteq> Greater) [VInt 1, VNull]
   \<and> (\<forall>z. filter (\<lambda>y. key_order ''k'' True z y = Equal) [VInt 1, VNull]
        = filter (\<lambda>y. key_order ''k'' True z y = Equal) [VInt 1, VNull])"
  by (rule sort_items_correct) (simp add: sort_items_eq sort_by_def key_order_def field_key_def)

text \<open>
  The comparison behind \<^verbatim>\<open>sort\<close> and the list order of the renderer is a weak order on
  optional values: antisymmetric up to equality, total, transitive, with a missing key first.
\<close>

theorem compare_values_weak_order:
  "compare_values y x = reverse_ord (compare_values x y)
   \<and> (compare_values x y \<noteq> Greater \<longrightarrow> compare_values y z \<noteq> Greater \<longrightarrow> compare_values x z \<noteq> Greater)
   \<and> (compare_values x y = Equal \<longrightarrow> compare_values x z = compare_values y z)
   \<and> (x \<noteq> None \<longrightarrow> compare_values None x = Less)"
proof -
  have "compare_values x z = compare_values y z" if e: "compare_values x y = Equal"
  proof -
    have e': "compare_values y x = Equal" using cv.rev [of y x] e by simp
    show ?thesis
      using cv.trans [of x y z] cv.trans [of z y x] e e' cv.rev [of z x] cv.rev [of z y]
      by (cases "compare_values y z"; cases "compare_values x z") auto
  qed
  then show ?thesis
    using cv.rev [of y x] cv.le_trans [of x y z] by (cases x) auto
qed

theorem compare_values_weak_order_witness:
  "compare_values None (Some (VInt 1)) \<noteq> Greater \<and> compare_values (Some (VInt 1)) (Some (VDecimal 3000000000000)) \<noteq> Greater
   \<and> compare_values None (Some (VDecimal 3000000000000)) \<noteq> Greater"
  using compare_values_weak_order [of "Some (VInt 1)" None "Some (VDecimal 3000000000000)"]
  by (simp add: cmp_def DECIMAL_SCALE_def)

section \<open>Filtering\<close>

text \<open>The elements \<^verbatim>\<open>filter\<close> keeps, by operator; a type mismatch counts as no match.\<close>

definition filter_match :: "binop option \<Rightarrow> string \<Rightarrow> mval \<Rightarrow> mval \<Rightarrow> bool" where
  "filter_match bop field target item =
     (case field_key field item of
        None \<Rightarrow> False
      | Some v \<Rightarrow>
          (case bop of
             Some op \<Rightarrow> fst (apply_binop op v target 0 0) = Ok (VBool True)
           | None \<Rightarrow> (case (v, target) of (VString h, VString n) \<Rightarrow> str_contains h n | _ \<Rightarrow> False)))"

lemma comparison_pure:
  "is_comparison op \<Longrightarrow> apply_binop op l r ic m = (fst (apply_binop op l r 0 0), ic)"
  by (cases l; cases r; cases op) (auto simp: apply_binop_def split: option.splits)

lemma filter_include_eq:
  assumes "\<And>op. bop = Some op \<Longrightarrow> is_comparison op" "field_key field item = Some v"
  shows "filter_include bop v target ic mx = (Ok b, ic') \<Longrightarrow> b = filter_match bop field target item"
proof (cases bop)
  case None
  moreover assume "filter_include bop v target ic mx = (Ok b, ic')"
  ultimately show ?thesis
    using assms(2) by (auto simp: filter_include_def filter_match_def split: mval.splits)
next
  case (Some op)
  moreover assume "filter_include bop v target ic mx = (Ok b, ic')"
  ultimately show ?thesis
    using assms(2) comparison_pure [OF assms(1) [OF Some], of v target ic mx]
    by (auto simp: filter_include_def filter_match_def split: outcome.splits mval.splits fault.splits mizu_error.splits)
qed

text \<open>
  \<^verbatim>\<open>filter(list, field, op, target)\<close>: when the loop succeeds its result is exactly the
  elements that have the field and satisfy the operator, in their order, and the loop
  leaves the instruction count as it is.
\<close>

theorem filter_loop_correct:
  assumes "filter_loop bop field target mx items ic = (Ok l, ic')" "filter_op opname = Ok bop"
  shows "l = filter (filter_match bop field target) items \<and> ic' = ic"
proof -
  have comp: "\<And>op. bop = Some op \<Longrightarrow> is_comparison op"
    using assms(2) filter_op_comparison by blast
  have "l = filter (filter_match bop field target) items"
    using assms(1)
  proof (induction items arbitrary: l ic)
    case (Cons item items)
    show ?case
    proof (cases "field_key field item")
      case None
      with Cons show ?thesis by (auto simp: field_key_def filter_match_def)
    next
      case (Some v)
      with Cons show ?thesis
        using filter_include_eq [OF comp Some, of _ target ic mx]
        by (fastforce simp: field_key_def [symmetric] split: prod.splits outcome.splits if_splits)
    qed
  qed simp
  moreover have "ic' = ic" using filter_loop_spec [OF assms(1) comp] by simp
  ultimately show ?thesis by simp
qed

theorem filter_loop_correct_witness:
  "filter (filter_match (Some Gt) ''n'' (VInt 1)) [record_from_unsorted [(''n'', VInt 2)], VInt 7, record_from_unsorted [(''n'', VInt 1)]]
   = [record_from_unsorted [(''n'', VInt 2)]]"
  using filter_loop_correct [of "Some Gt" "''n''" "VInt 1" 9
      "[record_from_unsorted [(''n'', VInt 2)], VInt 7, record_from_unsorted [(''n'', VInt 1)]]" 0
      "[record_from_unsorted [(''n'', VInt 2)]]" 0 "''gt''"]
  by (simp add: get_field_record filter_include_def apply_binop_def filter_op_def)

end
