(* ===== verification/Mizu_Action.thy ===== *)
theory Mizu_Action
  imports Mizu_Evaluate_Props
begin

text \<open>
  The variable store of \<^verbatim>\<open>core/types/store.rs\<close>, the actions of
  \<^verbatim>\<open>parser/logic/eval.rs\<close> and the gate and resolution of endpoint URLs of
  \<^verbatim>\<open>parser/logic/parse/helpers.rs\<close> and \<^verbatim>\<open>parser/logic_worker/helpers.rs\<close>.

  An action runs in the state of the store; evaluation touches only its evaluator.
  \<open>keeps\<close> is the Hoare-style contract of that: the invariant of the store before and
  after, whatever the outcome, and no panic.
\<close>

record variable_store =
  vs_evaluator :: evaluator
  vs_interner :: string_interner

type_synonym 'a vcomput = "(variable_store, 'a) comput"

type_synonym function_table = "symbol \<rightharpoonup> mizu_function"

text \<open>\<^verbatim>\<open>Arc::ptr_eq\<close> is the parameter of the evaluator's context.\<close>

definition store_ctx :: "(mval \<Rightarrow> mval \<Rightarrow> bool) \<Rightarrow> function_table \<Rightarrow> variable_store \<Rightarrow> eval_ctx" where
  "store_ctx peq fs st = \<lparr>ctx_functions = fs, ctx_interner = vs_interner st, ctx_ptr_eq = peq\<rparr>"

definition store_new :: variable_store where
  "store_new = \<lparr>vs_evaluator = evaluator_default, vs_interner = interner_new\<rparr>"

definition store_freeze :: "variable_store \<Rightarrow> variable_store" where
  "store_freeze st = st\<lparr>vs_interner := freeze (vs_interner st)\<rparr>"

definition with_interner :: "string_interner \<Rightarrow> variable_store" where
  "with_interner t = \<lparr>vs_evaluator = evaluator_default, vs_interner = t\<rparr>"

definition set_symbol :: "symbol \<Rightarrow> mval \<Rightarrow> variable_store \<Rightarrow> variable_store" where
  "set_symbol y v st = st\<lparr>vs_evaluator := set_global y v (vs_evaluator st)\<rparr>"

text \<open>\<^verbatim>\<open>set\<close> on the unfrozen store interns the name first.\<close>

definition store_set :: "string \<Rightarrow> mval \<Rightarrow> variable_store \<Rightarrow> variable_store" where
  "store_set name v st =
     (case get_or_intern (vs_interner st) name of
        (y, t) \<Rightarrow> st\<lparr>vs_interner := t, vs_evaluator := set_global y v (vs_evaluator st)\<rparr>)"

definition set_runtime :: "string \<Rightarrow> mval \<Rightarrow> variable_store \<Rightarrow> variable_store" where
  "set_runtime name v st =
     (case interner_get (vs_interner st) name of
        Some y \<Rightarrow> set_symbol y v st
      | None \<Rightarrow> st)"

definition store_get :: "variable_store \<Rightarrow> string \<Rightarrow> mval outcome" where
  "store_get st name =
     (case interner_get (vs_interner st) name of
        None \<Rightarrow> Err (VariableNotFound name)
      | Some y \<Rightarrow>
          bindO (get_local (vs_evaluator st) y 0) (\<lambda>r. case r of
            Some v \<Rightarrow> Ok v
          | None \<Rightarrow>
              if get_global (vs_evaluator st) y \<noteq> VNull then Ok (get_global (vs_evaluator st) y)
              else Err (VariableNotFound name)))"

section \<open>The gate on path parameters\<close>

definition is_ctl :: "char \<Rightarrow> bool" where
  "is_ctl c \<longleftrightarrow> (of_char c :: nat) < 32 \<or> (of_char c :: nat) = 127"

definition path_param_ok :: "string \<Rightarrow> bool" where
  "path_param_ok s \<longleftrightarrow>
     \<not> list_ex (\<lambda>c. c = CHR ''/'' \<or> c = CHR 0x5C \<or> is_ctl c) s \<and> \<not> str_contains s ''..''"

section \<open>Executing an action\<close>

definition run_tree ::
  "(mval \<Rightarrow> mval \<Rightarrow> bool) \<Rightarrow> function_table \<Rightarrow> expr_tree \<Rightarrow> mval vcomput" where
  "run_tree peq fs t =
     (\<lambda>st. case evaluate_tree (store_ctx peq fs st) t 0 (vs_evaluator st) of
        (r, e) \<Rightarrow> (r, st\<lparr>vs_evaluator := e\<rparr>))"

definition push_action :: "runtime_action \<Rightarrow> unit vcomput" where
  "push_action a =
     modS (\<lambda>st. st\<lparr>vs_evaluator := (vs_evaluator st)
       \<lparr>accumulated_actions := accumulated_actions (vs_evaluator st) @ [a]\<rparr>\<rparr>)"

definition execute_assign ::
  "(expr_tree \<Rightarrow> mval vcomput) \<Rightarrow> string \<Rightarrow> expr_tree \<Rightarrow> bool vcomput" where
  "execute_assign run target expr =
     bindS (getS (\<lambda>st. case interner_get (vs_interner st) target of
              Some y \<Rightarrow> y \<in> computed_var_syms (vs_evaluator st)
            | None \<Rightarrow> False)) (\<lambda>is_comp.
       if is_comp then errS (ExecutionError (''cannot assign to computed variable `'' @ target @ ''`''))
       else bindS (run expr) (\<lambda>result.
            bindS (modS (set_runtime target result)) (\<lambda>_. okS True)))"

definition execute_navigate ::
  "(expr_tree \<Rightarrow> mval vcomput) \<Rightarrow> expr_tree \<Rightarrow> bool vcomput" where
  "execute_navigate run url =
     bindS (run url) (\<lambda>v. case v of
       VString s \<Rightarrow> bindS (push_action (RNavigate s)) (\<lambda>_. okS True)
     | _ \<Rightarrow> errS (ExecutionError ''Navigate URL must evaluate to a string''))"

definition run_optional ::
  "(expr_tree \<Rightarrow> mval vcomput) \<Rightarrow> expr_tree option \<Rightarrow> mval option vcomput" where
  "run_optional run t =
     (case t of None \<Rightarrow> okS None | Some p \<Rightarrow> bindS (run p) (\<lambda>v. okS (Some v)))"

text \<open>The string of a path parameter: \<^verbatim>\<open>n.to_string()\<close> prints the scaled integer of a decimal.\<close>

definition path_param_str :: "mval \<Rightarrow> string outcome" where
  "path_param_str v =
     bindO (case v of
              VString s \<Rightarrow> Ok s
            | VDecimal n \<Rightarrow> Ok (show_int n)
            | _ \<Rightarrow> Err (ExecutionError ''path_param must be a string or number'')) (\<lambda>s.
       if path_param_ok s then Ok s
       else Err (ExecutionError ''path_param must be a single path segment''))"

definition run_path_param ::
  "(expr_tree \<Rightarrow> mval vcomput) \<Rightarrow> expr_tree option \<Rightarrow> string option vcomput" where
  "run_path_param run t =
     (case t of
        None \<Rightarrow> okS None
      | Some pp \<Rightarrow>
          bindS (run pp) (\<lambda>v.
          bindS (liftS (path_param_str v)) (\<lambda>s. okS (Some s))))"

definition execute_network_call ::
  "(expr_tree \<Rightarrow> mval vcomput) \<Rightarrow> network_method \<Rightarrow> symbol \<Rightarrow> expr_tree option \<Rightarrow>
   expr_tree option \<Rightarrow> string \<Rightarrow> payload_format \<Rightarrow> (string \<times> expr_tree) list \<Rightarrow> bool vcomput" where
  "execute_network_call run mth alias_sym payload path_param target_var fmt headers =
     bindS (run_optional run payload) (\<lambda>payload_val.
     bindS (run_path_param run path_param) (\<lambda>pp.
     bindS (getS (\<lambda>st. interner_get (vs_interner st) target_var)) (\<lambda>tv. case tv of
       None \<Rightarrow> errS (ExecutionError (''Network target variable `'' @ target_var @
                 ''` was not declared in the logic block''))
     | Some target_variable \<Rightarrow>
         bindS (mapS (\<lambda>(name, e). bindS (run e) (\<lambda>v. okS (name, v))) headers) (\<lambda>header_values.
         bindS (push_action (RNetworkCall mth alias_sym payload_val pp target_variable fmt header_values))
           (\<lambda>_. okS True)))))"

definition reset_count :: "unit vcomput" where
  "reset_count = modS (\<lambda>st. st\<lparr>vs_evaluator := (vs_evaluator st)\<lparr>instruction_count := 0\<rparr>\<rparr>)"

definition execute_action ::
  "(mval \<Rightarrow> mval \<Rightarrow> bool) \<Rightarrow> function_table \<Rightarrow> action \<Rightarrow> bool vcomput" where
  "execute_action peq fs a =
     bindS reset_count (\<lambda>_. case a of
       AAssign target expr \<Rightarrow> execute_assign (run_tree peq fs) target expr
     | AEval expr \<Rightarrow> bindS (run_tree peq fs expr) (\<lambda>_. okS False)
     | ANavigate url \<Rightarrow> execute_navigate (run_tree peq fs) url
     | ANetworkCall mth alias_sym payload path_param target_var fmt headers \<Rightarrow>
         execute_network_call (run_tree peq fs) mth alias_sym payload path_param target_var fmt headers)"

section \<open>Resolving an endpoint\<close>

datatype endpoint_kind = Api | Media

record url_endpoint =
  ep_kind :: endpoint_kind
  raw_target :: string

definition hex_digit :: "nat \<Rightarrow> char" where
  "hex_digit n = ''0123456789ABCDEF'' ! n"

definition is_unreserved :: "char \<Rightarrow> bool" where
  "is_unreserved c \<longleftrightarrow>
     (CHR ''A'' \<le> c \<and> c \<le> CHR ''Z'') \<or> (CHR ''a'' \<le> c \<and> c \<le> CHR ''z'') \<or> (CHR ''0'' \<le> c \<and> c \<le> CHR ''9'')
     \<or> c \<in> set ''-_.~''"

fun percent_encode :: "string \<Rightarrow> string" where
  "percent_encode [] = []"
| "percent_encode (c # cs) =
     (if is_unreserved c then c # percent_encode cs
      else CHR ''%'' # hex_digit (of_char c div 16) # hex_digit (of_char c mod 16) # percent_encode cs)"

definition trim_end_slash :: "string \<Rightarrow> string" where
  "trim_end_slash s = rev (dropWhile (\<lambda>c. c = CHR ''/'') (rev s))"

text \<open>
  The substitution of the first \<^verbatim>\<open>{..}\<close>: the part before the first \<open>{\<close>, the parameter,
  and what follows the first \<open>}\<close> after it; without a placeholder the parameter is appended.
\<close>

definition substitute_param :: "string \<Rightarrow> string \<Rightarrow> string" where
  "substitute_param base_url pp =
     (let before = takeWhile (\<lambda>c. c \<noteq> CHR ''{'') base_url;
          rest = dropWhile (\<lambda>c. c \<noteq> CHR ''{'') base_url;
          after = dropWhile (\<lambda>c. c \<noteq> CHR ''}'') rest
      in if rest \<noteq> [] \<and> after \<noteq> [] then before @ pp @ tl after
         else trim_end_slash base_url @ ''/'' @ pp)"

definition endpoint_base :: "string \<Rightarrow> url_endpoint \<Rightarrow> string" where
  "endpoint_base document_domain ep =
     (case ep_kind ep of
        Api \<Rightarrow> ''mizu://'' @ document_domain @ ''/'' @ dropWhile (\<lambda>c. c = CHR ''/'') (raw_target ep)
      | Media \<Rightarrow> raw_target ep)"

definition resolve_endpoint_url :: "string \<Rightarrow> url_endpoint \<Rightarrow> string option \<Rightarrow> string outcome" where
  "resolve_endpoint_url document_domain ep path_param =
     (case path_param of
        Some pp \<Rightarrow>
          if path_param_ok pp
          then Ok (substitute_param (endpoint_base document_domain ep) (percent_encode pp))
          else Err (ExecutionError ''path_param must be a single path segment'')
      | None \<Rightarrow> Ok (endpoint_base document_domain ep))"

section \<open>The contract of an action\<close>

fun action_wf :: "action \<Rightarrow> bool" where
  "action_wf (AEval t) = tree_wf t"
| "action_wf (AAssign _ t) = tree_wf t"
| "action_wf (ANavigate t) = tree_wf t"
| "action_wf (ANetworkCall _ _ p pp _ _ hs) =
     (pred_option tree_wf p \<and> pred_option tree_wf pp \<and> list_all (\<lambda>h. tree_wf (snd h)) hs)"

definition functions_wf :: "function_table \<Rightarrow> bool" where
  "functions_wf fs \<longleftrightarrow> (\<forall>y f. fs y = Some f \<longrightarrow> tree_wf (fn_body f))"

lemma ctx_wf_store [simp]: "ctx_wf (store_ctx peq fs st) \<longleftrightarrow> functions_wf fs"
  by (simp add: ctx_wf_def functions_wf_def store_ctx_def)

text \<open>The invariant of an evaluator between actions: it holds whatever the last one did.\<close>

definition eval_inv :: "evaluator \<Rightarrow> bool" where
  "eval_inv e \<longleftrightarrow> locals_ok e \<and> vals_ok e \<and> max_instructions e < u64_max \<and> eval_depth e = 0"

definition store_inv :: "variable_store \<Rightarrow> bool" where
  "store_inv st \<longleftrightarrow> eval_inv (vs_evaluator st)"

definition vok :: "variable_store \<Rightarrow> variable_store \<Rightarrow> bool" where
  "vok st st' \<longleftrightarrow> vs_interner st' = vs_interner st \<and> ok_rel (vs_evaluator st) (vs_evaluator st')"

definition vfail :: "variable_store \<Rightarrow> fault \<Rightarrow> variable_store \<Rightarrow> bool" where
  "vfail st e st' \<longleftrightarrow> clean e \<and> vs_interner st' = vs_interner st \<and> fail_rel (vs_evaluator st) (vs_evaluator st')"

lemma root_expr_wf: "tree_wf t \<Longrightarrow> \<exists>e. root_expr t = Ok e \<and> expr_wf (tree_arena t) e"
  using arena_get_ok [of "tree_arena t" "tree_root t"]
  by (auto simp: tree_wf_def root_expr_def arena_get_def index_or_panic_def expr_wf_def arena_wf_def list_all_length)

lemma evaluate_tree_contract:
  assumes "ctx_wf ctx" "tree_wf t" "eval_depth s0 \<le> MAX_EVAL_DEPTH"
  shows "valid (ok_rel s0) (evaluate_tree ctx t fp) (post_ok s0) (post_fail s0)"
proof -
  obtain e where e: "root_expr t = Ok e" "expr_wf (tree_arena t) e"
    using root_expr_wf [OF assms(2)] by blast
  then have "evaluate_tree ctx t fp = evaluate ctx e fp (tree_arena t)"
    by (simp add: evaluate_tree_def liftS_def bindS_def)
  then show ?thesis
    using evaluate_contract [OF assms(1) _ e(2) assms(3)] assms(2) by (simp add: tree_wf_def)
qed

lemma vok_fail: "vok st0 st \<Longrightarrow> clean e \<Longrightarrow> vfail st0 e st"
  by (simp add: vok_def vfail_def ok_is_fail)

lemma push_ok: "valid (vok st0) (push_action a) (\<lambda>_. vok st0) E"
  unfolding push_action_def
  by (rule valid_modS)
    (auto simp: vok_def ok_rel_def mid_rel_def frame_rel_def locals_ok_def vals_ok_def locals_abs_def prefix_def)

definition assigned :: "variable_store \<Rightarrow> string \<Rightarrow> variable_store \<Rightarrow> bool" where
  "assigned st0 target st \<longleftrightarrow>
     (\<exists>v st1. value_ok v \<and> vok st0 st1 \<and> st = set_runtime target v st1
        \<and> (\<forall>y. interner_get (vs_interner st0) target = Some y \<longrightarrow> y \<notin> computed_var_syms (vs_evaluator st0)))"

text \<open>What an action relies on: running an expression tree from a good store.\<close>

locale tree_runner =
  fixes run :: "expr_tree \<Rightarrow> mval vcomput" and good :: "variable_store \<Rightarrow> bool"
  assumes run_ok: "good st0 \<Longrightarrow> tree_wf t \<Longrightarrow>
    valid (vok st0) (run t) (\<lambda>v st. value_ok v \<and> vok st0 st) (vfail st0)"
begin

lemma run_optional_ok:
  "good st0 \<Longrightarrow> pred_option tree_wf t \<Longrightarrow>
     valid (vok st0) (run_optional run t) (\<lambda>v st. True \<and> vok st0 st) (vfail st0)"
  unfolding run_optional_def
  by (auto split: option.splits intro!: valid_okS valid_bind_inv [OF run_ok])

lemma run_path_param_ok:
  assumes "good st0" "pred_option tree_wf t"
  shows "valid (vok st0) (run_path_param run t) (\<lambda>v st. pred_option path_param_ok v \<and> vok st0 st) (vfail st0)"
proof -
  have pps: "valid (vok st0) (liftS (path_param_str v)) (\<lambda>s st. path_param_ok s \<and> vok st0 st) (vfail st0)" for v
    by (rule valid_liftS) (auto simp: path_param_str_def intro: vok_fail split: mval.splits if_splits)
  show ?thesis
    unfolding run_path_param_def using assms
    by (auto split: option.splits intro!: valid_okS valid_bind_inv [OF run_ok] valid_bind_inv [OF pps])
qed

lemma headers_ok:
  assumes "good st0" "list_all (\<lambda>h. tree_wf (snd h)) hs"
  shows "valid (vok st0) (mapS (\<lambda>(name, e). bindS (run e) (\<lambda>v. okS (name, v))) hs)
     (\<lambda>vs st. True \<and> vok st0 st) (vfail st0)"
proof (rule valid_weaken [OF valid_mapS [where A = "\<lambda>_. True" and P = "vok st0" and E = "vfail st0"]])
  show "valid (vok st0) (case h of (name, e) \<Rightarrow> bindS (run e) (\<lambda>v. okS (name, v)))
      (\<lambda>v st. True \<and> vok st0 st) (vfail st0)" if "h \<in> set hs" for h
  proof -
    have "tree_wf (snd h)" using that assms by (auto simp: list_all_iff)
    with assms(1) show ?thesis by (cases h) (auto intro!: valid_bind_inv [OF run_ok] valid_okS)
  qed
qed auto

lemma network_call_ok:
  assumes "good st0" "action_wf (ANetworkCall mth y p pp tv fmt hs)"
  shows "valid (vok st0) (execute_network_call run mth y p pp tv fmt hs) (\<lambda>_. vok st0) (vfail st0)"
  unfolding execute_network_call_def
  using assms
  by (auto intro!: valid_bind_inv [OF run_optional_ok] valid_bind_inv [OF run_path_param_ok]
      valid_bind_inv [where A = "\<lambda>_. True", OF valid_getS] valid_bind_inv [OF headers_ok]
      valid_bindS [OF push_ok] valid_okS valid_failS vok_fail split: option.splits)

lemma navigate_ok:
  "good st0 \<Longrightarrow> tree_wf t \<Longrightarrow> valid (vok st0) (execute_navigate run t) (\<lambda>_. vok st0) (vfail st0)"
  unfolding execute_navigate_def
  by (auto intro!: valid_bind_inv [OF run_ok] valid_bindS [OF push_ok] valid_okS valid_failS vok_fail
      split: mval.splits)

lemma eval_ok:
  "good st0 \<Longrightarrow> tree_wf t \<Longrightarrow> valid (vok st0) (bindS (run t) (\<lambda>_. okS b)) (\<lambda>_. vok st0) (vfail st0)"
  by (auto intro!: valid_bind_inv [OF run_ok] valid_okS)

lemma assign_ok:
  assumes "good st0" "tree_wf t"
  shows "valid (vok st0) (execute_assign run target t) (\<lambda>_. assigned st0 target) (vfail st0)"
proof -
  let ?C = "\<lambda>st. case interner_get (vs_interner st) target of
      Some y \<Rightarrow> y \<in> computed_var_syms (vs_evaluator st) | None \<Rightarrow> False"
  have guard: "valid (vok st0) (getS ?C) (\<lambda>c st. c = ?C st0 \<and> vok st0 st) (vfail st0)"
    by (rule valid_getS) (auto simp: vok_def ok_rel_def mid_rel_def frame_rel_def split: option.splits)
  have set: "valid (vok st0) (modS (set_runtime target v)) (\<lambda>_. assigned st0 target) (vfail st0)"
    if "value_ok v" "\<not> ?C st0" for v
    using that by (intro valid_modS) (auto simp: assigned_def split: option.splits)
  show ?thesis
    unfolding execute_assign_def
    by (rule valid_bind_inv [OF guard])
      (auto intro!: valid_bind_inv [OF run_ok [OF assms]] valid_bindS [OF set] valid_okS valid_failS vok_fail)
qed

end

interpretation rt: tree_runner "run_tree peq fs"
  "\<lambda>st. functions_wf fs \<and> eval_depth (vs_evaluator st) \<le> MAX_EVAL_DEPTH" for peq fs
proof (unfold_locales, rule valid_by_state)
  fix st0 t st
  assume g: "functions_wf fs \<and> eval_depth (vs_evaluator st0) \<le> MAX_EVAL_DEPTH" "tree_wf t" and st: "vok st0 st"
  have c: "valid (ok_rel (vs_evaluator st0)) (evaluate_tree (store_ctx peq fs st) t 0)
      (post_ok (vs_evaluator st0)) (post_fail (vs_evaluator st0))"
    using g by (intro evaluate_tree_contract) simp_all
  show "valid (\<lambda>t. t = st) (run_tree peq fs t) (\<lambda>v st. value_ok v \<and> vok st0 st) (vfail st0)"
    using validD_ok [OF c] validD_fail [OF c] st
    by (auto simp: valid_def run_tree_def vok_def vfail_def split: prod.splits outcome.splits)
qed

lemma fail_rel_inv: "fail_rel e e' \<Longrightarrow> eval_inv e \<Longrightarrow> eval_inv e'"
  by (auto simp: fail_rel_def frame_rel_def eval_inv_def)

lemma ok_rel_inv: "ok_rel e e' \<Longrightarrow> eval_inv e \<Longrightarrow> eval_inv e'"
  using fail_rel_inv ok_is_fail by blast

lemma set_global_inv: "eval_inv e \<Longrightarrow> value_ok v \<Longrightarrow> eval_inv (set_global y v e)"
  by (auto simp: eval_inv_def set_global_def Let_def locals_ok_def vals_ok_def)

lemma start_rel:
  assumes "store_inv st"
  shows "vok (snd (reset_count st)) (snd (reset_count st))"
  using assms
  by (auto simp: reset_count_def modS_def store_inv_def eval_inv_def vok_def locals_ok_def vals_ok_def
      intro!: ok_rel_refl [unfolded state_ok_def])

fun action_post :: "action \<Rightarrow> variable_store \<Rightarrow> variable_store \<Rightarrow> bool" where
  "action_post (AAssign target _) = (\<lambda>st. assigned st target)"
| "action_post _ = vok"

lemma vfail_facts:
  "vfail st f st' \<Longrightarrow> store_inv st \<Longrightarrow>
     store_inv st' \<and> vs_interner st' = vs_interner st \<and> clean f
     \<and> global_store (vs_evaluator st') = global_store (vs_evaluator st)
     \<and> undo_log (vs_evaluator st') = undo_log (vs_evaluator st)"
  by (auto simp: vfail_def store_inv_def eval_inv_def fail_rel_def frame_rel_def)

lemma vok_facts:
  "vok st st' \<Longrightarrow> store_inv st \<Longrightarrow>
     store_inv st' \<and> vs_interner st' = vs_interner st
     \<and> global_store (vs_evaluator st') = global_store (vs_evaluator st)
     \<and> undo_log (vs_evaluator st') = undo_log (vs_evaluator st)"
  by (auto simp: vok_def store_inv_def eval_inv_def ok_rel_def mid_rel_def frame_rel_def)

lemma execute_action_valid:
  assumes "functions_wf fs" "action_wf a" "store_inv st"
  shows "valid (\<lambda>t. t = st) (execute_action peq fs a)
     (\<lambda>_. action_post a (snd (reset_count st))) (vfail (snd (reset_count st)))"
proof -
  let ?s0 = "snd (reset_count st)"
  have g: "functions_wf fs \<and> eval_depth (vs_evaluator ?s0) \<le> MAX_EVAL_DEPTH"
    using assms by (simp add: reset_count_def modS_def store_inv_def eval_inv_def)
  have r: "valid (\<lambda>t. t = st) reset_count (\<lambda>_. vok ?s0) E" for E :: "fault \<Rightarrow> variable_store \<Rightarrow> bool"
    using start_rel [OF assms(3)] by (simp add: valid_def reset_count_def modS_def)
  show ?thesis
    unfolding execute_action_def
    using assms(2)
    by (intro valid_bindS [OF r], cases a)
      (auto intro!: rt.assign_ok [OF g] rt.eval_ok [OF g] rt.navigate_ok [OF g] rt.network_call_ok [OF g])
qed

section \<open>Properties\<close>


lemma store_new_inv: "store_inv store_new"
  using default_state_ok
  by (simp add: store_inv_def store_new_def eval_inv_def state_ok_def evaluator_default_def evaluator_new_def)


section \<open>Endpoint URLs\<close>

lemma hex_digit_props:
  "n < 16 \<Longrightarrow> is_unreserved (hex_digit n) \<and> hex_digit n \<noteq> CHR ''.''"
  by (auto simp: hex_digit_def is_unreserved_def numeral_eq_Suc less_Suc_eq)

lemma char_nibble [simp]: "of_char (c :: char) div 16 < (16 :: nat)"
  using nat_of_char_less_256 [of c] by (simp add: less_mult_imp_div_less)

lemma percent_encode_set: "c \<in> set (percent_encode s) \<Longrightarrow> is_unreserved c \<or> c = CHR ''%''"
  using hex_digit_props char_nibble by (induction s) (fastforce split: if_splits)+

lemma percent_encode_dots: "str_contains (percent_encode s) ''..'' \<Longrightarrow> str_contains s ''..''"
proof (induction s)
  case (Cons c s)
  have hd: "percent_encode s = CHR ''.'' # t \<Longrightarrow> \<exists>u. s = CHR ''.'' # u" for t
    by (cases s) (auto split: if_splits)
  have hx: "hex_digit (of_char c div 16) \<noteq> CHR ''.''" "hex_digit (of_char c mod 16) \<noteq> CHR ''.''"
    using hex_digit_props [of "of_char c div 16"] hex_digit_props [of "of_char c mod 16"] by auto
  show ?case
    using Cons hd hx by (auto simp: prefix_def split: if_splits)
qed simp

lemma hex_digit_inj: "m < 16 \<Longrightarrow> n < 16 \<Longrightarrow> hex_digit m = hex_digit n \<Longrightarrow> m = n"
  by (auto simp: hex_digit_def numeral_eq_Suc less_Suc_eq)

lemma percent_encode_inj: "percent_encode s = percent_encode t \<Longrightarrow> s = t"
proof (induction s arbitrary: t)
  case Nil
  then show ?case by (cases t) (auto split: if_splits)
next
  case (Cons c s)
  have pct: "\<not> is_unreserved CHR ''%''" by (simp add: is_unreserved_def)
  have chr: "c = d" if "of_char c div 16 = (of_char d div 16 :: nat)" "of_char c mod 16 = (of_char d mod 16 :: nat)" for d
  proof -
    have "of_char c = (of_char d :: nat)"
      by (metis that div_mult_mod_eq)
    then show ?thesis by (metis char_of_char)
  qed
  from Cons.prems obtain d u where t: "t = d # u" by (cases t) (auto split: if_splits)
  consider "is_unreserved c" "is_unreserved d" | "\<not> is_unreserved c" "\<not> is_unreserved d"
    using Cons.prems t pct by (auto split: if_splits)
  then show ?case
  proof cases
    case 1
    with Cons t show ?thesis by simp
  next
    case 2
    with Cons.prems t have "hex_digit (of_char c div 16) = hex_digit (of_char d div 16)"
      "hex_digit (of_char c mod 16) = hex_digit (of_char d mod 16)" "percent_encode s = percent_encode u"
      by simp_all
    with Cons.IH t chr show ?thesis by (simp add: hex_digit_inj)
  qed
qed

lemma substitute_param_split: "\<exists>before after. \<forall>pp. substitute_param base_url pp = before @ pp @ after"
proof (cases "dropWhile (\<lambda>c. c \<noteq> CHR ''{'') base_url \<noteq> []
    \<and> dropWhile (\<lambda>c. c \<noteq> CHR ''}'') (dropWhile (\<lambda>c. c \<noteq> CHR ''{'') base_url) \<noteq> []")
  case True
  then show ?thesis by (auto simp: substitute_param_def Let_def)
next
  case False
  then have "\<forall>pp. substitute_param base_url pp = (trim_end_slash base_url @ ''/'') @ pp @ []"
    by (auto simp: substitute_param_def Let_def)
  then show ?thesis by blast
qed

lemma trim_end_slash_keeps:
  assumes "h \<noteq> []" "last h \<noteq> CHR ''/''"
  shows "trim_end_slash (h @ s) = h @ trim_end_slash s"
proof -
  have "dropWhile (\<lambda>c. c = CHR ''/'') (rev s @ rev h) = dropWhile (\<lambda>c. c = CHR ''/'') (rev s) @ rev h"
  proof (cases "\<forall>c \<in> set s. c = CHR ''/''")
    case True
    then have "dropWhile (\<lambda>c. c = CHR ''/'') (rev s) = []" by simp
    moreover from True have "dropWhile (\<lambda>c. c = CHR ''/'') (rev s @ rev h) = dropWhile (\<lambda>c. c = CHR ''/'') (rev h)"
      by (intro dropWhile_append2) simp
    moreover have "dropWhile (\<lambda>c. c = CHR ''/'') (rev h) = rev h"
      using assms by (simp add: dropWhile_eq_self_iff hd_rev)
    ultimately show ?thesis by simp
  next
    case False
    then show ?thesis by (auto simp: dropWhile_append1)
  qed
  then show ?thesis by (simp add: trim_end_slash_def)
qed

lemma trim_end_slash_prefix: "prefix (trim_end_slash s) s"
proof -
  have "s = trim_end_slash s @ rev (takeWhile (\<lambda>c. c = CHR ''/'') (rev s))"
    by (simp add: trim_end_slash_def rev_append [symmetric] del: rev_append)
  then show ?thesis by (metis prefixI)
qed

text \<open>
  A path parameter is confined to the place it is substituted in. Every endpoint has a
  fixed text before and after the parameter; an accepted parameter appears there
  percent-encoded, only with unreserved characters and \<^verbatim>\<open>%\<close> (so no separator, query or
  fragment), without a \<^verbatim>\<open>..\<close>, different parameters give different URLs, and a refused
  parameter gives no URL at all.
\<close>

theorem resolve_param_confined:
  "(\<exists>before after. \<forall>pp. resolve_endpoint_url host ep (Some pp) =
       (if path_param_ok pp then Ok (before @ percent_encode pp @ after)
        else Err (ExecutionError ''path_param must be a single path segment'')))
   \<and> (\<forall>pp. (\<forall>c \<in> set (percent_encode pp). is_unreserved c \<or> c = CHR ''%'')
        \<and> (path_param_ok pp \<longrightarrow> \<not> str_contains (percent_encode pp) ''..''))
   \<and> inj percent_encode"
proof -
  obtain before after where "\<forall>pp. substitute_param (endpoint_base host ep) pp = before @ pp @ after"
    using substitute_param_split by blast
  then have "\<exists>before after. \<forall>pp. resolve_endpoint_url host ep (Some pp) =
       (if path_param_ok pp then Ok (before @ percent_encode pp @ after)
        else Err (ExecutionError ''path_param must be a single path segment''))"
    by (intro exI [of _ before] exI [of _ after]) (simp add: resolve_endpoint_url_def)
  then show ?thesis
    using percent_encode_set percent_encode_dots percent_encode_inj
    by (auto simp: path_param_ok_def inj_def)
qed

theorem resolve_param_confined_witness:
  "\<not> str_contains (percent_encode ''a b'') ''..''"
proof -
  have "path_param_ok ''a b''" by (simp add: path_param_ok_def is_ctl_def)
  then show ?thesis
    using resolve_param_confined [of "''h''" "\<lparr>ep_kind = Api, raw_target = ''/x''\<rparr>"] by blast
qed

text \<open>
  A call through an \<^verbatim>\<open>api\<close> endpoint stays on the document's own host: the URL starts with
  \<^verbatim>\<open>mizu://host/\<close> whatever the declared path and whatever the parameter.
\<close>

theorem resolve_api_on_host:
  assumes "ep_kind ep = Api" "host \<noteq> []" "CHR ''{'' \<notin> set host" "CHR ''/'' \<notin> set host"
    and "resolve_endpoint_url host ep pp = Ok url"
  shows "prefix (''mizu://'' @ host @ ''/'') url"
proof -
  let ?h = "''mizu://'' @ host"
  let ?rest = "dropWhile (\<lambda>c. c = CHR ''/'') (raw_target ep)"
  have base: "endpoint_base host ep = ?h @ ''/'' @ ?rest"
    using assms(1) by (simp add: endpoint_base_def)
  have take: "takeWhile (\<lambda>c. c \<noteq> CHR ''{'') (?h @ ''/'' @ s) = ?h @ ''/'' @ takeWhile (\<lambda>c. c \<noteq> CHR ''{'') s" for s
    using assms(3) by (induction host) auto
  have "last ?h \<noteq> CHR ''/''"
    using assms(2,4) last_in_set [OF assms(2)] by (metis last_appendR)
  then have trim: "trim_end_slash (?h @ ''/'' @ ?rest) = ?h @ trim_end_slash (''/'' @ ?rest)"
    by (intro trim_end_slash_keeps) simp_all
  have sub: "prefix (?h @ ''/'') (substitute_param (?h @ ''/'' @ ?rest) q)" for q
  proof -
    have "prefix (?h @ ''/'') (?h @ trim_end_slash (''/'' @ ?rest) @ ''/'' @ q)"
      using trim_end_slash_prefix [of "''/'' @ ?rest"] by (auto simp: prefix_Cons)
    then show ?thesis
      unfolding substitute_param_def Let_def take trim by (auto simp: prefix_def)
  qed
  have "prefix (?h @ ''/'') (endpoint_base host ep)"
    by (simp add: base)
  then show ?thesis
    using assms(5) sub [folded base]
    by (auto simp: resolve_endpoint_url_def split: option.splits if_splits)
qed

theorem resolve_api_on_host_witness:
  "prefix ''mizu://h/'' ''mizu://h/items/a%20b''"
  using resolve_api_on_host [of "\<lparr>ep_kind = Api, raw_target = ''/items/{id}''\<rparr>" "''h''" "Some ''a b''"
      "''mizu://h/items/a%20b''"]
  by (simp add: resolve_endpoint_url_def path_param_ok_def is_ctl_def endpoint_base_def substitute_param_def
      is_unreserved_def hex_digit_def)

text \<open>
  What \<^verbatim>\<open>execute_action\<close> does with a number as a path parameter: an integer is refused,
  although the error says a number is accepted, and a decimal is printed with its
  internal scale, so the whole number \<open>n\<close> held as a decimal becomes the digits of
  \<open>n * 100000000\<close>.
\<close>

theorem numeric_path_params:
  "path_param_str (VInt n) = Err (ExecutionError ''path_param must be a string or number'')
   \<and> path_param_str (VDecimal (15 * (DECIMAL_SCALE div 10))) = Ok ''150000000''"
proof -
  have "show_int (15 * (DECIMAL_SCALE div 10)) = ''150000000''"
    by (simp add: show_int_def show_nat.simps digit_char_def DECIMAL_SCALE_def char_of_def bit_0)
  moreover have "path_param_ok ''150000000''" by (simp add: path_param_ok_def is_ctl_def)
  ultimately show ?thesis by (simp add: path_param_str_def)
qed

end
