(* ===== verification/Mizu_Comp.thy ===== *)
theory Mizu_Comp
  imports Mizu_Action
begin

text \<open>
  Computed variables of \<^verbatim>\<open>parser/logic/comp.rs\<close>: the topological sort of the bindings, the
  reverse index from a symbol to the bindings that read it, and the cascade that
  re-evaluates what a mutation affects, with its two instruction pools. The full
  left-to-right scan the source keeps as its reference is modelled beside it.
\<close>

section \<open>The cascade\<close>

text \<open>The locals of the two loops: the store, the changed symbols and the two pools.\<close>

record cascade =
  cs_store :: variable_store
  cs_changed :: "symbol set"
  cs_spent_tainted :: nat
  cs_spent_untainted :: nat

definition pool_exhausted :: "bool \<Rightarrow> nat \<Rightarrow> nat \<Rightarrow> nat \<Rightarrow> bool" where
  "pool_exhausted tainted spent_tainted spent_untainted budget \<longleftrightarrow>
     (if tainted then spent_tainted else spent_untainted) > budget"

definition pool :: "computed_binding \<Rightarrow> cascade \<Rightarrow> nat" where
  "pool cb c = (if cb_tainted cb then cs_spent_tainted c else cs_spent_untainted c)"

definition bank :: "computed_binding \<Rightarrow> nat \<Rightarrow> cascade \<Rightarrow> cascade" where
  "bank cb n c = (if cb_tainted cb then c\<lparr>cs_spent_tainted := n\<rparr> else c\<lparr>cs_spent_untainted := n\<rparr>)"

definition with_count :: "nat \<Rightarrow> variable_store \<Rightarrow> variable_store" where
  "with_count n st = st\<lparr>vs_evaluator := (vs_evaluator st)\<lparr>instruction_count := n\<rparr>\<rparr>"

text \<open>
  The body both loops share: draw on the pool of the binding, evaluate, bank what was
  used, and on a value set the symbol. The flag is the result of \<^verbatim>\<open>changed.insert\<close>.
\<close>

definition recompute_one ::
  "(expr_tree \<Rightarrow> mval vcomput) \<Rightarrow> nat \<Rightarrow> computed_binding \<Rightarrow> cascade \<Rightarrow> (bool \<times> cascade) outcome" where
  "recompute_one run budget cb c =
     (if pool_exhausted (cb_tainted cb) (cs_spent_tainted c) (cs_spent_untainted c) budget then Ok (False, c)
      else case run (cb_expr cb) (with_count (pool cb c) (cs_store c)) of
        (r, st) \<Rightarrow>
          let c1 = bank cb (instruction_count (vs_evaluator st)) (c\<lparr>cs_store := st\<rparr>)
          in case r of
               Ok v \<Rightarrow> Ok (cb_name cb \<notin> cs_changed c,
                        c1\<lparr>cs_store := set_symbol (cb_name cb) v st,
                           cs_changed := insert (cb_name cb) (cs_changed c)\<rparr>)
             | Fail (Error _) \<Rightarrow> Ok (False, c1)
             | Fail e \<Rightarrow> Fail e)"

type_synonym comp_reverse_index = "symbol \<rightharpoonup> nat list"

definition index_entry :: "nat \<Rightarrow> symbol \<Rightarrow> comp_reverse_index \<Rightarrow> comp_reverse_index" where
  "index_entry i y ix = ix(y \<mapsto> (case ix y of None \<Rightarrow> [] | Some is \<Rightarrow> is) @ [i])"

definition build_comp_reverse_index :: "computed_binding list \<Rightarrow> comp_reverse_index" where
  "build_comp_reverse_index bindings =
     fold (\<lambda>(i, cb) ix. fold (index_entry i) (cb_depends_on cb) ix) (enumerate 0 bindings) Map.empty"

text \<open>The \<^verbatim>\<open>BTreeSet\<close> of candidates is an ascending list without repetition.\<close>

definition extend_candidates :: "nat list option \<Rightarrow> nat list \<Rightarrow> nat list" where
  "extend_candidates idxs cands = (case idxs of None \<Rightarrow> cands | Some is \<Rightarrow> fold insort_insert is cands)"

lemma recompute_one_changed:
  "recompute_one run budget cb c = Ok (new, c') \<Longrightarrow>
     (new \<longrightarrow> cb_name cb \<notin> cs_changed c \<and> cs_changed c' = insert (cb_name cb) (cs_changed c))
     \<and> (\<not> new \<longrightarrow> cs_changed c' = cs_changed c)"
  by (auto simp: recompute_one_def Let_def bank_def split: if_splits prod.splits outcome.splits fault.splits)

lemma cascade_progress:
  assumes "\<not> length bindings \<le> i" "recompute_one run budget (bindings ! i) c = Ok (new, c')"
  shows "(new \<longrightarrow> card (cb_name ` set bindings - cs_changed c') < card (cb_name ` set bindings - cs_changed c))
     \<and> (\<not> new \<longrightarrow> cs_changed c' = cs_changed c)"
proof -
  let ?n = "cb_name (bindings ! i)" and ?S = "cb_name ` set bindings"
  have "card (?S - cs_changed c') < card (?S - cs_changed c)" if new
  proof (rule psubset_card_mono)
    have "?n \<in> ?S" using assms(1) by simp
    then show "?S - cs_changed c' \<subset> ?S - cs_changed c"
      using recompute_one_changed [OF assms(2)] that by auto
  qed simp
  then show ?thesis using recompute_one_changed [OF assms(2)] by simp
qed

function recompute_loop ::
  "(expr_tree \<Rightarrow> mval vcomput) \<Rightarrow> nat \<Rightarrow> computed_binding list \<Rightarrow> comp_reverse_index \<Rightarrow> nat list \<Rightarrow>
   cascade \<Rightarrow> cascade outcome" where
  "recompute_loop run budget bindings ix [] c = Ok c"
| "recompute_loop run budget bindings ix (i # cands) c =
     (if i \<ge> length bindings then Fail Panic
      else if cb_depends_on (bindings ! i) \<noteq> [] \<and> \<not> list_ex (\<lambda>d. d \<in> cs_changed c) (cb_depends_on (bindings ! i))
      then recompute_loop run budget bindings ix cands c
      else case recompute_one run budget (bindings ! i) c of
             Fail e \<Rightarrow> Fail e
           | Ok (new, c') \<Rightarrow>
               recompute_loop run budget bindings ix
                 (if new then extend_candidates (ix (cb_name (bindings ! i))) cands else cands) c')"
  by pat_completeness auto

termination
  by (relation "inv_image (less_than <*lex*> less_than)
      (\<lambda>(run, budget, bindings, ix, cands, c). (card (cb_name ` set bindings - cs_changed c), length cands))")
    (auto dest: cascade_progress split: if_splits)

definition no_deps_pending :: "variable_store \<Rightarrow> computed_binding \<Rightarrow> bool" where
  "no_deps_pending st cb \<longleftrightarrow> cb_depends_on cb = [] \<and> get_global (vs_evaluator st) (cb_name cb) = VNull"

definition seed_candidates ::
  "variable_store \<Rightarrow> computed_binding list \<Rightarrow> symbol list \<Rightarrow> comp_reverse_index \<Rightarrow> nat list" where
  "seed_candidates st bindings mutated ix =
     fold insort_insert (map fst (filter (\<lambda>(i, cb). no_deps_pending st cb) (enumerate 0 bindings)))
       (fold (\<lambda>y. extend_candidates (ix y)) mutated [])"

definition cascade_start :: "variable_store \<Rightarrow> symbol list \<Rightarrow> cascade" where
  "cascade_start st mutated =
     \<lparr>cs_store = st, cs_changed = set mutated, cs_spent_tainted = 0, cs_spent_untainted = 0\<rparr>"

definition recompute_computed_bindings ::
  "(expr_tree \<Rightarrow> mval vcomput) \<Rightarrow> computed_binding list \<Rightarrow> symbol list \<Rightarrow> comp_reverse_index \<Rightarrow>
   (variable_store, symbol set) comput" where
  "recompute_computed_bindings run bindings mutated ix st =
     (if bindings = [] then (Ok (set mutated), st)
      else case recompute_loop run (max_instructions (vs_evaluator st)) bindings ix
                  (seed_candidates st bindings mutated ix) (cascade_start st mutated) of
             Ok c \<Rightarrow> (Ok (cs_changed c), cs_store c)
           | Fail e \<Rightarrow> (Fail e, st))"

section \<open>The reference scan\<close>

fun naive_scan ::
  "(expr_tree \<Rightarrow> mval vcomput) \<Rightarrow> nat \<Rightarrow> computed_binding list \<Rightarrow> cascade \<Rightarrow> cascade outcome" where
  "naive_scan run budget [] c = Ok c"
| "naive_scan run budget (cb # cbs) c =
     (if \<not> no_deps_pending (cs_store c) cb \<and> \<not> list_ex (\<lambda>d. d \<in> cs_changed c) (cb_depends_on cb)
      then naive_scan run budget cbs c
      else case recompute_one run budget cb c of
             Fail e \<Rightarrow> Fail e
           | Ok (_, c') \<Rightarrow> naive_scan run budget cbs c')"

definition recompute_computed_bindings_naive_scan ::
  "(expr_tree \<Rightarrow> mval vcomput) \<Rightarrow> computed_binding list \<Rightarrow> symbol list \<Rightarrow> (variable_store, symbol set) comput" where
  "recompute_computed_bindings_naive_scan run bindings mutated st =
     (if bindings = [] then (Ok (set mutated), st)
      else case naive_scan run (max_instructions (vs_evaluator st)) bindings (cascade_start st mutated) of
             Ok c \<Rightarrow> (Ok (cs_changed c), cs_store c)
           | Fail e \<Rightarrow> (Fail e, st))"

section \<open>The reverse index and the candidate list\<close>

text \<open>Membership in the index, with a missing key as the empty list.\<close>

definition hits :: "comp_reverse_index \<Rightarrow> symbol \<Rightarrow> nat set" where
  "hits ix y = (case ix y of None \<Rightarrow> {} | Some is \<Rightarrow> set is)"

lemma hits_entries: "hits (fold (index_entry i) ds ix) y = hits ix y \<union> (if y \<in> set ds then {i} else {})"
proof (induction ds arbitrary: ix)
  case (Cons d ds)
  have "hits (index_entry i d ix) y = hits ix y \<union> (if y = d then {i} else {})"
    by (auto simp: hits_def index_entry_def split: option.splits)
  with Cons show ?case by auto
qed simp

lemma hits_build: "hits (build_comp_reverse_index bs) y = {i. i < length bs \<and> y \<in> set (cb_depends_on (bs ! i))}"
proof -
  have "hits (fold (\<lambda>(i, cb) ix. fold (index_entry i) (cb_depends_on cb) ix) (enumerate n bs) ix) y
      = hits ix y \<union> {i. n \<le> i \<and> i < n + length bs \<and> y \<in> set (cb_depends_on (bs ! (i - n)))}" for n ix
  proof (induction bs arbitrary: n ix)
    case (Cons b bs)
    have "{i. n \<le> i \<and> i < n + length (b # bs) \<and> y \<in> set (cb_depends_on ((b # bs) ! (i - n)))}
        = (if y \<in> set (cb_depends_on b) then {n} else {})
          \<union> {i. Suc n \<le> i \<and> i < Suc n + length bs \<and> y \<in> set (cb_depends_on (bs ! (i - Suc n)))}"
      by (auto simp: nth_Cons' Suc_le_eq Suc_diff_Suc le_eq_less_or_eq)
    then show ?case by (simp add: Cons hits_entries Un_assoc)
  qed auto
  from this [of 0 Map.empty] show ?thesis
    by (simp add: build_comp_reverse_index_def hits_def)
qed

lemma insort_inserts:
  "sorted xs \<Longrightarrow> distinct xs \<Longrightarrow>
     sorted (fold insort_insert is xs) \<and> distinct (fold insort_insert is xs)
     \<and> set (fold insort_insert is xs) = set is \<union> set xs"
  by (induction "is" arbitrary: xs)
    (auto simp: sorted_insort_insert distinct_insort_insert set_insort_insert)

lemma extend_candidates_set:
  assumes "sorted xs" "distinct xs"
  shows "sorted (extend_candidates (ix y) xs) \<and> distinct (extend_candidates (ix y) xs)
     \<and> set (extend_candidates (ix y) xs) = hits ix y \<union> set xs"
  using assms insort_inserts [OF assms] by (auto simp: extend_candidates_def hits_def split: option.splits)

lemma seed_set:
  "sorted (seed_candidates st bs mutated ix) \<and> distinct (seed_candidates st bs mutated ix)
   \<and> set (seed_candidates st bs mutated ix)
     = {i. i < length bs \<and> no_deps_pending st (bs ! i)} \<union> (\<Union>y\<in>set mutated. hits ix y)"
proof -
  have m: "sorted (fold (\<lambda>y. extend_candidates (ix y)) ys xs) \<and> distinct (fold (\<lambda>y. extend_candidates (ix y)) ys xs)
      \<and> set (fold (\<lambda>y. extend_candidates (ix y)) ys xs) = (\<Union>y\<in>set ys. hits ix y) \<union> set xs"
    if "sorted xs" "distinct xs" for ys xs
    using that
  proof (induction ys arbitrary: xs)
    case (Cons y ys)
    then show ?case using extend_candidates_set [OF Cons.prems, of ix y] by auto
  qed simp
  have e: "set (map fst (filter (\<lambda>(i, cb). no_deps_pending st cb) (enumerate 0 bs)))
      = {i. i < length bs \<and> no_deps_pending st (bs ! i)}"
    by (force simp: in_set_enumerate_eq image_iff)
  show ?thesis
    using m [of "[]" mutated] unfolding seed_candidates_def
    using insort_inserts [of "fold (\<lambda>y. extend_candidates (ix y)) mutated []"] e by auto
qed

section \<open>One step of the cascade\<close>

text \<open>What a binding waits for: a changed dependency, or its first evaluation.\<close>

definition pending :: "cascade \<Rightarrow> computed_binding \<Rightarrow> bool" where
  "pending c cb \<longleftrightarrow> no_deps_pending (cs_store c) cb \<or> list_ex (\<lambda>d. d \<in> cs_changed c) (cb_depends_on cb)"

definition cascade_inv :: "nat \<Rightarrow> cascade \<Rightarrow> bool" where
  "cascade_inv budget c \<longleftrightarrow> store_inv (cs_store c) \<and> max_instructions (vs_evaluator (cs_store c)) = budget
     \<and> cs_spent_tainted c \<le> u64_max \<and> cs_spent_untainted c \<le> u64_max"

lemma with_count_sel [simp]:
  "vs_interner (with_count n st) = vs_interner st"
  "instruction_count (vs_evaluator (with_count n st)) = n"
  "global_store (vs_evaluator (with_count n st)) = global_store (vs_evaluator st)"
  "max_instructions (vs_evaluator (with_count n st)) = max_instructions (vs_evaluator st)"
  "eval_depth (vs_evaluator (with_count n st)) = eval_depth (vs_evaluator st)"
  by (simp_all add: with_count_def)

lemma with_count_inv: "store_inv (with_count n st) \<longleftrightarrow> store_inv st"
  by (auto simp: with_count_def store_inv_def eval_inv_def locals_ok_def vals_ok_def)

lemma set_symbol_sel [simp]:
  "vs_interner (set_symbol y v st) = vs_interner st"
  "global_store (vs_evaluator (set_symbol y v st)) = (global_store (vs_evaluator st))(y \<mapsto> v)"
  "max_instructions (vs_evaluator (set_symbol y v st)) = max_instructions (vs_evaluator st)"
  "eval_depth (vs_evaluator (set_symbol y v st)) = eval_depth (vs_evaluator st)"
  by (simp_all add: set_symbol_def set_global_def Let_def)

lemma set_symbol_inv: "store_inv st \<Longrightarrow> value_ok v \<Longrightarrow> store_inv (set_symbol y v st)"
  by (simp add: store_inv_def set_symbol_def set_global_inv)

lemma inv_vok_refl:
  "store_inv st \<Longrightarrow> instruction_count (vs_evaluator st) \<le> max_instructions (vs_evaluator st) \<Longrightarrow> vok st st"
  by (auto simp: store_inv_def eval_inv_def vok_def intro!: ok_rel_refl [unfolded state_ok_def])

locale cascade_runner = tree_runner +
  assumes good_depth: "good st \<Longrightarrow> eval_depth (vs_evaluator st') = eval_depth (vs_evaluator st) \<Longrightarrow> good st'"
begin

lemma run_cases:
  assumes "good st" "store_inv st" "instruction_count (vs_evaluator st) \<le> max_instructions (vs_evaluator st)"
    and "tree_wf t" "run t st = (r, st')"
  shows "(case r of Ok v \<Rightarrow> value_ok v | Fail e \<Rightarrow> clean e) \<and> store_inv st' \<and> good st'
     \<and> vs_interner st' = vs_interner st
     \<and> global_store (vs_evaluator st') = global_store (vs_evaluator st)
     \<and> max_instructions (vs_evaluator st') = max_instructions (vs_evaluator st)
     \<and> instruction_count (vs_evaluator st) \<le> instruction_count (vs_evaluator st')
     \<and> instruction_count (vs_evaluator st') \<le> u64_max"
proof -
  note v = run_ok [OF assms(1,4)]
  note st = inv_vok_refl [OF assms(2,3)]
  have f: "frame_rel (vs_evaluator st) (vs_evaluator st')" and i: "vs_interner st' = vs_interner st"
    and k: "case r of Ok v \<Rightarrow> value_ok v | Fail e \<Rightarrow> clean e" and inv: "store_inv st'"
    using validD_ok [OF v st] validD_fail [OF v st] assms(2,5)
    by (cases r; force simp: vok_def vfail_def ok_rel_def mid_rel_def fail_rel_def frame_rel_def store_inv_def
        eval_inv_def)+
  moreover have "good st'" using f assms(1) by (auto simp: frame_rel_def intro: good_depth)
  ultimately show ?thesis by (auto simp: frame_rel_def)
qed

lemma recompute_one_spec:
  assumes "cascade_inv budget c" "good (cs_store c)" "tree_wf (cb_expr cb)"
  obtains new c' where "recompute_one run budget cb c = Ok (new, c')" "cascade_inv budget c'" "good (cs_store c')"
    "\<And>y. y \<noteq> cb_name cb \<Longrightarrow>
       global_store (vs_evaluator (cs_store c')) y = global_store (vs_evaluator (cs_store c)) y"
proof (cases "pool_exhausted (cb_tainted cb) (cs_spent_tainted c) (cs_spent_untainted c) budget")
  case True
  then have "recompute_one run budget cb c = Ok (False, c)" by (simp add: recompute_one_def)
  then show ?thesis using assms by (intro that) auto
next
  case False
  let ?st = "with_count (pool cb c) (cs_store c)"
  obtain r st where r: "run (cb_expr cb) ?st = (r, st)" by fastforce
  have "pool cb c \<le> max_instructions (vs_evaluator (cs_store c))"
    using False assms(1) by (auto simp: pool_exhausted_def pool_def cascade_inv_def)
  moreover have "good ?st" using assms(2) by (rule good_depth) simp
  ultimately have s: "(case r of Ok v \<Rightarrow> value_ok v | Fail e \<Rightarrow> clean e)" "store_inv st" "good st"
    "global_store (vs_evaluator st) = global_store (vs_evaluator (cs_store c))"
    "max_instructions (vs_evaluator st) = max_instructions (vs_evaluator (cs_store c))"
    "instruction_count (vs_evaluator st) \<le> u64_max"
    using run_cases [OF _ _ _ assms(3) r] assms(1) by (auto simp: with_count_inv cascade_inv_def)
  let ?c1 = "bank cb (instruction_count (vs_evaluator st)) (c\<lparr>cs_store := st\<rparr>)"
  have c1: "cascade_inv budget ?c1" "good (cs_store ?c1)"
    using s assms(1) by (auto simp: cascade_inv_def bank_def)
  show ?thesis
  proof (cases r)
    case (Ok v)
    let ?c2 = "?c1\<lparr>cs_store := set_symbol (cb_name cb) v st, cs_changed := insert (cb_name cb) (cs_changed c)\<rparr>"
    have "cascade_inv budget ?c2" "good (cs_store ?c2)"
      using c1 s Ok good_depth [OF s(3)] by (auto simp: cascade_inv_def bank_def set_symbol_inv)
    moreover have "recompute_one run budget cb c = Ok (cb_name cb \<notin> cs_changed c, ?c2)"
      using False r Ok by (simp add: recompute_one_def Let_def)
    ultimately show ?thesis
      using s(4) by (intro that [of _ ?c2]) auto
  next
    case (Fail e)
    then have "recompute_one run budget cb c = Ok (False, ?c1)"
      using s(1) False r by (auto simp: recompute_one_def Let_def clean_def)
    from that [OF this c1] show ?thesis using s(4) by (simp add: bank_def)
  qed
qed

lemma scan_from:
  assumes topo: "\<And>i j. i < length bs \<Longrightarrow> j < length bs \<Longrightarrow> cb_name (bs ! i) \<in> set (cb_depends_on (bs ! j)) \<Longrightarrow> i < j"
    and dist: "distinct (map cb_name bs)" and wf: "list_all (\<lambda>cb. tree_wf (cb_expr cb)) bs"
    and "k \<le> length bs" "cascade_inv budget c" "good (cs_store c)"
  shows "recompute_loop run budget bs (build_comp_reverse_index bs)
      (filter (\<lambda>j. pending c (bs ! j)) [k..<length bs]) c = naive_scan run budget (drop k bs) c
    \<and> is_ok (naive_scan run budget (drop k bs) c)"
  using assms(4-6)
proof (induction "length bs - k" arbitrary: k c)
  case 0
  then show ?case by simp
next
  case (Suc m)
  let ?cb = "bs ! k"
  let ?ix = "build_comp_reverse_index bs"
  have k: "k < length bs" using Suc by simp
  have upt: "[k..<length bs] = k # [Suc k..<length bs]" and dr: "drop k bs = ?cb # drop (Suc k) bs"
    using k by (simp_all add: upt_conv_Cons Cons_nth_drop_Suc)
  show ?case
  proof (cases "pending c ?cb")
    case False
    then show ?thesis
      using Suc k by (simp add: upt dr) (auto simp: pending_def)
  next
    case True
    have "tree_wf (cb_expr ?cb)" using wf k by (simp add: list_all_length)
    then obtain new c' where one: "recompute_one run budget ?cb c = Ok (new, c')"
      and inv: "cascade_inv budget c'" "good (cs_store c')"
      and frame: "\<And>y. y \<noteq> cb_name ?cb \<Longrightarrow>
        global_store (vs_evaluator (cs_store c')) y = global_store (vs_evaluator (cs_store c)) y"
      using recompute_one_spec [OF Suc.prems(2,3)] by metis
    have nodep: "no_deps_pending (cs_store c') (bs ! j) = no_deps_pending (cs_store c) (bs ! j)"
      if "k < j" "j < length bs" for j
    proof -
      have "cb_name (bs ! j) \<noteq> cb_name ?cb"
        using nth_eq_iff_index_eq [OF dist, of j k] that k by simp
      then show ?thesis using frame by (simp add: no_deps_pending_def get_global_def)
    qed
    have ch: "cs_changed c' = (if new then insert (cb_name ?cb) (cs_changed c) else cs_changed c)"
      using recompute_one_changed [OF one] by auto
    let ?rest = "filter (\<lambda>j. pending c (bs ! j)) [Suc k..<length bs]"
    have cands: "(if new then extend_candidates (?ix (cb_name ?cb)) ?rest else ?rest)
        = filter (\<lambda>j. pending c' (bs ! j)) [Suc k..<length bs]"
    proof (rule sorted_distinct_set_unique)
      have "sorted ?rest" "distinct ?rest" by (simp_all add: sorted_wrt_filter)
      note e = extend_candidates_set [OF this, of ?ix "cb_name ?cb"]
      show "sorted (if new then extend_candidates (?ix (cb_name ?cb)) ?rest else ?rest)"
        "distinct (if new then extend_candidates (?ix (cb_name ?cb)) ?rest else ?rest)"
        using e \<open>sorted ?rest\<close> by simp_all
      have hits: "hits ?ix (cb_name ?cb) = {j. k < j \<and> j < length bs \<and> cb_name ?cb \<in> set (cb_depends_on (bs ! j))}"
        using topo [OF k] by (auto simp: hits_build)
      show "set (if new then extend_candidates (?ix (cb_name ?cb)) ?rest else ?rest)
          = set (filter (\<lambda>j. pending c' (bs ! j)) [Suc k..<length bs])"
        using e hits nodep ch by (auto simp: pending_def list_ex_iff)
    qed (simp_all add: sorted_wrt_filter)
    have "m = length bs - Suc k" "Suc k \<le> length bs" using Suc k by simp_all
    note IH = Suc.hyps(1) [OF this inv]
    have guard: "\<not> (cb_depends_on ?cb \<noteq> [] \<and> \<not> list_ex (\<lambda>d. d \<in> cs_changed c) (cb_depends_on ?cb))"
      using True by (auto simp: pending_def no_deps_pending_def)
    have "naive_scan run budget (drop k bs) c = naive_scan run budget (drop (Suc k) bs) c'"
      using True one by (auto simp: dr pending_def)
    moreover have "recompute_loop run budget bs ?ix (k # ?rest) c
        = recompute_loop run budget bs ?ix (filter (\<lambda>j. pending c' (bs ! j)) [Suc k..<length bs]) c'"
      using k one cands by (simp only: recompute_loop.simps(2) guard) simp
    ultimately show ?thesis using IH True by (simp add: upt)
  qed
qed

end

interpretation cr: cascade_runner "run_tree peq fs"
  "\<lambda>st. functions_wf fs \<and> eval_depth (vs_evaluator st) \<le> MAX_EVAL_DEPTH" for peq fs
  by unfold_locales simp

section \<open>Properties\<close>

definition bindings_wf :: "computed_binding list \<Rightarrow> bool" where
  "bindings_wf bs \<longleftrightarrow> distinct (map cb_name bs) \<and> list_all (\<lambda>cb. tree_wf (cb_expr cb)) bs"

text \<open>Dependencies stand before their dependents.\<close>

definition topo_sorted :: "computed_binding list \<Rightarrow> bool" where
  "topo_sorted bs \<longleftrightarrow> (\<forall>j < length bs. \<forall>i < length bs. cb_name (bs ! i) \<in> set (cb_depends_on (bs ! j)) \<longrightarrow> i < j)"

lemma recompute_is_scan:
  assumes "functions_wf fs" "bindings_wf bs" "topo_sorted bs" "store_inv st"
  shows "recompute_computed_bindings (run_tree peq fs) bs mutated (build_comp_reverse_index bs) st
     = recompute_computed_bindings_naive_scan (run_tree peq fs) bs mutated st
     \<and> is_ok (fst (recompute_computed_bindings (run_tree peq fs) bs mutated (build_comp_reverse_index bs) st))"
proof -
  let ?c = "cascade_start st mutated" and ?ix = "build_comp_reverse_index bs"
  have seed: "seed_candidates st bs mutated ?ix = filter (\<lambda>j. pending ?c (bs ! j)) [0..<length bs]"
  proof (rule sorted_distinct_set_unique)
    show "set (seed_candidates st bs mutated ?ix) = set (filter (\<lambda>j. pending ?c (bs ! j)) [0..<length bs])"
      using seed_set [of st bs mutated ?ix] by (auto simp: hits_build pending_def cascade_start_def list_ex_iff)
  qed (use seed_set in \<open>simp_all add: sorted_wrt_filter\<close>)
  have "cascade_inv (max_instructions (vs_evaluator st)) ?c"
    using assms(4) by (simp add: cascade_inv_def cascade_start_def)
  moreover have "functions_wf fs \<and> eval_depth (vs_evaluator (cs_store ?c)) \<le> MAX_EVAL_DEPTH"
    using assms(1,4) by (simp add: cascade_start_def store_inv_def eval_inv_def)
  ultimately have "recompute_loop (run_tree peq fs) (max_instructions (vs_evaluator st)) bs ?ix
      (seed_candidates st bs mutated ?ix) ?c = naive_scan (run_tree peq fs) (max_instructions (vs_evaluator st)) bs ?c
    \<and> is_ok (naive_scan (run_tree peq fs) (max_instructions (vs_evaluator st)) bs ?c)"
    using cr.scan_from [of bs 0 "max_instructions (vs_evaluator st)" ?c fs peq] assms(2,3)
    by (auto simp: seed bindings_wf_def topo_sorted_def)
  then show ?thesis
    by (auto simp: recompute_computed_bindings_def recompute_computed_bindings_naive_scan_def split: outcome.splits)
qed

text \<open>
  (C18) The incremental recomputation through the reverse index does exactly what the full
  scan over all bindings does: the same changed symbols and the same store, the
  instruction counts and the queued actions included, and it always returns. The bindings have distinct names
  and are topologically sorted.
\<close>

theorem recompute_matches_scan:
  assumes "functions_wf fs" "bindings_wf bs" "topo_sorted bs" "store_inv st"
  shows "recompute_computed_bindings (run_tree peq fs) bs mutated (build_comp_reverse_index bs) st
     = recompute_computed_bindings_naive_scan (run_tree peq fs) bs mutated st
     \<and> is_ok (fst (recompute_computed_bindings (run_tree peq fs) bs mutated (build_comp_reverse_index bs) st))"
  by (rule recompute_is_scan [OF assms])

theorem recompute_matches_scan_witness:
  "is_ok (fst (recompute_computed_bindings (run_tree (\<lambda>_ _. False) Map.empty)
     [\<lparr>cb_name = 1, cb_expr = \<lparr>tree_arena = \<lparr>nodes = [EVariable 0], args_pool = []\<rparr>, tree_root = 0\<rparr>,
        cb_depends_on = [0], cb_tainted = False\<rparr>]
     [0] (build_comp_reverse_index
     [\<lparr>cb_name = 1, cb_expr = \<lparr>tree_arena = \<lparr>nodes = [EVariable 0], args_pool = []\<rparr>, tree_root = 0\<rparr>,
        cb_depends_on = [0], cb_tainted = False\<rparr>]) store_new))"
  by (rule recompute_matches_scan [THEN conjunct2])
    (simp_all add: functions_wf_def bindings_wf_def topo_sorted_def store_new_inv wf_defs)

end
