(* ===== verification/Mizu_Topo.thy ===== *)
theory Mizu_Topo
  imports Mizu_Comp
begin

text \<open>
  \<^verbatim>\<open>topo_sort_computed\<close> of \<^verbatim>\<open>parser/logic/comp.rs\<close>: Kahn's algorithm over the bindings, with
  the queue, the in-degree vector and the adjacency vectors of the source. A decrement
  below zero and an index out of bounds are panics of the model, shown not to happen.
\<close>

section \<open>The algorithm\<close>

definition comp_index :: "computed_binding list \<Rightarrow> symbol \<rightharpoonup> nat" where
  "comp_index bs = map_of (rev (zip (map cb_name bs) [0..<length bs]))"

fun add_edges ::
  "(symbol \<rightharpoonup> nat) \<Rightarrow> nat \<Rightarrow> symbol list \<Rightarrow> nat list \<times> nat list list \<Rightarrow> nat list \<times> nat list list" where
  "add_edges ix i [] (deg, dependents) = (deg, dependents)"
| "add_edges ix i (d # ds) (deg, dependents) =
     (case ix d of
        None \<Rightarrow> add_edges ix i ds (deg, dependents)
      | Some j \<Rightarrow> add_edges ix i ds (deg[i := deg ! i + 1], dependents[j := dependents ! j @ [i]]))"

definition build_graph :: "computed_binding list \<Rightarrow> nat list \<times> nat list list" where
  "build_graph bs =
     fold (\<lambda>(i, cb). add_edges (comp_index bs) i (cb_depends_on cb)) (enumerate 0 bs)
       (replicate (length bs) 0, replicate (length bs) [])"

fun relax :: "nat list \<Rightarrow> nat list \<Rightarrow> nat list \<Rightarrow> (nat list \<times> nat list) outcome" where
  "relax [] deg queue = Ok (deg, queue)"
| "relax (j # js) deg queue =
     (if j \<ge> length deg \<or> deg ! j = 0 then Fail Panic
      else relax js (deg[j := deg ! j - 1]) (if deg ! j - 1 = 0 then queue @ [j] else queue))"

lemma sum_list_decrement:
  "j < length xs \<Longrightarrow> xs ! j \<noteq> (0::nat) \<Longrightarrow> Suc (sum_list (xs[j := xs ! j - 1])) = sum_list xs"
  by (induction xs arbitrary: j) (auto simp: nth_Cons' list_update_code split: nat.splits)

lemma relax_measure:
  "relax js deg queue = Ok (deg', queue') \<Longrightarrow> sum_list deg' + length queue' \<le> sum_list deg + length queue"
proof (induction js deg queue rule: relax.induct)
  case (2 j js deg queue)
  then have j: "\<not> (j \<ge> length deg \<or> deg ! j = 0)" by (metis outcome.distinct(1) relax.simps(2))
  then have "Suc (sum_list (deg[j := deg ! j - 1])) = sum_list deg"
    by (intro sum_list_decrement) auto
  moreover have "relax js (deg[j := deg ! j - 1]) (if deg ! j - 1 = 0 then queue @ [j] else queue) = Ok (deg', queue')"
    using 2(2) j by (simp only: relax.simps if_False)
  ultimately show ?case using 2(1) [OF j] by (fastforce split: if_splits)
qed simp

function kahn_loop :: "nat list list \<Rightarrow> nat list \<Rightarrow> nat list \<Rightarrow> nat list \<Rightarrow> nat list outcome" where
  "kahn_loop dependents deg [] order = Ok order"
| "kahn_loop dependents deg (i # queue) order =
     (if i \<ge> length dependents then Fail Panic
      else case relax (dependents ! i) deg queue of
             Fail e \<Rightarrow> Fail e
           | Ok (deg', queue') \<Rightarrow> kahn_loop dependents deg' queue' (order @ [i]))"
  by pat_completeness auto

termination
  by (relation "measure (\<lambda>(dependents, deg, queue, order). sum_list deg + length queue)")
    (auto dest: relax_measure)

fun take_items :: "nat list \<Rightarrow> 'a option list \<Rightarrow> 'a list outcome" where
  "take_items [] items = Ok []"
| "take_items (i # order) items =
     (if i \<ge> length items then Fail Panic
      else case items ! i of
             None \<Rightarrow> take_items order items
           | Some cb \<Rightarrow> bindO (take_items order (items[i := None])) (\<lambda>rest. Ok (cb # rest)))"

definition topo_sort_computed :: "computed_binding list \<Rightarrow> computed_binding list outcome" where
  "topo_sort_computed bs =
     (if bs = [] then Ok bs
      else case build_graph bs of (deg, dependents) \<Rightarrow>
        bindO (kahn_loop dependents deg (filter (\<lambda>i. deg ! i = 0) [0..<length bs]) []) (\<lambda>order.
          if length order \<noteq> length bs then Err (ParseError ''computed variable cycle detected'')
          else take_items order (map Some bs)))"

section \<open>The graph\<close>

text \<open>The dependencies of one binding that point at another, and at any.\<close>

definition dep_count :: "(symbol \<rightharpoonup> nat) \<Rightarrow> nat \<Rightarrow> symbol list \<Rightarrow> nat" where
  "dep_count ix j ds = length (filter (\<lambda>d. ix d = Some j) ds)"

definition dep_total :: "(symbol \<rightharpoonup> nat) \<Rightarrow> symbol list \<Rightarrow> nat" where
  "dep_total ix ds = length (filter (\<lambda>d. ix d \<noteq> None) ds)"

lemma dep_total_sum:
  "(\<And>d j. ix d = Some j \<Longrightarrow> j < n) \<Longrightarrow> dep_total ix ds = (\<Sum>j<n. dep_count ix j ds)"
proof (induction ds)
  case (Cons d ds)
  show ?case
  proof (cases "ix d")
    case None
    with Cons show ?thesis by (simp add: dep_total_def dep_count_def)
  next
    case (Some k)
    with Cons.prems have k: "k < n" by blast
    have "(\<Sum>j<n. dep_count ix j (d # ds)) = (\<Sum>j<n. dep_count ix j ds + (if j = k then 1 else 0))"
      using Some by (intro sum.cong) (auto simp: dep_count_def)
    also have "\<dots> = (\<Sum>j<n. dep_count ix j ds) + 1" using k by (simp add: sum.distrib)
    finally show ?thesis using Cons Some by (simp add: dep_total_def)
  qed
qed (simp add: dep_total_def dep_count_def)

definition graph_is :: "(symbol \<rightharpoonup> nat) \<Rightarrow> (nat \<Rightarrow> symbol list) \<Rightarrow> nat \<Rightarrow> nat list \<times> nat list list \<Rightarrow> bool" where
  "graph_is ix deps n g \<longleftrightarrow> length (fst g) = n \<and> length (snd g) = n
     \<and> (\<forall>i < n. fst g ! i = dep_total ix (deps i))
     \<and> (\<forall>j < n. \<forall>i. count_list (snd g ! j) i = dep_count ix j (deps i))"

lemma add_edges_graph:
  assumes "graph_is ix deps n g" "i < n" "\<And>d j. ix d = Some j \<Longrightarrow> j < n"
  shows "graph_is ix (deps(i := deps i @ ds)) n (add_edges ix i ds g)"
  using assms(1)
proof (induction ds arbitrary: deps g)
  case Nil
  then show ?case by (cases g) simp
next
  case (Cons d ds)
  obtain deg dp where g: "g = (deg, dp)" by fastforce
  let ?deps = "deps(i := deps i @ [d])"
  let ?g = "case ix d of None \<Rightarrow> g | Some j \<Rightarrow> (deg[i := deg ! i + 1], dp[j := dp ! j @ [i]])"
  have "graph_is ix ?deps n ?g"
  proof (cases "ix d")
    case None
    with Cons.prems show ?thesis by (simp add: graph_is_def dep_total_def dep_count_def)
  next
    case (Some j)
    then have "j < n" using assms(3) by blast
    with Cons.prems Some g assms(2) show ?thesis
      by (auto simp: graph_is_def dep_total_def dep_count_def nth_list_update)
  qed
  then have "graph_is ix (?deps(i := ?deps i @ ds)) n (add_edges ix i ds ?g)" by (rule Cons.IH)
  moreover have "?deps(i := ?deps i @ ds) = deps(i := deps i @ d # ds)" by auto
  ultimately have "graph_is ix (deps(i := deps i @ d # ds)) n (add_edges ix i ds ?g)" by (simp only:)
  then show ?case unfolding g by (cases "ix d") (simp_all only: add_edges.simps option.case)
qed

lemma build_graph_is:
  assumes "\<And>d j. comp_index bs d = Some j \<Longrightarrow> j < length bs"
  shows "graph_is (comp_index bs) (\<lambda>i. if i < length bs then cb_depends_on (bs ! i) else []) (length bs) (build_graph bs)"
proof -
  let ?ix = "comp_index bs" and ?n = "length bs"
  let ?deps = "\<lambda>k i. if i < k then cb_depends_on (bs ! i) else []"
  have "graph_is ?ix (?deps k) ?n
      (fold (\<lambda>(i, cb). add_edges ?ix i (cb_depends_on cb)) (enumerate 0 (take k bs))
        (replicate ?n 0, replicate ?n []))" if "k \<le> ?n" for k
    using that
  proof (induction k)
    case 0
    show ?case by (simp add: graph_is_def dep_total_def dep_count_def)
  next
    case (Suc k)
    have "?deps (Suc k) = (?deps k)(k := ?deps k k @ cb_depends_on (bs ! k))" by auto
    moreover have "enumerate 0 (take (Suc k) bs) = enumerate 0 (take k bs) @ [(k, bs ! k)]"
      using Suc.prems by (simp add: take_Suc_conv_app_nth enumerate_append_eq)
    ultimately show ?case
      using Suc add_edges_graph [where deps = "?deps k" and i = k and ds = "cb_depends_on (bs ! k)" and ix = ?ix and n = ?n]
        assms by simp
  qed
  from this [of ?n] show ?thesis by (simp add: build_graph_def)
qed

section \<open>The loop\<close>

lemma relax_spec:
  assumes "\<And>j. j \<in> set js \<Longrightarrow> j < length deg" "\<And>j. count_list js j \<le> deg ! j \<or> j \<ge> length deg"
  shows "\<exists>deg' new. relax js deg queue = Ok (deg', queue @ new) \<and> length deg' = length deg
     \<and> (\<forall>j < length deg. deg' ! j = deg ! j - count_list js j) \<and> distinct new
     \<and> set new = {j. j < length deg \<and> deg ! j \<noteq> 0 \<and> deg ! j = count_list js j}"
  using assms
proof (induction js arbitrary: deg queue)
  case Nil
  then show ?case by auto
next
  case (Cons j js)
  have j: "j < length deg" "deg ! j \<noteq> 0"
    using Cons.prems(1) [of j] Cons.prems(2) [of j] by auto
  let ?deg = "deg[j := deg ! j - 1]" and ?q = "if deg ! j - 1 = 0 then queue @ [j] else queue"
  have "\<And>k. count_list js k \<le> ?deg ! k \<or> k \<ge> length ?deg"
  proof -
    fix k show "count_list js k \<le> ?deg ! k \<or> k \<ge> length ?deg"
      using Cons.prems(2) [of k] j by (cases "k = j") auto
  qed
  then obtain deg' new where n: "relax js ?deg ?q = Ok (deg', ?q @ new)" "length deg' = length deg"
    "\<forall>k < length deg. deg' ! k = ?deg ! k - count_list js k" "distinct new"
    "set new = {k. k < length deg \<and> ?deg ! k \<noteq> 0 \<and> ?deg ! k = count_list js k}"
    using Cons.IH [of ?deg ?q] Cons.prems(1) by auto
  let ?new = "if deg ! j - 1 = 0 then j # new else new"
  have cj: "deg ! j = 1 \<Longrightarrow> count_list js j = 0" using Cons.prems(2) [of j] j by auto
  have "set ?new = {k. k < length deg \<and> deg ! k \<noteq> 0 \<and> deg ! k = count_list (j # js) k}"
  proof (intro set_eqI)
    fix k
    have "k \<in> set new \<longleftrightarrow> k < length deg \<and> ?deg ! k \<noteq> 0 \<and> ?deg ! k = count_list js k"
      by (simp add: n(5))
    moreover have "?deg ! k = (if k = j then deg ! j - 1 else deg ! k)" using j by simp
    moreover have "k \<in> set ?new \<longleftrightarrow> (k = j \<and> deg ! j - 1 = 0) \<or> k \<in> set new" by simp
    ultimately show "k \<in> set ?new \<longleftrightarrow> k \<in> {k. k < length deg \<and> deg ! k \<noteq> 0 \<and> deg ! k = count_list (j # js) k}"
      using j cj by (cases "k = j") (simp_all, arith)
  qed
  moreover have "distinct ?new" using n(4) j by (simp add: n(5))
  moreover have "relax (j # js) deg queue = Ok (deg', queue @ ?new)" using n(1) j by auto
  moreover have "\<forall>k < length deg. deg' ! k = deg ! k - count_list (j # js) k"
    using n(3) j by (auto simp: nth_list_update)
  ultimately show ?case using n(2) by blast
qed

text \<open>
  The state of the loop: each in-degree counts the edges from the nodes not yet in the
  order, the nodes ordered or queued are those of in-degree zero, and every node of the
  order stands behind its predecessors.
\<close>

definition kahn_inv :: "nat \<Rightarrow> nat list list \<Rightarrow> nat list \<Rightarrow> nat list \<Rightarrow> nat list \<Rightarrow> bool" where
  "kahn_inv n g deg queue order \<longleftrightarrow> length g = n \<and> length deg = n
     \<and> (\<forall>j < n. set (g ! j) \<subseteq> {..<n})
     \<and> distinct (order @ queue) \<and> set (order @ queue) \<subseteq> {..<n}
     \<and> (\<forall>i < n. deg ! i = (\<Sum>j \<in> {..<n} - set order. count_list (g ! j) i))
     \<and> (\<forall>i < n. deg ! i = 0 \<longleftrightarrow> i \<in> set (order @ queue))
     \<and> (\<forall>xs i ys. order = xs @ i # ys \<longrightarrow> (\<forall>j < n. i \<in> set (g ! j) \<longrightarrow> j \<in> set xs))"

lemma kahn_step:
  assumes inv: "kahn_inv n g deg (i # queue) order"
  shows "i < n \<and> (\<exists>deg' queue'. relax (g ! i) deg queue = Ok (deg', queue') \<and> kahn_inv n g deg' queue' (order @ [i]))"
proof -
  have i: "i < n" "i \<notin> set order" and len: "length deg = n" "length g = n"
    and sub: "\<And>j. j < n \<Longrightarrow> set (g ! j) \<subseteq> {..<n}"
    and deg: "\<And>k. k < n \<Longrightarrow> deg ! k = (\<Sum>j \<in> {..<n} - set order. count_list (g ! j) k)"
    and zero: "\<And>k. k < n \<Longrightarrow> deg ! k = 0 \<longleftrightarrow> k \<in> set (order @ i # queue)"
    and ord: "\<And>xs k ys j. order = xs @ k # ys \<Longrightarrow> j < n \<Longrightarrow> k \<in> set (g ! j) \<Longrightarrow> j \<in> set xs"
    using inv by (auto simp: kahn_inv_def)
  have split: "deg ! k = count_list (g ! i) k + (\<Sum>j \<in> {..<n} - set (order @ [i]). count_list (g ! j) k)" if "k < n" for k
  proof -
    have "{..<n} - set (order @ [i]) = {..<n} - set order - {i}" by auto
    then show ?thesis
      using deg [OF that] sum.remove [of "{..<n} - set order" i "\<lambda>j. count_list (g ! j) k"] i by simp
  qed
  obtain deg' new where r: "relax (g ! i) deg queue = Ok (deg', queue @ new)" "length deg' = n"
    "\<And>k. k < n \<Longrightarrow> deg' ! k = deg ! k - count_list (g ! i) k" "distinct new"
    "set new = {k. k < n \<and> deg ! k \<noteq> 0 \<and> deg ! k = count_list (g ! i) k}"
  proof -
    have "\<And>k. k \<in> set (g ! i) \<Longrightarrow> k < length deg" using sub [OF i(1)] len by auto
    moreover have "\<And>k. count_list (g ! i) k \<le> deg ! k \<or> k \<ge> length deg" using split len by (metis le_add1 not_le)
    ultimately show ?thesis using relax_spec [of "g ! i" deg queue] len that by auto
  qed
  have preds: "j \<in> set order" if "j < n" "i \<in> set (g ! j)" for j
  proof (rule ccontr)
    assume "j \<notin> set order"
    then have "count_list (g ! j) i \<le> deg ! i"
      using that i by (simp add: deg) (rule member_le_sum [of j _ "\<lambda>j. count_list (g ! j) i"], auto)
    moreover have "deg ! i = 0" using zero [OF i(1)] by simp
    ultimately show False using that(2) by (simp add: count_list_0_iff)
  qed
  have "kahn_inv n g deg' (queue @ new) (order @ [i])"
    unfolding kahn_inv_def
  proof (intro conjI)
    show "distinct ((order @ [i]) @ queue @ new)"
    proof -
      have "k \<notin> set new" if "k \<in> set (order @ i # queue)" for k
      proof
        assume "k \<in> set new"
        then have "k < n" "deg ! k \<noteq> 0" unfolding r(5) by simp_all
        with zero [of k] that show False by simp
      qed
      then have "set new \<inter> set (order @ i # queue) = {}" by blast
      moreover have "distinct (order @ i # queue)" using inv by (simp add: kahn_inv_def)
      ultimately show ?thesis using r(4) by (simp only: distinct_append distinct.simps set_append list.set append_assoc append.simps) blast
    qed
    show "set ((order @ [i]) @ queue @ new) \<subseteq> {..<n}"
    proof -
      have "set (order @ i # queue) \<subseteq> {..<n}" using inv unfolding kahn_inv_def by blast
      moreover have "set new \<subseteq> {..<n}" unfolding r(5) by auto
      ultimately show ?thesis by auto
    qed
    show deg': "\<forall>k < n. deg' ! k = (\<Sum>j \<in> {..<n} - set (order @ [i]). count_list (g ! j) k)"
      using r(3) split by simp
    show "\<forall>k < n. (deg' ! k = 0) = (k \<in> set ((order @ [i]) @ queue @ new))"
    proof (intro allI impI)
      fix k assume k: "k < n"
      obtain t where "deg ! k = count_list (g ! i) k + t" using split [OF k] by blast
      then have "deg' ! k = 0 \<longleftrightarrow> deg ! k = 0 \<or> (deg ! k \<noteq> 0 \<and> deg ! k = count_list (g ! i) k)"
        using r(3) [OF k] by arith
      then show "(deg' ! k = 0) = (k \<in> set ((order @ [i]) @ queue @ new))"
        using zero [OF k] k by (auto simp: r(5))
    qed
    show "\<forall>xs k ys. order @ [i] = xs @ k # ys \<longrightarrow> (\<forall>j < n. k \<in> set (g ! j) \<longrightarrow> j \<in> set xs)"
      using ord preds by (metis append1_eq_conv append_butlast_last_id butlast.simps(2) butlast_append last_appendR last_snoc
          butlast_snoc list.distinct(1) last.simps)
  qed (use r(2) len sub in auto)
  then show ?thesis using i r(1) by blast
qed

lemma kahn_loop_spec:
  "kahn_inv n g deg queue order \<Longrightarrow>
     \<exists>deg' order'. kahn_loop g deg queue order = Ok order' \<and> kahn_inv n g deg' [] order'"
proof (induction g deg queue order rule: kahn_loop.induct)
  case (2 g deg i queue order)
  then have len: "length g = n" by (simp add: kahn_inv_def)
  obtain deg' queue' where "i < n" "relax (g ! i) deg queue = Ok (deg', queue')" "kahn_inv n g deg' queue' (order @ [i])"
    using kahn_step [OF 2(2)] by blast
  with 2(1) [of "(deg', queue')" deg' queue'] len show ?case by simp
qed auto

section \<open>Putting the order together\<close>

lemma take_items_map:
  assumes "distinct order" "\<And>i. i \<in> set order \<Longrightarrow> i < length items \<and> items ! i = Some (f i)"
  shows "take_items order items = Ok (map f order)"
  using assms
proof (induction order arbitrary: items)
  case (Cons i order)
  have "take_items order (items[i := None]) = Ok (map f order)"
    using Cons.prems by (intro Cons.IH) (auto simp: nth_list_update)
  with Cons.prems(2) [of i] show ?case by simp
qed simp

lemma comp_index_distinct:
  assumes "distinct (map cb_name bs)"
  shows "comp_index bs y = Some j \<longleftrightarrow> j < length bs \<and> cb_name (bs ! j) = y"
proof -
  have "distinct (map fst (rev (zip (map cb_name bs) [0..<length bs])))"
    using assms by (simp add: rev_map [symmetric])
  then have "comp_index bs y = Some j \<longleftrightarrow> (y, j) \<in> set (zip (map cb_name bs) [0..<length bs])"
    by (simp add: comp_index_def)
  moreover have "(y, j) \<in> set (zip (map cb_name bs) [0..<length bs]) \<longleftrightarrow> j < length bs \<and> cb_name (bs ! j) = y"
    by (force simp: set_zip)
  ultimately show ?thesis by simp
qed

lemma kahn_start:
  assumes "graph_is ix deps n (deg, g)" "\<And>d j. ix d = Some j \<Longrightarrow> j < n" "\<And>i. i \<ge> n \<Longrightarrow> deps i = []"
  shows "kahn_inv n g deg (filter (\<lambda>i. deg ! i = 0) [0..<n]) []"
proof -
  have "set (g ! j) \<subseteq> {..<n}" if "j < n" for j
  proof
    fix i assume "i \<in> set (g ! j)"
    then have "dep_count ix j (deps i) \<noteq> 0" using assms(1) that by (metis count_list_0_iff graph_is_def snd_conv)
    then show "i \<in> {..<n}" using assms(3) [of i] by (cases "i < n") (auto simp: dep_count_def)
  qed
  moreover have "deg ! i = (\<Sum>j<n. count_list (g ! j) i)" if "i < n" for i
    using assms(1) that dep_total_sum [of ix n "deps i", OF assms(2)] by (simp add: graph_is_def)
  ultimately show ?thesis using assms(1) by (auto simp: kahn_inv_def graph_is_def)
qed

text \<open>What the loop leaves behind, read in terms of the bindings.\<close>

lemma topo_order:
  assumes dist: "distinct (map cb_name bs)" and bg: "build_graph bs = (deg, g)"
  obtains order where "kahn_loop g deg (filter (\<lambda>i. deg ! i = 0) [0..<length bs]) [] = Ok order"
    "distinct order" "set order \<subseteq> {..<length bs}"
    "\<And>xs i ys j. order = xs @ i # ys \<Longrightarrow> j < length bs \<Longrightarrow>
       cb_name (bs ! j) \<in> set (cb_depends_on (bs ! i)) \<Longrightarrow> j \<in> set xs"
    "\<And>i. i < length bs \<Longrightarrow> i \<notin> set order \<Longrightarrow>
       \<exists>j. j < length bs \<and> j \<notin> set order \<and> cb_name (bs ! j) \<in> set (cb_depends_on (bs ! i))"
proof -
  let ?n = "length bs" and ?ix = "comp_index bs"
  let ?deps = "\<lambda>i. if i < ?n then cb_depends_on (bs ! i) else []"
  note ix = comp_index_distinct [OF dist]
  have lt: "\<And>d j. ?ix d = Some j \<Longrightarrow> j < ?n" by (simp add: ix)
  have gr: "graph_is ?ix ?deps ?n (deg, g)" using build_graph_is [OF lt] bg by simp
  have edge: "i \<in> set (g ! j) \<longleftrightarrow> i < ?n \<and> cb_name (bs ! j) \<in> set (cb_depends_on (bs ! i))" if "j < ?n" for i j
  proof -
    have "count_list (g ! j) i = dep_count ?ix j (?deps i)"
      using gr that unfolding graph_is_def snd_conv by blast
    then have "i \<in> set (g ! j) \<longleftrightarrow> dep_count ?ix j (?deps i) \<noteq> 0"
      by (metis count_list_0_iff)
    also have "\<dots> \<longleftrightarrow> (\<exists>d \<in> set (?deps i). ?ix d = Some j)"
      unfolding dep_count_def by (simp only: length_0_conv filter_empty_conv) blast
    also have "\<dots> \<longleftrightarrow> i < ?n \<and> cb_name (bs ! j) \<in> set (cb_depends_on (bs ! i))"
      unfolding ix using that by (cases "i < ?n") auto
    finally show ?thesis .
  qed
  obtain deg' order where o: "kahn_loop g deg (filter (\<lambda>i. deg ! i = 0) [0..<?n]) [] = Ok order"
    "kahn_inv ?n g deg' [] order"
  proof -
    have "kahn_inv ?n g deg (filter (\<lambda>i. deg ! i = 0) [0..<?n]) []" by (rule kahn_start [OF gr lt]) simp_all
    then show ?thesis using kahn_loop_spec that by blast
  qed
  show ?thesis
  proof (rule that [OF o(1)])
    show "distinct order" "set order \<subseteq> {..<?n}" using o(2) by (auto simp: kahn_inv_def)
    show "j \<in> set xs" if "order = xs @ i # ys" "j < ?n" "cb_name (bs ! j) \<in> set (cb_depends_on (bs ! i))" for xs i ys j
    proof -
      have "i < ?n" using o(2) that(1) by (auto simp: kahn_inv_def)
      then show ?thesis using o(2) that edge [OF that(2)] unfolding kahn_inv_def by blast
    qed
    show "\<exists>j. j < ?n \<and> j \<notin> set order \<and> cb_name (bs ! j) \<in> set (cb_depends_on (bs ! i))"
      if "i < ?n" "i \<notin> set order" for i
    proof -
      have "(\<Sum>j \<in> {..<?n} - set order. count_list (g ! j) i) \<noteq> 0"
        using o(2) that by (metis append_Nil2 kahn_inv_def)
      then have "\<exists>j \<in> {..<?n} - set order. count_list (g ! j) i \<noteq> 0"
        by (rule contrapos_np) (simp add: sum.neutral)
      then obtain j where "j < ?n" "j \<notin> set order" "count_list (g ! j) i \<noteq> 0" by blast
      then show ?thesis using edge [of j i] by (auto simp: count_list_0_iff)
    qed
  qed
qed

lemma topo_sort_result:
  assumes "distinct (map cb_name bs)"
  obtains order where "distinct order" "set order \<subseteq> {..<length bs}"
    "topo_sort_computed bs =
       (if length order \<noteq> length bs then Err (ParseError ''computed variable cycle detected'')
        else Ok (map (nth bs) order))"
    "\<And>xs i ys j. order = xs @ i # ys \<Longrightarrow> j < length bs \<Longrightarrow>
       cb_name (bs ! j) \<in> set (cb_depends_on (bs ! i)) \<Longrightarrow> j \<in> set xs"
    "\<And>i. i < length bs \<Longrightarrow> i \<notin> set order \<Longrightarrow>
       \<exists>j. j < length bs \<and> j \<notin> set order \<and> cb_name (bs ! j) \<in> set (cb_depends_on (bs ! i))"
proof (cases "bs = []")
  case True
  then show ?thesis by (intro that [of "[]"]) (simp_all add: topo_sort_computed_def)
next
  case False
  obtain deg g where bg: "build_graph bs = (deg, g)" by fastforce
  obtain order where o: "kahn_loop g deg (filter (\<lambda>i. deg ! i = 0) [0..<length bs]) [] = Ok order"
    "distinct order" "set order \<subseteq> {..<length bs}"
    "\<And>xs i ys j. order = xs @ i # ys \<Longrightarrow> j < length bs \<Longrightarrow>
       cb_name (bs ! j) \<in> set (cb_depends_on (bs ! i)) \<Longrightarrow> j \<in> set xs"
    "\<And>i. i < length bs \<Longrightarrow> i \<notin> set order \<Longrightarrow>
       \<exists>j. j < length bs \<and> j \<notin> set order \<and> cb_name (bs ! j) \<in> set (cb_depends_on (bs ! i))"
    by (rule topo_order [OF assms bg]) blast
  have "take_items order (map Some bs) = Ok (map (nth bs) order)"
    using o(2,3) by (intro take_items_map) auto
  then show ?thesis
    using that [OF o(2,3) _ o(4,5)] False by (simp add: topo_sort_computed_def bg o(1))
qed

lemma order_is_permutation:
  assumes "distinct order" "set order \<subseteq> {..<length bs}" "length order = length bs"
  shows "mset (map (nth bs) order) = mset bs"
proof -
  have "card (set order) = card {..<length bs}" using assms(1,3) by (simp add: distinct_card)
  then have "set order = {..<length bs}" using assms(2) by (intro card_subset_eq) simp_all
  then have "mset order = mset [0..<length bs]"
    using assms(1) by (subst set_eq_iff_mset_eq_distinct [symmetric]) (auto simp: atLeast0LessThan)
  then have "mset (map (nth bs) order) = mset (map (nth bs) [0..<length bs])" by (simp only: mset_map)
  then show ?thesis by (simp only: map_nth)
qed

lemma stuck_no_order:
  assumes ne: "\<exists>i < length bs. R i"
    and left: "\<And>i. i < length bs \<Longrightarrow> R i \<Longrightarrow>
       \<exists>j. j < length bs \<and> R j \<and> cb_name (bs ! j) \<in> set (cb_depends_on (bs ! i))"
    and out: "mset out = mset bs" "topo_sorted out"
  shows False
proof -
  let ?P = "\<lambda>p. p < length out \<and> (\<exists>i < length bs. R i \<and> out ! p = bs ! i)"
  have pos: "\<exists>p < length out. out ! p = bs ! i" if "i < length bs" for i
    using that out(1) by (metis in_set_conv_nth nth_mem set_mset_mset)
  then have ex: "\<exists>p. ?P p" using ne by blast
  define p where "p = (LEAST p. ?P p)"
  have least: "?P p" unfolding p_def by (rule LeastI_ex [OF ex])
  then obtain i where i: "i < length bs" "R i" "out ! p = bs ! i" by blast
  obtain j where j: "j < length bs" "R j" "cb_name (bs ! j) \<in> set (cb_depends_on (bs ! i))"
    using left [OF i(1,2)] by blast
  obtain q where q: "q < length out" "out ! q = bs ! j" using pos [OF j(1)] by blast
  have "q < p" using out(2) least q i(3) j(3) by (simp add: topo_sorted_def)
  then have "\<not> ?P q" unfolding p_def by (rule not_less_Least)
  then show False using q j by blast
qed

lemma topo_sort_exact:
  assumes "distinct (map cb_name bs)"
  shows "(\<exists>out. topo_sort_computed bs = Ok out \<and> mset out = mset bs \<and> topo_sorted out)
     \<or> (topo_sort_computed bs = Err (ParseError ''computed variable cycle detected'')
        \<and> \<not> (\<exists>out. mset out = mset bs \<and> topo_sorted out))"
proof -
  obtain order where o: "distinct order" "set order \<subseteq> {..<length bs}"
    and res: "topo_sort_computed bs =
       (if length order \<noteq> length bs then Err (ParseError ''computed variable cycle detected'')
        else Ok (map (nth bs) order))"
    and before: "\<And>xs i ys j. order = xs @ i # ys \<Longrightarrow> j < length bs \<Longrightarrow>
       cb_name (bs ! j) \<in> set (cb_depends_on (bs ! i)) \<Longrightarrow> j \<in> set xs"
    and left: "\<And>i. i < length bs \<Longrightarrow> i \<notin> set order \<Longrightarrow>
       \<exists>j. j < length bs \<and> j \<notin> set order \<and> cb_name (bs ! j) \<in> set (cb_depends_on (bs ! i))"
    by (rule topo_sort_result [OF assms]) blast
  show ?thesis
  proof (cases "length order = length bs")
    case True
    have "topo_sorted (map (nth bs) order)"
      unfolding topo_sorted_def
    proof (intro allI impI)
      fix a b
      assume ab: "a < length (map (nth bs) order)" "b < length (map (nth bs) order)"
        "cb_name (map (nth bs) order ! b) \<in> set (cb_depends_on (map (nth bs) order ! a))"
      then have "order ! b \<in> set (take a order)"
        using before [of "take a order" "order ! a" "drop (Suc a) order" "order ! b"] o(2)
        by (simp add: id_take_nth_drop [symmetric] subset_iff)
      then obtain c where "c < a" "c < length order" "order ! c = order ! b" by (auto simp: in_set_conv_nth)
      then show "b < a" using o(1) ab by (simp add: nth_eq_iff_index_eq)
    qed
    then show ?thesis using order_is_permutation [OF o True] res True by auto
  next
    case False
    have "\<exists>i < length bs. i \<notin> set order"
    proof (rule ccontr)
      assume "\<not> ?thesis"
      then have "set order = {..<length bs}" using o(2) by auto
      then show False using False distinct_card [OF o(1)] by simp
    qed
    then have "\<not> (\<exists>out. mset out = mset bs \<and> topo_sorted out)"
      using stuck_no_order [of bs "\<lambda>i. i \<notin> set order"] left by blast
    then show ?thesis using res False by simp
  qed
qed

section \<open>Properties\<close>

text \<open>
  (C19) \<^verbatim>\<open>topo_sort_computed\<close> on bindings with distinct names: it never panics; when it accepts, the
  result is a permutation of the bindings in which every dependency stands before its
  dependents, which is what the recomputation relies on; and it reports a cycle only
  when no such order of the bindings exists.
\<close>

theorem topo_sort_correct:
  assumes "distinct (map cb_name bs)"
  shows "(\<exists>out. topo_sort_computed bs = Ok out \<and> mset out = mset bs \<and> topo_sorted out)
     \<or> (topo_sort_computed bs = Err (ParseError ''computed variable cycle detected'')
        \<and> \<not> (\<exists>out. mset out = mset bs \<and> topo_sorted out))"
  by (rule topo_sort_exact [OF assms])

theorem topo_sort_correct_witness:
  "topo_sort_computed
     [\<lparr>cb_name = 0, cb_expr = \<lparr>tree_arena = arena_new, tree_root = 0\<rparr>, cb_depends_on = [1], cb_tainted = False\<rparr>,
      \<lparr>cb_name = 1, cb_expr = \<lparr>tree_arena = arena_new, tree_root = 0\<rparr>, cb_depends_on = [0], cb_tainted = False\<rparr>]
   = Err (ParseError ''computed variable cycle detected'')"
  using topo_sort_correct
    [of "[\<lparr>cb_name = 0, cb_expr = \<lparr>tree_arena = arena_new, tree_root = 0\<rparr>, cb_depends_on = [1], cb_tainted = False\<rparr>,
      \<lparr>cb_name = 1, cb_expr = \<lparr>tree_arena = arena_new, tree_root = 0\<rparr>, cb_depends_on = [0], cb_tainted = False\<rparr>]"]
  by (auto simp: topo_sort_computed_def build_graph_def comp_index_def)

end
