(* ===== verification/Mizu_Deps.thy ===== *)
theory Mizu_Deps
  imports Mizu_Topo
begin

text \<open>
  The dependency analysis of \<^verbatim>\<open>parser/logic/comp.rs\<close>: the walks that collect the variables,
  the free variables and the calls of an expression, and the work list over the call
  graph that unions what the reachable functions read.

  A walk follows the indices of an arena, so its recursion takes fuel; \<open>walk_fuel\<close>
  levels are enough for an arena whose nodes refer to earlier nodes only, which is how
  the parser allocates them. The second half of the theory relates the result of the
  analysis to the evaluator: hiding every global outside the collected set does not
  change what an expression evaluates to.
\<close>

section \<open>The walks\<close>

fun walk :: "(expr \<Rightarrow> 'a \<Rightarrow> 'a outcome) \<Rightarrow> expr_arena \<Rightarrow> expr_id list \<Rightarrow> 'a \<Rightarrow> 'a outcome" where
  "walk f ar [] out = Ok out"
| "walk f ar (i # is) out = bindO (arena_get ar i) (\<lambda>e. bindO (f e out) (walk f ar is))"

definition walk_fuel :: "expr_arena \<Rightarrow> nat" where
  "walk_fuel ar = Suc (length (nodes ar))"

primrec collect_vars :: "nat \<Rightarrow> expr_arena \<Rightarrow> expr \<Rightarrow> symbol set \<Rightarrow> symbol set outcome" where
  "collect_vars 0 ar e out = Fail OutOfFuel"
| "collect_vars (Suc n) ar e out =
     (let rec = walk (collect_vars n ar) ar in
      case e of
        EVariable y \<Rightarrow> Ok (insert y out)
      | ELiteral _ \<Rightarrow> Ok out
      | EBinaryOp left _ right \<Rightarrow> rec [left, right] out
      | EFunctionCall _ args_start args_len \<Rightarrow> bindO (arena_args ar args_start args_len) (\<lambda>args. rec args out)
      | ELet _ v body \<Rightarrow> rec [v, body] out
      | ENot inner \<Rightarrow> rec [inner] out
      | EIfElse condition then_expr else_expr \<Rightarrow> rec [condition, then_expr, else_expr] out
      | EFieldAccess base _ _ \<Rightarrow> rec [base] out)"

primrec collect_free_vars ::
  "nat \<Rightarrow> expr_arena \<Rightarrow> symbol set \<Rightarrow> expr \<Rightarrow> symbol set \<Rightarrow> symbol set outcome" where
  "collect_free_vars 0 ar bound e out = Fail OutOfFuel"
| "collect_free_vars (Suc n) ar bound e out =
     (let rec = walk (collect_free_vars n ar bound) ar in
      case e of
        EVariable y \<Rightarrow> Ok (if y \<in> bound then out else insert y out)
      | ELiteral _ \<Rightarrow> Ok out
      | EBinaryOp left _ right \<Rightarrow> rec [left, right] out
      | EFunctionCall _ args_start args_len \<Rightarrow> bindO (arena_args ar args_start args_len) (\<lambda>args. rec args out)
      | ELet y v body \<Rightarrow>
          bindO (rec [v] out) (walk (collect_free_vars n ar (insert y bound)) ar [body])
      | ENot inner \<Rightarrow> rec [inner] out
      | EIfElse condition then_expr else_expr \<Rightarrow> rec [condition, then_expr, else_expr] out
      | EFieldAccess base _ _ \<Rightarrow> rec [base] out)"

primrec collect_calls ::
  "nat \<Rightarrow> expr_arena \<Rightarrow> symbol set \<Rightarrow> expr \<Rightarrow> symbol set \<Rightarrow> symbol set outcome" where
  "collect_calls 0 ar function_names e out = Fail OutOfFuel"
| "collect_calls (Suc n) ar function_names e out =
     (let rec = walk (collect_calls n ar function_names) ar in
      case e of
        ELiteral _ \<Rightarrow> Ok out
      | EVariable y \<Rightarrow> Ok (if y \<in> function_names then insert y out else out)
      | EBinaryOp left _ right \<Rightarrow> rec [left, right] out
      | EFunctionCall y args_start args_len \<Rightarrow>
          bindO (arena_args ar args_start args_len) (\<lambda>args. rec args (insert y out))
      | ELet _ v body \<Rightarrow> rec [v, body] out
      | ENot inner \<Rightarrow> rec [inner] out
      | EIfElse condition then_expr else_expr \<Rightarrow> rec [condition, then_expr, else_expr] out
      | EFieldAccess base _ _ \<Rightarrow> rec [base] out)"

section \<open>Reads through called functions\<close>

text \<open>
  The function table is the list of its entries, and iteration over a hash set is in
  ascending order. The head of the work list is the end of the vector, where
  \<^verbatim>\<open>pop\<close> takes and \<^verbatim>\<open>extend\<close> adds.
\<close>

type_synonym function_list = "(symbol \<times> mizu_function) list"

definition free_reads :: "mizu_function \<Rightarrow> symbol set \<Rightarrow> symbol set outcome" where
  "free_reads f out =
     bindO (root_expr (fn_body f)) (\<lambda>e.
       collect_free_vars (walk_fuel (tree_arena (fn_body f))) (tree_arena (fn_body f))
         (set (map fst (fn_params f))) e out)"

definition tree_calls :: "symbol set \<Rightarrow> expr_tree \<Rightarrow> symbol set outcome" where
  "tree_calls function_names t =
     bindO (root_expr t) (\<lambda>e. collect_calls (walk_fuel (tree_arena t)) (tree_arena t) function_names e {})"

lemma unvisited_decreases:
  assumes "y \<notin> visited" "map_of fl y = Some f"
  shows "card (fst ` set fl - insert y visited) < card (fst ` set fl - visited)"
proof (rule psubset_card_mono)
  have "y \<in> fst ` set fl" using map_of_SomeD [OF assms(2)] by force
  then show "fst ` set fl - insert y visited \<subset> fst ` set fl - visited" using assms(1) by auto
qed simp

lemma unvisited_same:
  "map_of fl y = None \<Longrightarrow> fst ` set fl - insert y visited = fst ` set fl - visited"
  by (auto simp: map_of_eq_None_iff)

function reads_loop ::
  "function_list \<Rightarrow> symbol list \<Rightarrow> symbol set \<Rightarrow> symbol set \<Rightarrow> symbol set outcome" where
  "reads_loop fl [] visited out = Ok out"
| "reads_loop fl (y # worklist) visited out =
     (if y \<in> visited then reads_loop fl worklist visited out
      else case map_of fl y of
             None \<Rightarrow> reads_loop fl worklist (insert y visited) out
           | Some f \<Rightarrow>
               bindO (free_reads f out) (\<lambda>out'.
               bindO (tree_calls (set (map fst fl)) (fn_body f)) (\<lambda>nested.
               reads_loop fl (rev (sorted_list_of_set nested) @ worklist) (insert y visited) out')))"
  by pat_completeness auto

termination
  by (relation "inv_image (less_than <*lex*> less_than)
      (\<lambda>(fl, worklist, visited, out). (card (fst ` set fl - visited), length worklist))")
    (auto simp: unvisited_decreases unvisited_same)

definition collect_reachable_function_reads ::
  "expr_tree \<Rightarrow> function_list \<Rightarrow> symbol set \<Rightarrow> symbol set outcome" where
  "collect_reachable_function_reads t fl out =
     bindO (tree_calls (set (map fst fl)) t) (\<lambda>initial_calls.
       reads_loop fl (rev (sorted_list_of_set initial_calls)) {} out)"

text \<open>The dependency set of \<^verbatim>\<open>comp name = expr\<close>, as \<^verbatim>\<open>parse_computed_with_functions\<close> builds it.\<close>

definition comp_dependencies :: "symbol \<Rightarrow> expr_tree \<Rightarrow> function_list \<Rightarrow> symbol set outcome" where
  "comp_dependencies name_sym t fl =
     bindO (root_expr t) (\<lambda>e.
     bindO (collect_vars (walk_fuel (tree_arena t)) (tree_arena t) e {}) (\<lambda>dep_set.
     bindO (collect_reachable_function_reads t fl dep_set) (\<lambda>all_reads.
     Ok (all_reads - {name_sym}))))"

section \<open>What an expression may read\<close>

text \<open>
  \<open>covers D F G ar B e\<close>: in scope \<open>B\<close>, the expression \<open>e\<close> of the arena reads only globals of
  \<open>D\<close> and calls only functions named in \<open>F\<close>; the names in \<open>G\<close> stand for
  \<^verbatim>\<open>get_system_time\<close>, whose argument is a target and is not evaluated.
\<close>

inductive covers :: "symbol set \<Rightarrow> symbol set \<Rightarrow> symbol set \<Rightarrow> expr_arena \<Rightarrow> symbol set \<Rightarrow> expr \<Rightarrow> bool"
  for D F G ar where
  lit: "covers D F G ar B (ELiteral v)"
| var: "y \<in> B \<union> D \<Longrightarrow> covers D F G ar B (EVariable y)"
| bin: "(\<And>i e. i \<in> {l, r} \<Longrightarrow> arena_get ar i = Ok e \<Longrightarrow> covers D F G ar B e) \<Longrightarrow> covers D F G ar B (EBinaryOp l op r)"
| call: "y \<in> F \<Longrightarrow> (\<And>args i e. arena_args ar st n = Ok args \<Longrightarrow> i \<in> set args \<Longrightarrow> arena_get ar i = Ok e \<Longrightarrow>
     covers D F G ar B e) \<Longrightarrow> covers D F G ar B (EFunctionCall y st n)"
| skip: "y \<in> G \<Longrightarrow> covers D F G ar B (EFunctionCall y st n)"
| bnd: "(\<And>e. arena_get ar v = Ok e \<Longrightarrow> covers D F G ar B e) \<Longrightarrow>
     (\<And>e. arena_get ar b = Ok e \<Longrightarrow> covers D F G ar (insert y B) e) \<Longrightarrow> covers D F G ar B (ELet y v b)"
| neg: "(\<And>e. arena_get ar i = Ok e \<Longrightarrow> covers D F G ar B e) \<Longrightarrow> covers D F G ar B (ENot i)"
| ite: "(\<And>i e. i \<in> {c, t, f} \<Longrightarrow> arena_get ar i = Ok e \<Longrightarrow> covers D F G ar B e) \<Longrightarrow> covers D F G ar B (EIfElse c t f)"
| fld: "(\<And>e. arena_get ar i = Ok e \<Longrightarrow> covers D F G ar B e) \<Longrightarrow> covers D F G ar B (EFieldAccess i g h)"

lemmas covers_rules = covers.lit covers.var covers.bin covers.call covers.bnd covers.neg covers.ite covers.fld

inductive_cases covers_elims:
  "covers D F G ar B (EVariable y)" "covers D F G ar B (EBinaryOp l op r)" "covers D F G ar B (EFunctionCall y st n)"
  "covers D F G ar B (ELet y v b)" "covers D F G ar B (ENot i)" "covers D F G ar B (EIfElse c t f)"
  "covers D F G ar B (EFieldAccess i g h)"

text \<open>A walk only adds, and its result contains what every visited node contributes.\<close>

definition grows :: "(expr \<Rightarrow> 'a set \<Rightarrow> 'a set outcome) \<Rightarrow> bool" where
  "grows f \<longleftrightarrow> (\<forall>e out S. f e out = Ok S \<longrightarrow> out \<subseteq> S)"

lemma walk_each:
  assumes "grows f" "walk f ar ids out = Ok S"
  shows "out \<subseteq> S \<and> (\<forall>i \<in> set ids. \<exists>e out' S'. arena_get ar i = Ok e \<and> f e out' = Ok S' \<and> S' \<subseteq> S)"
  using assms(2)
proof (induction ids arbitrary: out)
  case (Cons i ids)
  then obtain e S' where e: "arena_get ar i = Ok e" "f e out = Ok S'" "walk f ar ids S' = Ok S"
    by (auto simp: bindO_Ok)
  from Cons.IH [OF e(3)] assms(1) e show ?case by (fastforce simp: grows_def)
qed simp

lemma walk_grows: "grows f \<Longrightarrow> walk f ar ids out = Ok S \<Longrightarrow> out \<subseteq> S"
  by (blast dest: walk_each)

lemma collect_vars_grows: "grows (collect_vars n ar)"
proof (induction n)
  case (Suc n)
  have "out \<subseteq> S" if "collect_vars (Suc n) ar e out = Ok S" for e out S
    using that walk_grows [OF Suc, of ar]
    by (cases e) (auto simp: Let_def bindO_Ok simp del: walk.simps)
  then show ?case by (simp add: grows_def)
qed (simp add: grows_def)

lemma collect_free_vars_grows: "grows (collect_free_vars n ar B)"
proof (induction n arbitrary: B)
  case (Suc n)
  have "out \<subseteq> S" if "collect_free_vars (Suc n) ar B e out = Ok S" for e out S
    using that walk_grows [OF Suc]
    by (cases e) (auto simp: Let_def bindO_Ok simp del: walk.simps split: if_splits, blast+)
  then show ?case by (simp add: grows_def)
qed (simp add: grows_def)

lemma collect_calls_grows: "grows (collect_calls n ar fn)"
proof (induction n)
  case (Suc n)
  have "out \<subseteq> S" if "collect_calls (Suc n) ar fn e out = Ok S" for e out S
    using that walk_grows [OF Suc, of ar]
    by (cases e) (auto simp: Let_def bindO_Ok simp del: walk.simps split: if_splits)
  then show ?case by (simp add: grows_def)
qed (simp add: grows_def)

lemma walk_child:
  assumes "grows f" "walk f ar ids out = Ok S" "S \<subseteq> X" "i \<in> set ids" "arena_get ar i = Ok e"
  obtains out' S' where "f e out' = Ok S'" "S' \<subseteq> X"
  using walk_each [OF assms(1,2)] assms(3-5) by fastforce

lemma vars_covers:
  assumes "collect_vars n ar e o1 = Ok S" "S \<subseteq> D" "collect_calls m ar fn e o2 = Ok C" "C \<subseteq> F"
  shows "covers D F G ar B e"
  using assms
proof (induction n arbitrary: e m o1 S o2 C B)
  case (Suc n)
  then obtain k where m: "m = Suc k" by (cases m) simp_all
  have kids: "covers D F G ar B' c"
    if h: "walk (collect_vars n ar) ar ids o1' = Ok S" "walk (collect_calls k ar fn) ar ids o2' = Ok C"
      "i \<in> set ids" "arena_get ar i = Ok c" for ids o1' o2' i c B'
  proof -
    obtain a b where "collect_vars n ar c a = Ok b" "b \<subseteq> D"
      using walk_child [OF collect_vars_grows h(1) Suc.prems(2) h(3,4)] .
    moreover obtain a' b' where "collect_calls k ar fn c a' = Ok b'" "b' \<subseteq> F"
      using walk_child [OF collect_calls_grows h(2) Suc.prems(4) h(3,4)] .
    ultimately show ?thesis using Suc.IH by blast
  qed
  have all: "\<forall>i \<in> set ids. \<forall>c B'. arena_get ar i = Ok c \<longrightarrow> covers D F G ar B' c"
    if "walk (collect_vars n ar) ar ids o1 = Ok S" "walk (collect_calls k ar fn) ar ids o2' = Ok C" for ids o2'
    using kids that by blast
  have callee: "y \<in> F" if "walk (collect_calls k ar fn) ar ids (insert y o') = Ok C" for y ids o'
    using walk_grows [OF collect_calls_grows that] Suc.prems(4) by auto
  show ?case
    using Suc.prems
    by (cases e) (auto simp: m Let_def bindO_Ok simp del: walk.simps dest: all callee intro!: covers_rules)
qed simp

lemma free_vars_covers:
  assumes "collect_free_vars n ar B e o1 = Ok S" "S \<subseteq> D" "collect_calls m ar fn e o2 = Ok C" "C \<subseteq> F"
  shows "covers D F G ar B e"
  using assms
proof (induction n arbitrary: e m o1 S o2 C B)
  case (Suc n)
  then obtain k where m: "m = Suc k" by (cases m) simp_all
  have kids: "covers D F G ar B' c"
    if h: "walk (collect_free_vars n ar B') ar ids o1' = Ok S'" "S' \<subseteq> D"
      "walk (collect_calls k ar fn) ar ids' o2' = Ok C" "set ids \<subseteq> set ids'"
      "i \<in> set ids" "arena_get ar i = Ok c" for ids ids' o1' o2' i c B' S'
  proof -
    obtain a b where "collect_free_vars n ar B' c a = Ok b" "b \<subseteq> D"
      using walk_child [OF collect_free_vars_grows h(1,2,5,6)] .
    moreover have "i \<in> set ids'" using h(4,5) by blast
    then obtain a' b' where "collect_calls k ar fn c a' = Ok b'" "b' \<subseteq> F"
      using walk_child [OF collect_calls_grows h(3) Suc.prems(4) _ h(6)] by blast
    ultimately show ?thesis using Suc.IH by blast
  qed
  have all: "\<forall>i \<in> set ids. \<forall>c. arena_get ar i = Ok c \<longrightarrow> covers D F G ar B c"
    if "walk (collect_free_vars n ar B) ar ids o1 = Ok S" "walk (collect_calls k ar fn) ar ids o2' = Ok C" for ids o2'
    using kids [OF that(1) Suc.prems(2) that(2)] by blast
  have callee: "y \<in> F" if "walk (collect_calls k ar fn) ar ids (insert y o') = Ok C" for y ids o'
    using walk_grows [OF collect_calls_grows that] Suc.prems(4) by auto
  show ?case
  proof (cases e)
    case (ELet y v b)
    obtain S1 where w: "walk (collect_free_vars n ar B) ar [v] o1 = Ok S1"
      "walk (collect_free_vars n ar (insert y B)) ar [b] S1 = Ok S"
      using Suc.prems(1) ELet by (auto simp: Let_def bindO_Ok simp del: walk.simps)
    have c: "walk (collect_calls k ar fn) ar [v, b] o2 = Ok C"
      using Suc.prems(3) ELet by (simp add: m Let_def del: walk.simps)
    have "S1 \<subseteq> D" using walk_grows [OF collect_free_vars_grows w(2)] Suc.prems(2) by blast
    then show ?thesis
      unfolding ELet using kids [OF w(1) _ c] kids [OF w(2) Suc.prems(2) c] by (auto intro!: covers.bnd)
  next
    case (EFunctionCall y st l)
    then show ?thesis
      using Suc.prems(1,3)
      by (auto simp: m Let_def bindO_Ok simp del: walk.simps dest: all callee intro!: covers.call)
  qed (use Suc.prems in
      \<open>auto simp: m Let_def simp del: walk.simps split: if_splits dest: all intro!: covers_rules\<close>)
qed simp

section \<open>The call graph\<close>

lemma walk_finite:
  "(\<And>e out S. f e out = Ok S \<Longrightarrow> finite out \<Longrightarrow> finite (S :: 'a set)) \<Longrightarrow>
     walk f ar ids out = Ok S \<Longrightarrow> finite out \<Longrightarrow> finite S"
  by (induction ids arbitrary: out) (auto simp: bindO_Ok)

lemma collect_calls_finite: "collect_calls n ar fn e out = Ok S \<Longrightarrow> finite out \<Longrightarrow> finite S"
proof (induction n arbitrary: e out S)
  case (Suc n)
  note w = walk_finite [of "collect_calls n ar fn" ar, OF Suc.IH]
  from Suc.prems show ?case
    by (cases e) (auto simp: Let_def bindO_Ok simp del: walk.simps split: if_splits intro: w)
qed simp

lemma tree_calls_finite: "tree_calls fn t = Ok C \<Longrightarrow> finite C"
  by (auto simp: tree_calls_def bindO_Ok dest: collect_calls_finite)

lemma free_reads_grows: "free_reads f out = Ok S \<Longrightarrow> out \<subseteq> S"
  using collect_free_vars_grows by (fastforce simp: free_reads_def bindO_Ok grows_def)

text \<open>\<open>F\<close> is closed under calls, and what its functions read is in \<open>S\<close>.\<close>

definition closed_under :: "function_list \<Rightarrow> symbol set \<Rightarrow> symbol set \<Rightarrow> symbol set \<Rightarrow> bool" where
  "closed_under fl S vis F \<longleftrightarrow>
     (\<forall>y \<in> F - vis. \<forall>f. map_of fl y = Some f \<longrightarrow>
        (\<exists>out S'. free_reads f out = Ok S' \<and> S' \<subseteq> S)
        \<and> (\<exists>C. tree_calls (set (map fst fl)) (fn_body f) = Ok C \<and> C \<subseteq> F))"

lemma reads_loop_closed:
  "reads_loop fl wl vis out = Ok S \<Longrightarrow>
     out \<subseteq> S \<and> (\<exists>F. set wl \<union> vis \<subseteq> F \<and> closed_under fl S vis F)"
proof (induction fl wl vis out rule: reads_loop.induct)
  case (1 fl vis out)
  then show ?case by (auto simp: closed_under_def)
next
  case (2 fl y wl vis out)
  show ?case
  proof (cases "y \<in> vis")
    case True
    then have "reads_loop fl wl vis out = Ok S" using 2(4) by simp
    then obtain F where "out \<subseteq> S" "set wl \<union> vis \<subseteq> F" "closed_under fl S vis F" using 2(1) [OF True] by blast
    then show ?thesis using True by (intro conjI exI [of _ F]) auto
  next
    case False
    show ?thesis
    proof (cases "map_of fl y")
      case None
      with 2(2) [OF False None] 2(4) False obtain F where
        F: "out \<subseteq> S" "set wl \<union> insert y vis \<subseteq> F" "closed_under fl S (insert y vis) F" by auto
      have "closed_under fl S vis F"
        unfolding closed_under_def
      proof (intro ballI allI impI)
        fix z f assume "z \<in> F - vis" and f: "map_of fl z = Some f"
        then have "z \<in> F - insert y vis" using None by auto
        with F(3) f show "(\<exists>out S'. free_reads f out = Ok S' \<and> S' \<subseteq> S)
            \<and> (\<exists>C. tree_calls (set (map fst fl)) (fn_body f) = Ok C \<and> C \<subseteq> F)"
          unfolding closed_under_def by blast
      qed
      with F show ?thesis by (intro conjI exI [of _ F]) auto
    next
      case (Some f)
      with 2(4) False obtain out' C where c: "free_reads f out = Ok out'"
        "tree_calls (set (map fst fl)) (fn_body f) = Ok C"
        "reads_loop fl (rev (sorted_list_of_set C) @ wl) (insert y vis) out' = Ok S"
        by (auto simp: bindO_Ok)
      have fin: "set (rev (sorted_list_of_set C)) = C" using tree_calls_finite [OF c(2)] by simp
      obtain F where F: "out' \<subseteq> S" "C \<union> set wl \<union> insert y vis \<subseteq> F" "closed_under fl S (insert y vis) F"
        using 2(3) [OF False Some c(3)] fin by auto
      have "out \<subseteq> S" using free_reads_grows [OF c(1)] F(1) by blast
      moreover have "closed_under fl S vis F"
        using F c Some by (auto simp: closed_under_def)
      ultimately show ?thesis using F(2) by auto
    qed
  qed
qed

section \<open>Hiding the other globals\<close>

definition mask :: "symbol set \<Rightarrow> evaluator \<Rightarrow> evaluator" where
  "mask D s = s\<lparr>global_store := global_store s |` D\<rparr>"

lemma mask_sel [simp]:
  "local_stack (mask D s) = local_stack s" "local_symbols (mask D s) = local_symbols s"
  "local_index (mask D s) = local_index s" "instruction_count (mask D s) = instruction_count s"
  "max_instructions (mask D s) = max_instructions s" "eval_depth (mask D s) = eval_depth s"
  "accumulated_actions (mask D s) = accumulated_actions s" "undo_log (mask D s) = undo_log s"
  "computed_var_syms (mask D s) = computed_var_syms s" "global_store (mask D s) = global_store s |` D"
  by (simp_all add: mask_def)

definition scoped :: "(symbol \<times> mval) list \<Rightarrow> evaluator \<Rightarrow> bool" where
  "scoped L s \<longleftrightarrow> locals_ok s \<and> locals_abs s = L"

text \<open>
  \<open>blind D L m\<close>: in the scope \<open>L\<close>, the computation does the same when the globals outside
  \<open>D\<close> are hidden, and leaves the scope as it is when it succeeds.
\<close>

definition blind :: "symbol set \<Rightarrow> (symbol \<times> mval) list \<Rightarrow> 'a ecomput \<Rightarrow> bool" where
  "blind D L m \<longleftrightarrow> (\<forall>s. scoped L s \<longrightarrow> m (mask D s) = (fst (m s), mask D (snd (m s)))
     \<and> (is_ok (fst (m s)) \<longrightarrow> scoped L (snd (m s))))"

named_theorems blind_rules "computations blind to the hidden globals"

lemma blind_bind [blind_rules]:
  assumes "blind D L m" "\<And>v s s'. m s = (Ok v, s') \<Longrightarrow> blind D L (f v)"
  shows "blind D L (bindS m f)"
proof -
  have "bindS m f (mask D s) = (fst (bindS m f s), mask D (snd (bindS m f s)))
      \<and> (is_ok (fst (bindS m f s)) \<longrightarrow> scoped L (snd (bindS m f s)))" if s: "scoped L s" for s
  proof (cases "m s")
    case (Pair r s')
    show ?thesis
    proof (cases r)
      case (Ok v)
      then have "scoped L s'" "m (mask D s) = (Ok v, mask D s')"
        using assms(1) s Pair by (auto simp: blind_def)
      then show ?thesis using assms(2) [of s v s'] Pair Ok by (simp add: bindS_def blind_def)
    next
      case (Fail e)
      then have "m (mask D s) = (Fail e, mask D s')"
        using assms(1) s Pair by (auto simp: blind_def)
      then show ?thesis using Pair Fail by (simp add: bindS_def)
    qed
  qed
  then show ?thesis by (simp add: blind_def)
qed

lemma blind_ok [blind_rules]: "blind D L (okS v)"
  by (simp add: blind_def okS_def)

lemma blind_fail [blind_rules]: "blind D L (failS e)"
  by (simp add: blind_def failS_def)

lemma blind_lift [blind_rules]: "blind D L (liftS x)"
  by (simp add: blind_def liftS_def)

lemma blind_if [blind_rules]: "blind D L m \<Longrightarrow> blind D L n \<Longrightarrow> blind D L (if c then m else n)"
  by simp

lemma blind_option [blind_rules]:
  "blind D L m \<Longrightarrow> (\<And>x. blind D L (f x)) \<Longrightarrow> blind D L (case x of None \<Rightarrow> m | Some y \<Rightarrow> f y)"
  by (cases x) simp_all

lemma blind_map [blind_rules]: "(\<And>x. x \<in> set xs \<Longrightarrow> blind D L (f x)) \<Longrightarrow> blind D L (mapS f xs)"
  by (induction xs) (auto intro!: blind_rules)

text \<open>A step that reads and writes only the instruction count and the queue.\<close>

lemma mask_count: "mask D (s\<lparr>instruction_count := n\<rparr>) = (mask D s)\<lparr>instruction_count := n\<rparr>"
  by (simp add: mask_def)

lemma scoped_count: "scoped L (s\<lparr>instruction_count := n\<rparr>) \<longleftrightarrow> scoped L s"
  by (simp add: scoped_def locals_ok_def locals_abs_def)

lemma mask_depth: "mask D (s\<lparr>eval_depth := n\<rparr>) = (mask D s)\<lparr>eval_depth := n\<rparr>"
  by (simp add: mask_def)

lemma scoped_depth: "scoped L (s\<lparr>eval_depth := n\<rparr>) \<longleftrightarrow> scoped L s"
  by (simp add: scoped_def locals_ok_def locals_abs_def)

lemma blind_counter [blind_rules]:
  "blind D L (\<lambda>s. (r (instruction_count s) (max_instructions s),
     s\<lparr>instruction_count := c (instruction_count s) (max_instructions s)\<rparr>))"
  by (simp add: blind_def mask_count scoped_count)

lemma blind_charge [blind_rules]: "blind D L (charge n)"
  by (simp add: charge_def modS_def blind_def mask_count scoped_count)

lemma blind_check_budget [blind_rules]: "blind D L check_budget"
  by (simp add: check_budget_def blind_def)

lemma blind_queue [blind_rules]: "blind D L (queue_action a)"
  by (simp add: queue_action_def modS_def blind_def mask_def scoped_def locals_ok_def locals_abs_def)

lemma blind_getS_comp [blind_rules]: "blind D L (getS (\<lambda>st. y \<in> computed_var_syms st))"
  by (simp add: blind_def getS_def)

lemma blind_count_loop [blind_rules]: "blind D L (count_loop ctx field target items n)"
proof (induction items arbitrary: n)
  case (Cons item items)
  have "blind D L (\<lambda>st. case budget_eq (ctx_ptr_eq ctx) v target (instruction_count st) (max_instructions st) of
      (r, ic) \<Rightarrow> (r, st\<lparr>instruction_count := ic\<rparr>))" for v
    using blind_counter [of D L "\<lambda>i m. fst (budget_eq (ctx_ptr_eq ctx) v target i m)"
        "\<lambda>i m. snd (budget_eq (ctx_ptr_eq ctx) v target i m)"]
    by (simp add: case_prod_beta)
  with Cons show ?case by (auto split: option.splits intro!: blind_rules)
qed (simp add: blind_rules)

lemma blind_filter_run [blind_rules]:
  "blind D L (\<lambda>st. case filter_loop bop field target (max_instructions st) items (instruction_count st) of
      (Ok filtered, ic) \<Rightarrow> (Ok (VList filtered), st\<lparr>instruction_count := ic\<rparr>)
    | (Fail e, _) \<Rightarrow> (Fail e, st))"
  by (auto simp: blind_def mask_count scoped_count split: prod.splits outcome.splits)

lemma blind_length_run [blind_rules]:
  "blind D L (\<lambda>st. if sat_add (instruction_count st) (length s) > max_instructions st then (Err Timeout, st)
      else (Ok (VInt (as_i64 (char_count s))),
            st\<lparr>instruction_count := sat_add (instruction_count st) (char_count s)\<rparr>))"
  by (auto simp: blind_def mask_count scoped_count)

lemma blind_binop_run [blind_rules]:
  "blind D L (\<lambda>st. case apply_binop op lv rv (instruction_count st) (max_instructions st) of
      (r, ic) \<Rightarrow> (r, st\<lparr>instruction_count := ic\<rparr>))"
  using blind_counter [of D L "\<lambda>i m. fst (apply_binop op lv rv i m)" "\<lambda>i m. snd (apply_binop op lv rv i m)"]
  by (simp add: case_prod_beta)

lemma mask_push: "mask D (push_local y v s) = push_local y v (mask D s)"
  by (simp add: mask_def push_local_def Let_def)

lemma mask_pop: "mask D (pop_local s) = pop_local (mask D s)"
  by (simp add: mask_def pop_local_def)

lemma mask_trunc: "mask D (truncate_locals n s) = truncate_locals n (mask D s)"
  by (simp add: mask_def truncate_locals_def)

lemma scoped_push: "scoped L s \<Longrightarrow> scoped (L @ [(y, v)]) (push_local y v s)"
  by (simp add: scoped_def ls.push_ok ls.push_abs)

lemma scoped_mask [simp]: "scoped L (mask D s) \<longleftrightarrow> scoped L s"
  by (simp add: scoped_def locals_ok_def locals_abs_def)

lemma blind_let:
  assumes "blind D (L @ [(y, v)]) m"
  shows "blind D L (bindS (modS (push_local y v)) (\<lambda>_. finallyS m pop_local))"
proof -
  have "let p = push_local y v s in
      m (mask D p) = (fst (m p), mask D (snd (m p))) \<and> (is_ok (fst (m p)) \<longrightarrow> scoped (L @ [(y, v)]) (snd (m p)))"
    if "scoped L s" for s
    using assms scoped_push [OF that, of y v] by (simp add: blind_def Let_def)
  then show ?thesis
    by (auto simp: blind_def bindS_def modS_def finallyS_def Let_def mask_push mask_pop scoped_def ls.pop_ok ls.pop_abs
        split: prod.splits) (force simp: scoped_def ls.pop_ok ls.pop_abs)+
qed

lemma mapS_length: "mapS f xs s = (Ok vs, s') \<Longrightarrow> length vs = length xs"
  by (induction xs arbitrary: s s' vs) (auto simp: bindS_def okS_def split: prod.splits outcome.splits)

lemma bind_params_blind:
  "scoped L s \<Longrightarrow>
     bind_params ps (mask D s) = (fst (bind_params ps s), mask D (snd (bind_params ps s)))
     \<and> (is_ok (fst (bind_params ps s)) \<longrightarrow> scoped (L @ map (\<lambda>p. (fst (fst p), snd p)) ps) (snd (bind_params ps s)))"
proof (induction ps arbitrary: L s rule: bind_params.induct)
  case 1
  then show ?case by (simp add: okS_def)
next
  case (2 y ty v ps)
  have "scoped (L @ [(y, v)]) (push_local y v s)" using 2(2) by (rule scoped_push)
  from 2(1) [OF this] show ?case
    by (cases "check_type v ty") (auto simp: bindS_def liftS_def modS_def mask_push [symmetric])
qed

lemma blind_enter_frame:
  assumes "blind D (L @ map (\<lambda>p. (fst (fst p), snd p)) ps) m"
  shows "blind D L (bindS (bind_params ps) (\<lambda>_. finallyS m (truncate_locals (length L))))"
proof -
  let ?m = "bindS (bind_params ps) (\<lambda>_. finallyS m (truncate_locals (length L)))"
  have "?m (mask D s) = (fst (?m s), mask D (snd (?m s))) \<and> (is_ok (fst (?m s)) \<longrightarrow> scoped L (snd (?m s)))"
    if s: "scoped L s" for s
  proof (cases "bind_params ps s")
    case (Pair r s1)
    show ?thesis
    proof (cases r)
      case (Ok u)
      with bind_params_blind [OF s, of ps D] Pair
      have b: "bind_params ps (mask D s) = (Ok u, mask D s1)" "scoped (L @ map (\<lambda>p. (fst (fst p), snd p)) ps) s1"
        by auto
      with assms have "m (mask D s1) = (fst (m s1), mask D (snd (m s1)))"
        "is_ok (fst (m s1)) \<longrightarrow> scoped (L @ map (\<lambda>p. (fst (fst p), snd p)) ps) (snd (m s1))"
        by (auto simp: blind_def)
      then show ?thesis
        using Pair Ok b
        by (auto simp: bindS_def finallyS_def mask_trunc scoped_def ls.trunc_ok ls.trunc_abs split: prod.splits)
    next
      case (Fail e)
      then show ?thesis using bind_params_blind [OF s, of ps D] Pair by (auto simp: bindS_def)
    qed
  qed
  then show ?thesis by (simp add: blind_def)
qed

lemma blind_stack_height:
  assumes "blind D L (f (length L))"
  shows "blind D L (bindS (getS (\<lambda>st. length (local_stack st))) f)"
  using assms locals_abs_length
  by (auto simp: blind_def bindS_def getS_def scoped_def)

lemma blind_variable:
  assumes "y \<in> B \<union> D" "B \<subseteq> fst ` set (drop fp L)"
  shows "blind D L (eval_variable ctx y fp)"
proof -
  have "eval_variable ctx y fp (mask D s) = (fst (eval_variable ctx y fp s), mask D (snd (eval_variable ctx y fp s)))
      \<and> (is_ok (fst (eval_variable ctx y fp s)) \<longrightarrow> scoped L (snd (eval_variable ctx y fp s)))"
    if s: "scoped L s" for s
  proof -
    have look: "get_local s y fp = Ok (map_of (rev (drop fp L)) y)"
      using s ls.look_abs by (simp add: scoped_def)
    have "get_local (mask D s) y fp = Ok (map_of (rev (drop fp L)) y)"
      using s ls.look_abs [of "mask D s"] by (simp add: scoped_def locals_ok_def locals_abs_def)
    moreover have "get_global (mask D s) y = get_global s y" if "map_of (rev (drop fp L)) y = None"
    proof -
      have "y \<notin> B" using that assms(2) by (auto simp: map_of_eq_None_iff)
      then show ?thesis using assms(1) by (simp add: get_global_def)
    qed
    ultimately show ?thesis
      using look s by (cases "map_of (rev (drop fp L)) y") (auto simp: eval_variable_def)
  qed
  then show ?thesis by (simp add: blind_def)
qed

lemma liftS_Ok: "liftS x s = (Ok v, s') \<longleftrightarrow> x = Ok v \<and> s' = s"
  by (auto simp: liftS_def)

section \<open>The evaluator reads only what is covered\<close>

definition functions_closed :: "symbol set \<Rightarrow> symbol set \<Rightarrow> symbol set \<Rightarrow> function_table \<Rightarrow> bool" where
  "functions_closed D F G fs \<longleftrightarrow>
     (\<forall>y \<in> F. \<forall>f e. fs y = Some f \<longrightarrow> root_expr (fn_body f) = Ok e \<longrightarrow>
        covers D F G (tree_arena (fn_body f)) (set (map fst (fn_params f))) e)"

definition gst_names :: "eval_ctx \<Rightarrow> symbol set \<Rightarrow> bool" where
  "gst_names ctx G \<longleftrightarrow> (\<forall>y \<in> G. resolve_or ''<unknown>'' ctx y = ''get_system_time'')"

text \<open>The contract of the recursive call: whatever is covered in its scope, it evaluates blindly.\<close>

locale blind_evaluator =
  fixes ctx :: eval_ctx and D F G :: "symbol set"
    and ev :: "expr \<Rightarrow> nat \<Rightarrow> expr_arena \<Rightarrow> mval ecomput"
  assumes ev_blind: "functions_closed D F G (ctx_functions ctx) \<Longrightarrow> gst_names ctx G \<Longrightarrow> covers D F G ar B e \<Longrightarrow>
    B \<subseteq> fst ` set (drop fp L) \<Longrightarrow> fp \<le> length L \<Longrightarrow> blind D L (ev e fp ar)"
begin

lemma blind_call:
  assumes "functions_closed D F G (ctx_functions ctx)" "gst_names ctx G" "y \<in> F" "\<And>i. i \<in> set args \<Longrightarrow> blind D L (eva i)"
  shows "blind D L (call_function ev ctx eva y args)"
proof (cases "ctx_functions ctx y")
  case None
  then show ?thesis by (simp add: call_function_def blind_rules)
next
  case (Some f)
  have tail: "blind D L (bindS (getS (\<lambda>st. length (local_stack st))) (\<lambda>new_fp.
      bindS (bind_params (zip (fn_params f) vs)) (\<lambda>_.
      bindS (liftS (root_expr (fn_body f))) (\<lambda>body.
      finallyS (ev body new_fp (tree_arena (fn_body f))) (truncate_locals new_fp)))))"
    if len: "length vs = length (fn_params f)" for vs
  proof (rule blind_stack_height, cases "root_expr (fn_body f)")
    case (Ok e)
    let ?ps = "zip (fn_params f) vs"
    have names: "fst ` set (map (\<lambda>p. (fst (fst p), snd p)) ?ps) = set (map fst (fn_params f))"
      using len by (force simp: image_iff set_zip in_set_conv_nth)
    have "blind D (L @ map (\<lambda>p. (fst (fst p), snd p)) ?ps) (ev e (length L) (tree_arena (fn_body f)))"
      using assms(1,2,3) Some Ok names
      by (intro ev_blind [where B = "set (map fst (fn_params f))"]) (auto simp: functions_closed_def)
    from blind_enter_frame [OF this] Ok
    show "blind D L (bindS (bind_params ?ps) (\<lambda>_. bindS (liftS (root_expr (fn_body f))) (\<lambda>body.
        finallyS (ev body (length L) (tree_arena (fn_body f))) (truncate_locals (length L)))))"
      by (simp add: liftS_def bindS_def [of "\<lambda>s. (Ok e, s)"])
  next
    case (Fail e)
    have "blind D L (bindS (bind_params (zip (fn_params f) vs)) (\<lambda>_. failS e))"
      using bind_params_blind by (auto simp: blind_def bindS_def failS_def split: prod.splits outcome.splits)
    then show "blind D L (bindS (bind_params (zip (fn_params f) vs)) (\<lambda>_. bindS (liftS (root_expr (fn_body f))) (\<lambda>body.
        finallyS (ev body (length L) (tree_arena (fn_body f))) (truncate_locals (length L)))))"
      using Fail by (simp add: liftS_def failS_def bindS_def [of "\<lambda>s. (Fail e, s)"])
  qed
  show ?thesis
    unfolding call_function_def
    using Some assms(4) by (auto intro!: blind_rules tail dest: mapS_length)
qed

lemma blind_eval_call:
  assumes "functions_closed D F G (ctx_functions ctx)" "gst_names ctx G" "y \<in> F" "\<And>i. i \<in> set args \<Longrightarrow> blind D L (eva i)"
  shows "blind D L (eval_call ev ctx eva ar y args)"
proof -
  have arg: "blind D L (eva (args ! k))" if "k < length args" for k using assms(4) that by simp
  show ?thesis
    unfolding eval_call_def Let_def copy_to_clipboard_def get_system_time_def store_local_def download_def builtin_defs
    using blind_call [OF assms]
    by (auto intro!: blind_rules arg split: mval.splits)
qed

lemma blind_child:
  assumes "functions_closed D F G (ctx_functions ctx)" "gst_names ctx G" "B \<subseteq> fst ` set (drop fp L)" "fp \<le> length L"
    and "\<And>e. arena_get ar i = Ok e \<Longrightarrow> covers D F G ar B e"
  shows "blind D L (bindS (liftS (arena_get ar i)) (\<lambda>e. ev e fp ar))"
  using assms ev_blind [of ar B _ fp L] by (auto intro!: blind_rules simp: liftS_Ok)

lemma blind_impl:
  assumes fc: "functions_closed D F G (ctx_functions ctx)" "gst_names ctx G" and cov: "covers D F G ar B e"
    and sc: "B \<subseteq> fst ` set (drop fp L)" "fp \<le> length L"
  shows "blind D L (evaluate_impl ev ctx e fp ar)"
proof -
  let ?eva = "\<lambda>i. bindS (liftS (arena_get ar i)) (\<lambda>e. ev e fp ar)"
  note kid = blind_child [OF fc sc]
  show ?thesis
    using cov
  proof (cases rule: covers.cases)
    case (lit v)
    then show ?thesis by (simp add: evaluate_impl_def blind_rules)
  next
    case (var y)
    then show ?thesis using blind_variable sc by (simp add: evaluate_impl_def)
  next
    case (bin l r op)
    then have "blind D L (?eva l)" "blind D L (?eva r)" by (auto intro!: kid)
    then show ?thesis using bin by (auto simp: evaluate_impl_def eval_binop_def intro!: blind_rules)
  next
    case (call y st n)
    have "blind D L (eval_call ev ctx ?eva ar y args)" if "arena_args ar st n = Ok args" for args
      using call that by (intro blind_eval_call [OF fc]) (auto intro!: kid)
    then show ?thesis using call by (auto simp: evaluate_impl_def liftS_Ok intro!: blind_bind blind_lift)
  next
    case (skip y st n)
    then have "resolve_or ''<unknown>'' ctx y = ''get_system_time''" using fc(2) by (simp add: gst_names_def)
    then have "blind D L (eval_call ev ctx ?eva ar y args)" for args
      by (auto simp: eval_call_def get_system_time_def intro!: blind_rules)
    then show ?thesis using skip by (auto simp: evaluate_impl_def intro!: blind_bind blind_lift)
  next
    case (bnd v b y)
    have "blind D L (?eva v)" using bnd by (intro kid)
    moreover have "blind D (L @ [(y, w)]) (?eva b)" for w
      using bnd sc by (intro blind_child [OF fc, of "insert y B"]) auto
    ultimately show ?thesis
      using bnd by (auto simp: evaluate_impl_def Let_def eval_let_def intro!: blind_bind [of D L "?eva v"] blind_let)
  next
    case (neg i)
    have "blind D L (?eva i)" using neg by (intro kid)
    then show ?thesis using neg by (auto simp: evaluate_impl_def eval_not_def intro!: blind_rules split: mval.splits)
  next
    case (ite c t f)
    then have "blind D L (?eva c)" "blind D L (?eva t)" "blind D L (?eva f)" by (auto intro!: kid)
    then show ?thesis using ite by (auto simp: evaluate_impl_def eval_if_def intro!: blind_rules split: mval.splits)
  next
    case (fld i g h)
    have "blind D L (?eva i)" using fld by (intro kid)
    then show ?thesis using fld by (auto simp: evaluate_impl_def eval_field_def intro!: blind_rules split: mval.splits)
  qed
qed

end

lemma blind_enter:
  assumes "blind D L m"
  shows "blind D L (enter_eval m)"
proof -
  have "enter_eval m (mask D s) = (fst (enter_eval m s), mask D (snd (enter_eval m s)))
      \<and> (is_ok (fst (enter_eval m s)) \<longrightarrow> scoped L (snd (enter_eval m s)))" if "scoped L s" for s
  proof -
    define s2 where "s2 = s\<lparr>instruction_count := Suc (instruction_count s), eval_depth := Suc (eval_depth s)\<rparr>"
    obtain r s' where r: "m s2 = (r, s')" by fastforce
    have "scoped L s2" using that by (simp add: s2_def scoped_def locals_ok_def locals_abs_def)
    then have "m (mask D s2) = (r, mask D s')" "is_ok r \<longrightarrow> scoped L s'"
      using assms r by (auto simp: blind_def)
    moreover have "mask D s2 = (mask D s)\<lparr>instruction_count := Suc (instruction_count s), eval_depth := Suc (eval_depth s)\<rparr>"
      by (simp add: s2_def mask_count mask_depth)
    ultimately show ?thesis
      using r unfolding s2_def
      by (auto simp: enter_eval_def Let_def finallyS_def mask_count mask_depth scoped_depth)
  qed
  then show ?thesis by (simp add: blind_def)
qed

lemma evaluate_fuel_blind: "blind_evaluator ctx D F G (evaluate_fuel n ctx)"
proof (induction n)
  case 0
  show ?case by unfold_locales (simp add: blind_rules)
next
  case (Suc n)
  show ?case
    by unfold_locales (auto intro!: blind_enter blind_evaluator.blind_impl [OF Suc])
qed

interpretation eb: blind_evaluator ctx D F G "evaluate_fuel n ctx" for ctx D F G n
  by (rule evaluate_fuel_blind)

lemma evaluate_tree_blind:
  assumes "functions_closed D F G (ctx_functions ctx)" "gst_names ctx G"
    and "\<And>e. root_expr t = Ok e \<Longrightarrow> covers D F G (tree_arena t) {} e" "scoped L s" "fp \<le> length L"
  shows "evaluate_tree ctx t fp (mask D s) =
    (fst (evaluate_tree ctx t fp s), mask D (snd (evaluate_tree ctx t fp s)))"
proof -
  have "blind D L (evaluate_tree ctx t fp)"
    unfolding evaluate_tree_def evaluate_def
    using assms eb.ev_blind [OF assms(1,2), of "tree_arena t" "{}" _ fp L]
    by (auto intro!: blind_bind blind_lift simp: liftS_Ok simp del: evaluate_fuel.simps)
  then show ?thesis using assms(4) by (simp add: blind_def)
qed

lemma dependencies_cover:
  assumes "comp_dependencies name t fl = Ok deps"
  obtains F where "functions_closed (insert name deps) F {} (map_of fl)"
    "\<And>e. root_expr t = Ok e \<Longrightarrow> covers (insert name deps) F {} (tree_arena t) {} e"
proof -
  let ?D = "insert name deps" and ?fn = "set (map fst fl)"
  obtain e S1 C S where d: "root_expr t = Ok e"
    "collect_vars (walk_fuel (tree_arena t)) (tree_arena t) e {} = Ok S1"
    "tree_calls ?fn t = Ok C" "reads_loop fl (rev (sorted_list_of_set C)) {} S1 = Ok S" "deps = S - {name}"
    using assms by (auto simp: comp_dependencies_def collect_reachable_function_reads_def bindO_Ok)
  obtain F where F: "S1 \<subseteq> S" "C \<subseteq> F" "closed_under fl S {} F"
    using reads_loop_closed [OF d(4)] tree_calls_finite [OF d(3)] by auto
  have S: "S \<subseteq> ?D" using d(5) by auto
  show thesis
  proof (rule that)
    show "functions_closed ?D F {} (map_of fl)"
      unfolding functions_closed_def
    proof (intro ballI allI impI)
      fix y f b assume "y \<in> F" "map_of fl y = Some f" and b: "root_expr (fn_body f) = Ok b"
      then obtain out S' C' where r: "free_reads f out = Ok S'" "S' \<subseteq> S" "tree_calls ?fn (fn_body f) = Ok C'" "C' \<subseteq> F"
        using F(3) unfolding closed_under_def by blast
      then show "covers ?D F {} (tree_arena (fn_body f)) (set (map fst (fn_params f))) b"
        using b S by (auto simp: free_reads_def tree_calls_def intro: free_vars_covers)
    qed
    show "covers ?D F {} (tree_arena t) {} e'" if "root_expr t = Ok e'" for e'
      using d F S that by (auto simp: tree_calls_def intro: vars_covers)
  qed
qed

section \<open>Properties\<close>

text \<open>
  (C21) The dependency set of a computed variable is sound: two stores that differ only in
  globals outside the set (the variable itself aside) evaluate its expression to the
  same result, at the same cost, queueing the same actions, whatever functions it
  calls. So a mutation outside the set can never make the stored value stale.
\<close>

theorem comp_dependencies_sound:
  assumes "comp_dependencies name t fl = Ok deps" "ctx_functions ctx = map_of fl" "locals_ok s"
    and "\<forall>y \<in> insert name deps. g y = global_store s y"
    and "evaluate_tree ctx t 0 s = (r, s')"
  shows "\<exists>s''. evaluate_tree ctx t 0 (s\<lparr>global_store := g\<rparr>) = (r, s'')
     \<and> s''\<lparr>global_store := Map.empty\<rparr> = s'\<lparr>global_store := Map.empty\<rparr>"
proof -
  let ?D = "insert name deps" and ?t = "s\<lparr>global_store := g\<rparr>"
  obtain F where F: "functions_closed ?D F {} (map_of fl)"
    "\<And>e. root_expr t = Ok e \<Longrightarrow> covers ?D F {} (tree_arena t) {} e"
    using dependencies_cover [OF assms(1)] by blast
  have fc: "functions_closed ?D F {} (ctx_functions ctx)" "gst_names ctx {}"
    using F(1) assms(2) by (simp_all add: gst_names_def)
  have sc: "scoped (locals_abs s) s" "scoped (locals_abs s) ?t"
    using assms(3) by (simp_all add: scoped_def locals_ok_def locals_abs_def)
  have "g |` ?D = global_store s |` ?D"
    using assms(4) by (auto simp: restrict_map_def)
  then have "mask ?D ?t = mask ?D s" by (simp add: mask_def)
  moreover note evaluate_tree_blind [OF fc F(2) sc(1), of 0] evaluate_tree_blind [OF fc F(2) sc(2), of 0]
  ultimately have r: "fst (evaluate_tree ctx t 0 ?t) = r"
    and m: "mask ?D (snd (evaluate_tree ctx t 0 ?t)) = mask ?D s'"
    using assms(5) by simp_all
  have "x\<lparr>global_store := Map.empty\<rparr> = y\<lparr>global_store := Map.empty\<rparr>" if "mask ?D x = mask ?D y" for x y
    using arg_cong [OF that, of "\<lambda>z. z\<lparr>global_store := Map.empty\<rparr>"] by (simp add: mask_def)
  from this [OF m] r show ?thesis by (metis prod.collapse)
qed

text \<open>A document with \<^verbatim>\<open>f(p) : p + z\<close> and \<^verbatim>\<open>comp y = f(x)\<close>: the global \<^verbatim>\<open>z\<close> is a dependency of \<^verbatim>\<open>y\<close>.\<close>

definition demo_functions :: function_list where
  "demo_functions =
     [(0, \<lparr>fn_params = [(2, TNum)],
           fn_body = \<lparr>tree_arena = \<lparr>nodes = [EVariable 2, EVariable 3, EBinaryOp 0 Add 1], args_pool = []\<rparr>,
                      tree_root = 2\<rparr>\<rparr>)]"

definition demo_tree :: expr_tree where
  "demo_tree = \<lparr>tree_arena = \<lparr>nodes = [EVariable 1, EFunctionCall 0 0 1], args_pool = [0]\<rparr>, tree_root = 1\<rparr>"

lemma demo_dependencies: "comp_dependencies 5 demo_tree demo_functions = Ok {1, 3}"
  by (simp add: comp_dependencies_def collect_reachable_function_reads_def tree_calls_def free_reads_def
      demo_tree_def demo_functions_def root_expr_def arena_get_def index_or_panic_def walk_fuel_def Let_def
      arena_args_def insert_commute)

theorem comp_dependencies_sound_witness:
  "fst (evaluate_tree (bare_ctx (map_of demo_functions)) demo_tree 0 (evaluator_default\<lparr>global_store := [9 \<mapsto> VInt 4]\<rparr>))
   = fst (evaluate_tree (bare_ctx (map_of demo_functions)) demo_tree 0 evaluator_default)"
proof -
  obtain r s' where r: "evaluate_tree (bare_ctx (map_of demo_functions)) demo_tree 0 evaluator_default = (r, s')"
    by fastforce
  have ok: "locals_ok evaluator_default" using default_state_ok(1) by (simp add: state_ok_def)
  have g: "\<forall>y \<in> insert 5 {1, 3}. [9 \<mapsto> VInt 4] y = global_store evaluator_default y"
    by (simp add: evaluator_default_def evaluator_new_def)
  show ?thesis
    using comp_dependencies_sound [where g = "[9 \<mapsto> VInt 4]", OF demo_dependencies _ ok g r] r by auto
qed

end
