(* ===== verification/Mizu_Purity.thy ===== *)
theory Mizu_Purity
  imports Mizu_Deps
begin

text \<open>
  The purity check of \<^verbatim>\<open>parser/logic/purity.rs\<close>, and what it means for evaluation: an
  expression that reaches no effectful built-in queues no action. The check looks at
  the expression alone and takes every call of a document function for pure; the last
  theorem shows what that leaves open.
\<close>

definition KNOWN_PURE_BUILTINS :: "string list" where
  "KNOWN_PURE_BUILTINS =
     [''filter'', ''count'', ''sort'', ''length'', ''to_string'', ''contains'', ''has_field'']"

text \<open>\<^verbatim>\<open>or_else\<close> over the sub-expressions: the first name found.\<close>

fun first_found :: "(expr \<Rightarrow> 'a option outcome) \<Rightarrow> expr_arena \<Rightarrow> expr_id list \<Rightarrow> 'a option outcome" where
  "first_found f ar [] = Ok None"
| "first_found f ar (i # ids) =
     bindO (arena_get ar i) (\<lambda>e. bindO (f e) (\<lambda>r. case r of Some n \<Rightarrow> Ok (Some n) | None \<Rightarrow> first_found f ar ids))"

definition known_effect :: "string_interner \<Rightarrow> function_table \<Rightarrow> symbol \<Rightarrow> string option" where
  "known_effect t fs y =
     (case resolve t y of
        Some n \<Rightarrow> if fs y = None \<and> n \<notin> set KNOWN_PURE_BUILTINS then Some n else None
      | None \<Rightarrow> None)"

primrec find_side_effect_call ::
  "nat \<Rightarrow> string_interner \<Rightarrow> function_table \<Rightarrow> expr_arena \<Rightarrow> expr \<Rightarrow> string option outcome" where
  "find_side_effect_call 0 t fs ar e = Fail OutOfFuel"
| "find_side_effect_call (Suc n) t fs ar e =
     (let rec = first_found (find_side_effect_call n t fs ar) ar in
      case e of
        ELiteral _ \<Rightarrow> Ok None
      | EVariable _ \<Rightarrow> Ok None
      | EBinaryOp left _ right \<Rightarrow> rec [left, right]
      | EFunctionCall y args_start args_len \<Rightarrow>
          (case known_effect t fs y of
             Some name \<Rightarrow> Ok (Some name)
           | None \<Rightarrow> bindO (arena_args ar args_start args_len) rec)
      | ELet _ v body \<Rightarrow> rec [v, body]
      | ENot inner \<Rightarrow> rec [inner]
      | EIfElse condition then_expr else_expr \<Rightarrow> rec [condition, then_expr, else_expr]
      | EFieldAccess base _ _ \<Rightarrow> rec [base])"

definition tree_side_effect :: "string_interner \<Rightarrow> function_table \<Rightarrow> expr_tree \<Rightarrow> string option outcome" where
  "tree_side_effect t fs tr =
     bindO (root_expr tr) (\<lambda>e. find_side_effect_call (walk_fuel (tree_arena tr)) t fs (tree_arena tr) e)"

section \<open>What the check establishes\<close>

text \<open>The names that pass it: document functions, pure built-ins, and unresolvable symbols.\<close>

definition passed_names :: "string_interner \<Rightarrow> function_table \<Rightarrow> symbol set" where
  "passed_names t fs = {y. known_effect t fs y = None}"

lemma first_found_None:
  "first_found f ar ids = Ok None \<Longrightarrow> i \<in> set ids \<Longrightarrow> arena_get ar i = Ok e \<Longrightarrow> f e = Ok None"
  by (induction ids) (auto simp: bindO_Ok split: option.splits)

lemma passed_name: "known_effect t fs y = None \<Longrightarrow> y \<in> passed_names t fs"
  by (simp add: passed_names_def)

lemma pure_covers:
  "find_side_effect_call n t fs ar e = Ok None \<Longrightarrow> covers UNIV (passed_names t fs) {} ar B e"
proof (induction n arbitrary: e B)
  case (Suc n)
  have all: "\<forall>i \<in> set ids. \<forall>c B'. arena_get ar i = Ok c \<longrightarrow> covers UNIV (passed_names t fs) {} ar B' c"
    if "first_found (find_side_effect_call n t fs ar) ar ids = Ok None" for ids
    using Suc.IH first_found_None [OF that] by blast
  show ?case
    using Suc.prems
    by (cases e) (auto simp: Let_def bindO_Ok simp del: first_found.simps split: option.splits
        dest: all passed_name intro!: covers_rules)
qed simp

lemma tree_side_effect_covers:
  "tree_side_effect t fs tr = Ok None \<Longrightarrow> root_expr tr = Ok e \<Longrightarrow>
     covers UNIV (passed_names t fs) {} (tree_arena tr) B e"
  by (simp add: tree_side_effect_def pure_covers)

section \<open>Quiet computations\<close>

definition quiet :: "'a ecomput \<Rightarrow> bool" where
  "quiet m \<longleftrightarrow> (\<forall>s. accumulated_actions (snd (m s)) = accumulated_actions s)"

named_theorems quiet_rules "computations that queue no action"

lemma quiet_bind [quiet_rules]:
  "quiet m \<Longrightarrow> (\<And>v. quiet (f v)) \<Longrightarrow> quiet (bindS m f)"
  by (auto simp: quiet_def bindS_def split: prod.splits outcome.splits) (metis snd_conv)+

lemma quiet_basic [quiet_rules]:
  "quiet (okS v)" "quiet (failS e)" "quiet (liftS x)" "quiet (getS g)" "quiet (charge n)" "quiet check_budget"
  by (simp_all add: quiet_def okS_def failS_def liftS_def getS_def charge_def modS_def check_budget_def)

lemma quiet_if [quiet_rules]: "quiet m \<Longrightarrow> quiet n \<Longrightarrow> quiet (if c then m else n)"
  by simp

lemma quiet_map [quiet_rules]: "(\<And>x. x \<in> set xs \<Longrightarrow> quiet (f x)) \<Longrightarrow> quiet (mapS f xs)"
  by (induction xs) (auto intro!: quiet_rules)

lemma quiet_counter [quiet_rules]:
  "quiet (\<lambda>st. case g (instruction_count st) (max_instructions st) of (r, ic) \<Rightarrow> (r, st\<lparr>instruction_count := ic\<rparr>))"
  by (simp add: quiet_def split: prod.splits)

lemma quiet_filter_run [quiet_rules]:
  "quiet (\<lambda>st. case filter_loop bop field target (max_instructions st) items (instruction_count st) of
      (Ok filtered, ic) \<Rightarrow> (Ok (VList filtered), st\<lparr>instruction_count := ic\<rparr>)
    | (Fail e, _) \<Rightarrow> (Fail e, st))"
  by (auto simp: quiet_def split: prod.splits outcome.splits)

lemma quiet_length_run [quiet_rules]:
  "quiet (\<lambda>st. if sat_add (instruction_count st) (length s) > max_instructions st then (Err Timeout, st)
      else (Ok (VInt (as_i64 (char_count s))),
            st\<lparr>instruction_count := sat_add (instruction_count st) (char_count s)\<rparr>))"
  by (simp add: quiet_def)

lemma quiet_count_loop [quiet_rules]: "quiet (count_loop ctx field target items n)"
proof (induction items arbitrary: n)
  case (Cons item items)
  then show ?case
    using quiet_counter [of "budget_eq (ctx_ptr_eq ctx) v target" for v]
    by (auto split: option.splits intro!: quiet_rules)
qed (simp add: quiet_rules)

lemma quiet_push [quiet_rules]: "quiet (modS (push_local y v))"
  by (simp add: quiet_def modS_def)

lemma quiet_bind_params [quiet_rules]: "quiet (bind_params ps)"
  by (induction ps rule: bind_params.induct) (auto intro!: quiet_rules)

lemma quiet_finally:
  "quiet m \<Longrightarrow> (\<And>s. accumulated_actions (g s) = accumulated_actions s) \<Longrightarrow> quiet (finallyS m g)"
  by (auto simp: quiet_def finallyS_def split: prod.splits) (metis snd_conv)

lemma quiet_cleanup [quiet_rules]:
  "quiet m \<Longrightarrow> quiet (finallyS m (truncate_locals k))" "quiet m \<Longrightarrow> quiet (finallyS m pop_local)"
  by (auto intro: quiet_finally)

lemma quiet_variable [quiet_rules]: "quiet (eval_variable ctx y fp)"
  by (auto simp: quiet_def eval_variable_def split: outcome.splits option.splits)

section \<open>Quiet evaluation\<close>

definition EFFECTFUL :: "string set" where
  "EFFECTFUL = {''copy_to_clipboard'', ''get_system_time'', ''store_local'', ''download''}"

definition harmless :: "eval_ctx \<Rightarrow> symbol set \<Rightarrow> bool" where
  "harmless ctx F \<longleftrightarrow> (\<forall>y \<in> F. resolve_or ''<unknown>'' ctx y \<notin> EFFECTFUL)"

text \<open>The contract of the recursive call: an expression that calls harmless names only is quiet.\<close>

locale quiet_evaluator =
  fixes ctx :: eval_ctx and F :: "symbol set" and ev :: "expr \<Rightarrow> nat \<Rightarrow> expr_arena \<Rightarrow> mval ecomput"
  assumes ev_quiet: "functions_closed UNIV F {} (ctx_functions ctx) \<Longrightarrow> harmless ctx F \<Longrightarrow>
    covers UNIV F {} ar B e \<Longrightarrow> quiet (ev e fp ar)"
begin

lemma quiet_call:
  assumes "functions_closed UNIV F {} (ctx_functions ctx)" "harmless ctx F" "y \<in> F"
    and "\<And>i. i \<in> set args \<Longrightarrow> quiet (eva i)"
  shows "quiet (call_function ev ctx eva y args)"
proof (cases "ctx_functions ctx y")
  case None
  then show ?thesis by (simp add: call_function_def quiet_rules)
next
  case (Some f)
  have tail: "quiet (bindS (liftS (root_expr (fn_body f))) (\<lambda>body.
      finallyS (ev body fp (tree_arena (fn_body f))) (truncate_locals fp)))" for fp
  proof (cases "root_expr (fn_body f)")
    case (Ok e)
    have "quiet (ev e fp (tree_arena (fn_body f)))"
      using assms(1,3) Some Ok by (intro ev_quiet [OF assms(1,2)]) (auto simp: functions_closed_def)
    then have "quiet (finallyS (ev e fp (tree_arena (fn_body f))) (truncate_locals fp))" by (rule quiet_rules)
    then show ?thesis using Ok by (simp add: quiet_def bindS_def liftS_def)
  qed (simp add: quiet_def bindS_def liftS_def)
  show ?thesis
    using Some assms(4) by (auto simp: call_function_def intro!: quiet_rules tail)
qed

lemma quiet_eval_call:
  assumes "functions_closed UNIV F {} (ctx_functions ctx)" "harmless ctx F" "y \<in> F"
    and "\<And>i. i \<in> set args \<Longrightarrow> quiet (eva i)"
  shows "quiet (eval_call ev ctx eva ar y args)"
proof -
  have arg: "quiet (eva (args ! k))" if "k < length args" for k using assms(4) that by simp
  have name: "resolve_or ''<unknown>'' ctx y \<notin> EFFECTFUL" using assms(2,3) by (simp add: harmless_def)
  show ?thesis
    unfolding eval_call_def Let_def builtin_defs
    using quiet_call [OF assms] name
    by (auto simp: EFFECTFUL_def intro!: quiet_rules arg split: mval.splits)
qed

lemma quiet_impl:
  assumes fc: "functions_closed UNIV F {} (ctx_functions ctx)" "harmless ctx F" and cov: "covers UNIV F {} ar B e"
  shows "quiet (evaluate_impl ev ctx e fp ar)"
proof -
  let ?eva = "\<lambda>i. bindS (liftS (arena_get ar i)) (\<lambda>e. ev e fp ar)"
  have kid: "quiet (?eva i)" if h: "\<And>e. arena_get ar i = Ok e \<Longrightarrow> covers UNIV F {} ar B' e" for i B'
  proof (cases "arena_get ar i")
    case (Ok e)
    with ev_quiet [OF fc h [OF Ok]] show ?thesis by (simp add: quiet_def bindS_def liftS_def)
  qed (simp add: quiet_def bindS_def liftS_def)
  show ?thesis
    using cov
  proof (cases rule: covers.cases)
    case (call y st n)
    have "quiet (eval_call ev ctx ?eva ar y args)" if "arena_args ar st n = Ok args" for args
      using call that by (intro quiet_eval_call [OF fc]) (auto intro!: kid)
    then show ?thesis
      using call by (cases "arena_args ar st n") (auto simp: evaluate_impl_def quiet_def bindS_def liftS_def)
  next
    case (bin l r op)
    then have "quiet (?eva l)" "quiet (?eva r)" by (auto intro!: kid)
    then show ?thesis using bin by (auto simp: evaluate_impl_def eval_binop_def intro!: quiet_rules)
  next
    case (bnd v b y)
    then have "quiet (?eva v)" "quiet (?eva b)" by (blast intro: kid)+
    then show ?thesis using bnd by (auto simp: evaluate_impl_def eval_let_def intro!: quiet_rules)
  next
    case (ite c t f)
    then have "quiet (?eva c)" "quiet (?eva t)" "quiet (?eva f)" by (auto intro!: kid)
    then show ?thesis using ite by (auto simp: evaluate_impl_def eval_if_def intro!: quiet_rules split: mval.splits)
  qed (auto simp: evaluate_impl_def eval_not_def eval_field_def intro!: quiet_rules kid split: mval.splits)
qed

end

lemma quiet_enter: "quiet m \<Longrightarrow> quiet (enter_eval m)"
  by (simp add: quiet_def enter_eval_def Let_def finallyS_def case_prod_beta)

lemma evaluate_fuel_quiet: "quiet_evaluator ctx F (evaluate_fuel n ctx)"
proof (induction n)
  case 0
  show ?case by unfold_locales (simp add: quiet_rules)
next
  case (Suc n)
  show ?case by unfold_locales (auto intro!: quiet_enter quiet_evaluator.quiet_impl [OF Suc])
qed

interpretation eq: quiet_evaluator ctx F "evaluate_fuel n ctx" for ctx F n
  by (rule evaluate_fuel_quiet)

lemma quiet_tree:
  assumes "functions_closed UNIV F {} (ctx_functions ctx)" "harmless ctx F"
    and "\<And>e. root_expr t = Ok e \<Longrightarrow> covers UNIV F {} (tree_arena t) {} e"
  shows "quiet (evaluate_tree ctx t fp)"
proof (cases "root_expr t")
  case (Ok e)
  with eq.ev_quiet [OF assms(1,2) assms(3) [OF Ok]] show ?thesis
    by (simp add: evaluate_tree_def evaluate_def quiet_def bindS_def liftS_def del: evaluate_fuel.simps)
qed (simp add: evaluate_tree_def quiet_def bindS_def liftS_def)

section \<open>Properties\<close>

text \<open>No document function has the name of an effectful built-in.\<close>

definition no_shadowing :: "eval_ctx \<Rightarrow> bool" where
  "no_shadowing ctx \<longleftrightarrow>
     (\<forall>y f. ctx_functions ctx y = Some f \<longrightarrow> resolve_or ''<unknown>'' ctx y \<notin> EFFECTFUL)"

lemma passed_harmless:
  assumes "no_shadowing ctx"
  shows "harmless ctx (passed_names (ctx_interner ctx) (ctx_functions ctx))"
  unfolding harmless_def
proof
  fix y assume "y \<in> passed_names (ctx_interner ctx) (ctx_functions ctx)"
  then have "known_effect (ctx_interner ctx) (ctx_functions ctx) y = None" by (simp add: passed_names_def)
  then show "resolve_or ''<unknown>'' ctx y \<notin> EFFECTFUL"
    using assms
    by (cases "ctx_functions ctx y")
      (auto simp: known_effect_def no_shadowing_def resolve_or_def EFFECTFUL_def KNOWN_PURE_BUILTINS_def
        split: option.splits if_splits)
qed


text \<open>
  A document with the functions \<^verbatim>\<open>f() : length("ab")\<close> and \<^verbatim>\<open>g() : store_local("k", 1)\<close>,
  the names interned in this order.
\<close>

definition names_ctx :: "function_table \<Rightarrow> eval_ctx" where
  "names_ctx fs =
     \<lparr>ctx_functions = fs,
      ctx_interner = snd (get_or_intern (snd (get_or_intern (snd (get_or_intern (snd (get_or_intern interner_new
        ''f'')) ''g'')) ''length'')) ''store_local''),
      ctx_ptr_eq = (\<lambda>_ _. False)\<rparr>"

definition length_function :: mizu_function where
  "length_function =
     \<lparr>fn_params = [],
      fn_body = \<lparr>tree_arena = \<lparr>nodes = [ELiteral (VString ''ab''), EFunctionCall 2 0 1], args_pool = [0]\<rparr>,
                 tree_root = 1\<rparr>\<rparr>"

definition storing_function :: mizu_function where
  "storing_function =
     \<lparr>fn_params = [],
      fn_body = \<lparr>tree_arena = \<lparr>nodes = [ELiteral (VString ''k''), ELiteral (VInt 1), EFunctionCall 3 0 2],
                               args_pool = [0, 1]\<rparr>,
                 tree_root = 2\<rparr>\<rparr>"

definition call_tree :: "symbol \<Rightarrow> expr_tree" where
  "call_tree y = \<lparr>tree_arena = \<lparr>nodes = [EFunctionCall y 0 0], args_pool = []\<rparr>, tree_root = 0\<rparr>"

lemmas check_defs =
  tree_side_effect_def root_expr_def arena_get_def index_or_panic_def walk_fuel_def Let_def arena_args_def
  known_effect_def KNOWN_PURE_BUILTINS_def names_ctx_def get_or_intern_def interner_new_def resolve_def
  call_tree_def length_function_def storing_function_def


lemma evaluate_fuel_literal:
  "evaluate_fuel (numeral k) ctx (ELiteral v) fp ar = enter_eval (okS v)"
  by (simp add: numeral_eq_Suc evaluate_impl_def)

text \<open>
  The check alone is not enough: it takes a call of a document function for pure without
  looking at the function's body. The expression \<^verbatim>\<open>g()\<close> passes it in the document above, and
  its evaluation queues a write to local storage.
\<close>

theorem purity_check_skips_bodies:
  "tree_side_effect (ctx_interner (names_ctx [1 \<mapsto> storing_function])) [1 \<mapsto> storing_function] (call_tree 1) = Ok None
   \<and> (\<exists>s'. evaluate_tree (names_ctx [1 \<mapsto> storing_function]) (call_tree 1) 0 evaluator_default = (Ok (VBool True), s')
        \<and> accumulated_actions s' = [RStoreLocal ''k'' (VInt 1)])"
  by (simp add: check_defs evaluate_tree_def evaluate_step enter_eval_def evaluate_impl_def comput_defs
      eval_call_def call_function_def resolve_or_def evaluator_default_def evaluator_new_def u64_defs
      MAX_EVAL_DEPTH_def store_local_def queue_action_def truncate_locals_def evaluate_fuel_literal)

end
