(* ===== verification/Mizu_Flow.thy ===== *)
theory Mizu_Flow
  imports Mizu_Purity
begin

text \<open>
  The information-flow check of \<^verbatim>\<open>parser/flow\<close>: the sources of taint (the \<^verbatim>\<open>$form\<close>
  record and the targets of network calls), its propagation over the dependency graph
  of functions, computed variables and assignments, and the check of the sinks.

  The layout tree enters only through the event blocks of its nodes, so it is the list
  of these lists. A hash map or hash set is iterated in the order of its list, or in
  ascending order.
\<close>

section \<open>Data\<close>

datatype action_context = UserGesture | NonInteractive

datatype taint_origin =
    NetworkResponse string
  | FormField
  | Propagated string

datatype event_block = Click action | Submit action

datatype dependent =
    DFunction symbol
  | DComp computed_binding
  | DAssign symbol

text \<open>The adjacency lists of the dependency graph, as the list of its edges in push order.\<close>

type_synonym flow_graph = "(symbol \<times> dependent) list"

record taint_state =
  tainted_vars :: "symbol set"
  tainted_functions :: "symbol set"
  taint_origins :: "symbol \<rightharpoonup> taint_origin"

section \<open>Walks over expressions\<close>

fun action_exprs :: "action \<Rightarrow> expr_tree list" where
  "action_exprs (AEval e) = [e]"
| "action_exprs (AAssign _ expr) = [expr]"
| "action_exprs (ANavigate url) = [url]"
| "action_exprs (ANetworkCall _ _ payload path_param _ _ headers) =
     (case payload of Some p \<Rightarrow> [p] | None \<Rightarrow> []) @ (case path_param of Some p \<Rightarrow> [p] | None \<Rightarrow> [])
     @ map snd headers"

primrec collect_get_system_time_targets ::
  "nat \<Rightarrow> expr_arena \<Rightarrow> symbol \<Rightarrow> expr \<Rightarrow> symbol list \<Rightarrow> symbol list outcome" where
  "collect_get_system_time_targets 0 ar gst e out = Fail OutOfFuel"
| "collect_get_system_time_targets (Suc n) ar gst e out =
     (let rec = walk (collect_get_system_time_targets n ar gst) ar in
      case e of
        ELiteral _ \<Rightarrow> Ok out
      | EVariable _ \<Rightarrow> Ok out
      | EBinaryOp left _ right \<Rightarrow> rec [left, right] out
      | EFunctionCall y args_start args_len \<Rightarrow>
          bindO (arena_args ar args_start args_len) (\<lambda>args.
          bindO (if y = gst then bare_variable ar args else Ok None) (\<lambda>target.
          rec args (case target of Some v \<Rightarrow> out @ [v] | None \<Rightarrow> out)))
      | ELet _ v body \<Rightarrow> rec [v, body] out
      | ENot inner \<Rightarrow> rec [inner] out
      | EIfElse condition then_expr else_expr \<Rightarrow> rec [condition, then_expr, else_expr] out
      | EFieldAccess base _ _ \<Rightarrow> rec [base] out)"

text \<open>The short-circuiting disjunction over sub-expressions.\<close>

fun any_true :: "(expr \<Rightarrow> bool outcome) \<Rightarrow> expr_arena \<Rightarrow> expr_id list \<Rightarrow> bool outcome" where
  "any_true f ar [] = Ok False"
| "any_true f ar (i # ids) =
     bindO (arena_get ar i) (\<lambda>e. bindO (f e) (\<lambda>b. if b then Ok True else any_true f ar ids))"

primrec is_expr_tainted ::
  "nat \<Rightarrow> expr_arena \<Rightarrow> symbol set \<Rightarrow> symbol set \<Rightarrow> symbol option \<Rightarrow> expr \<Rightarrow> bool outcome" where
  "is_expr_tainted 0 ar tv tf gst e = Fail OutOfFuel"
| "is_expr_tainted (Suc n) ar tv tf gst e =
     (let rec = any_true (is_expr_tainted n ar tv tf gst) ar in
      case e of
        EVariable y \<Rightarrow> Ok (y \<in> tv)
      | ELiteral _ \<Rightarrow> Ok False
      | EBinaryOp left _ right \<Rightarrow> rec [left, right]
      | EFunctionCall y args_start args_len \<Rightarrow>
          if Some y = gst then Ok False
          else if y \<in> tf then Ok True
          else bindO (arena_args ar args_start args_len) rec
      | ELet _ v body \<Rightarrow> rec [v, body]
      | ENot inner \<Rightarrow> rec [inner]
      | EIfElse condition then_expr else_expr \<Rightarrow> rec [condition, then_expr, else_expr]
      | EFieldAccess base _ _ \<Rightarrow> rec [base])"

primrec find_tainted_var_in_expr ::
  "nat \<Rightarrow> expr_arena \<Rightarrow> symbol set \<Rightarrow> symbol set \<Rightarrow> symbol option \<Rightarrow> expr \<Rightarrow> symbol option outcome" where
  "find_tainted_var_in_expr 0 ar tv tf gst e = Fail OutOfFuel"
| "find_tainted_var_in_expr (Suc n) ar tv tf gst e =
     (let rec = first_found (find_tainted_var_in_expr n ar tv tf gst) ar in
      case e of
        EVariable y \<Rightarrow> Ok (if y \<in> tv then Some y else None)
      | ELiteral _ \<Rightarrow> Ok None
      | EBinaryOp left _ right \<Rightarrow> rec [left, right]
      | EFunctionCall y args_start args_len \<Rightarrow>
          if Some y = gst then Ok None
          else if y \<in> tf then Ok (Some y)
          else bindO (arena_args ar args_start args_len) rec
      | ELet _ v body \<Rightarrow> rec [v, body]
      | ENot inner \<Rightarrow> rec [inner]
      | EIfElse condition then_expr else_expr \<Rightarrow> rec [condition, then_expr, else_expr]
      | EFieldAccess base _ _ \<Rightarrow> rec [base])"

primrec extract_deps :: "nat \<Rightarrow> expr_arena \<Rightarrow> symbol option \<Rightarrow> expr \<Rightarrow> symbol set \<Rightarrow> symbol set outcome" where
  "extract_deps 0 ar gst e deps = Fail OutOfFuel"
| "extract_deps (Suc n) ar gst e deps =
     (let rec = walk (extract_deps n ar gst) ar in
      case e of
        EVariable y \<Rightarrow> Ok (insert y deps)
      | EFunctionCall y args_start args_len \<Rightarrow>
          (let deps' = (if Some y \<noteq> gst then insert y deps else deps) in
           if args_len = 0 then Ok deps'
           else bindO (arena_args ar args_start args_len) (\<lambda>args. rec args deps'))
      | EBinaryOp left _ right \<Rightarrow> rec [left, right] deps
      | ENot operand \<Rightarrow> rec [operand] deps
      | EFieldAccess base _ _ \<Rightarrow> rec [base] deps
      | ELet _ v body \<Rightarrow> rec [v, body] deps
      | EIfElse condition then_expr else_expr \<Rightarrow> rec [condition, then_expr, else_expr] deps
      | ELiteral _ \<Rightarrow> Ok deps)"

definition name_or_unknown :: "string_interner \<Rightarrow> symbol \<Rightarrow> string" where
  "name_or_unknown t y = (case resolve t y of Some n \<Rightarrow> n | None \<Rightarrow> ''<unknown>'')"

definition quoted :: "string \<Rightarrow> string" where
  "quoted s = CHR 0x27 # s @ [CHR 0x27]"

definition build_taint_path :: "taint_state \<Rightarrow> string_interner \<Rightarrow> symbol option \<Rightarrow> expr_tree \<Rightarrow> string outcome" where
  "build_taint_path ts t gst url =
     bindO (root_expr url) (\<lambda>e.
     bindO (find_tainted_var_in_expr (walk_fuel (tree_arena url)) (tree_arena url)
              (tainted_vars ts) (tainted_functions ts) gst e) (\<lambda>r. case r of
       None \<Rightarrow> Ok ''tainted expression''
     | Some y \<Rightarrow>
         let var_name = name_or_unknown t y in
         Ok (case taint_origins ts y of
               Some (NetworkResponse action_desc) \<Rightarrow> ''value '' @ quoted var_name @ '' (from '' @ action_desc @ '')''
             | Some FormField \<Rightarrow> ''value '' @ quoted var_name @ '' (from $form)''
             | Some (Propagated from_var) \<Rightarrow>
                 ''value '' @ quoted var_name @ '' (derived from '' @ quoted from_var @ '')''
             | None \<Rightarrow> ''tainted value '' @ quoted var_name)))"

section \<open>Sources\<close>

definition collect_actions :: "event_block list list \<Rightarrow> root_timer list \<Rightarrow> (action_context \<times> action) list" where
  "collect_actions layout timers =
     concat (map (map (\<lambda>block. case block of Click a \<Rightarrow> (UserGesture, a) | Submit a \<Rightarrow> (UserGesture, a))) layout)
     @ map (\<lambda>timer. (NonInteractive, timer_action timer)) timers"

fun method_debug :: "network_method \<Rightarrow> string" where
  "method_debug Get = ''Get''"
| "method_debug Post = ''Post''"
| "method_debug Put = ''Put''"
| "method_debug Delete = ''Delete''"
| "method_debug Query = ''Query''"

definition form_source :: "string_interner \<Rightarrow> taint_state \<Rightarrow> taint_state" where
  "form_source t ts =
     (case interner_get t ''$form'' of
        Some form_sym \<Rightarrow> ts\<lparr>tainted_vars := insert form_sym (tainted_vars ts),
                            taint_origins := (taint_origins ts)(form_sym \<mapsto> FormField)\<rparr>
      | None \<Rightarrow> ts)"

definition network_source :: "string_interner \<Rightarrow> action \<Rightarrow> taint_state \<Rightarrow> taint_state" where
  "network_source t a ts =
     (case a of
        ANetworkCall mth alias_sym _ _ target_var _ _ \<Rightarrow>
          (case interner_get t target_var of
             Some y \<Rightarrow>
               ts\<lparr>tainted_vars := insert y (tainted_vars ts),
                  taint_origins := (taint_origins ts)
                    (y \<mapsto> NetworkResponse (method_debug mth @ ''('' @ name_or_unknown t alias_sym @ '')''))\<rparr>
           | None \<Rightarrow> ts)
      | _ \<Rightarrow> ts)"

definition taint_sources :: "string_interner \<Rightarrow> (action_context \<times> action) list \<Rightarrow> taint_state" where
  "taint_sources t actions =
     fold (network_source t \<circ> snd) actions
       (form_source t \<lparr>tainted_vars = {}, tainted_functions = {}, taint_origins = Map.empty\<rparr>)"

section \<open>The dependency graph\<close>

definition tree_deps :: "symbol option \<Rightarrow> expr_tree \<Rightarrow> symbol set outcome" where
  "tree_deps gst t =
     bindO (root_expr t) (\<lambda>e. extract_deps (walk_fuel (tree_arena t)) (tree_arena t) gst e {})"

definition push_edges :: "dependent \<Rightarrow> symbol set \<Rightarrow> flow_graph \<Rightarrow> flow_graph" where
  "push_edges d deps g = g @ map (\<lambda>dep. (dep, d)) (sorted_list_of_set deps)"

fun add_all :: "symbol option \<Rightarrow> (expr_tree \<times> dependent) list \<Rightarrow> flow_graph \<Rightarrow> flow_graph outcome" where
  "add_all gst [] g = Ok g"
| "add_all gst ((t, d) # rest) g = bindO (tree_deps gst t) (\<lambda>deps. add_all gst rest (push_edges d deps g))"

definition assign_nodes :: "string_interner \<Rightarrow> (action_context \<times> action) list \<Rightarrow> (expr_tree \<times> dependent) list" where
  "assign_nodes t actions =
     List.map_filter (\<lambda>(_, a). case a of
       AAssign target expr \<Rightarrow>
         (case interner_get t target of Some target_sym \<Rightarrow> Some (expr, DAssign target_sym) | None \<Rightarrow> None)
     | _ \<Rightarrow> None) actions"

definition build_flow_graph ::
  "symbol option \<Rightarrow> string_interner \<Rightarrow> function_list \<Rightarrow> computed_binding list \<Rightarrow>
   (action_context \<times> action) list \<Rightarrow> flow_graph outcome" where
  "build_flow_graph gst t functions comps actions =
     add_all gst
       (map (\<lambda>(y, func). (fn_body func, DFunction y)) functions
        @ map (\<lambda>cb. (cb_expr cb, DComp cb)) comps
        @ assign_nodes t actions) []"

section \<open>Propagation\<close>

definition graph_get :: "flow_graph \<Rightarrow> symbol \<Rightarrow> dependent list" where
  "graph_get g y = map snd (filter (\<lambda>e. fst e = y) g)"

definition taint_var :: "string_interner \<Rightarrow> symbol \<Rightarrow> symbol \<Rightarrow> taint_state \<times> symbol list \<Rightarrow> taint_state \<times> symbol list" where
  "taint_var t tainted_sym y = (\<lambda>(ts, wl).
     if y \<in> tainted_vars ts then (ts, wl)
     else (ts\<lparr>tainted_vars := insert y (tainted_vars ts),
              taint_origins := (taint_origins ts)(y \<mapsto> Propagated (name_or_unknown t tainted_sym))\<rparr>, y # wl))"

fun visit_dependent ::
  "string_interner \<Rightarrow> symbol \<Rightarrow> dependent \<Rightarrow> taint_state \<times> symbol list \<Rightarrow> taint_state \<times> symbol list" where
  "visit_dependent t tainted_sym (DFunction y) (ts, wl) =
     (if y \<in> tainted_functions ts then (ts, wl)
      else (ts\<lparr>tainted_functions := insert y (tainted_functions ts)\<rparr>, y # wl))"
| "visit_dependent t tainted_sym (DComp cb) (ts, wl) = taint_var t tainted_sym (cb_name cb) (ts, wl)"
| "visit_dependent t tainted_sym (DAssign y) (ts, wl) = taint_var t tainted_sym y (ts, wl)"

text \<open>A symbol is tainted as a variable or as a function; the work list does not tell them apart.\<close>

datatype mark = MVar (mark_sym: symbol) | MFun (mark_sym: symbol)

fun mark_of :: "dependent \<Rightarrow> mark" where
  "mark_of (DFunction y) = MFun y"
| "mark_of (DComp cb) = MVar (cb_name cb)"
| "mark_of (DAssign y) = MVar y"

definition marks :: "taint_state \<Rightarrow> mark set" where
  "marks ts = MVar ` tainted_vars ts \<union> MFun ` tainted_functions ts"

lemma in_marks [simp]:
  "MVar y \<in> marks ts \<longleftrightarrow> y \<in> tainted_vars ts" "MFun y \<in> marks ts \<longleftrightarrow> y \<in> tainted_functions ts"
  by (auto simp: marks_def)

lemma visit_spec:
  "visit_dependent t s d (ts, wl) = (ts', wl') \<Longrightarrow>
     (if mark_of d \<in> marks ts then ts' = ts \<and> wl' = wl
      else marks ts' = insert (mark_of d) (marks ts) \<and> wl' = mark_sym (mark_of d) # wl)"
  by (cases d) (auto simp: taint_var_def marks_def split: if_splits)

lemma visits_spec:
  "fold (visit_dependent t s) ds (ts, wl) = (ts', wl') \<Longrightarrow>
     marks ts' = marks ts \<union> mark_of ` set ds
     \<and> set wl' = set wl \<union> mark_sym ` (mark_of ` set ds - marks ts)
     \<and> (mark_of ` set ds \<subseteq> marks ts \<longrightarrow> wl' = wl)"
proof (induction ds arbitrary: ts wl)
  case (Cons d ds)
  obtain ts1 wl1 where 1: "visit_dependent t s d (ts, wl) = (ts1, wl1)" by fastforce
  have "fold (visit_dependent t s) ds (ts1, wl1) = (ts', wl')" using Cons.prems 1 by simp
  note IH = Cons.IH [OF this]
  show ?case
  proof (cases "mark_of d \<in> marks ts")
    case True
    then show ?thesis using IH visit_spec [OF 1] by auto
  next
    case False
    then show ?thesis using IH visit_spec [OF 1] by auto
  qed
qed auto

lemma graph_get_set: "set (graph_get g y) = {d. (y, d) \<in> set g}"
  by (force simp: graph_get_def)

lemma propagate_decreases:
  assumes "fold (visit_dependent t s) (graph_get g s) (ts, wl) = (ts', wl')"
  defines "U \<equiv> \<lambda>ts. mark_of ` snd ` set g - marks ts"
  shows "card (U ts') < card (U ts) \<or> U ts' = U ts \<and> wl' = wl"
proof (cases "mark_of ` set (graph_get g s) \<subseteq> marks ts")
  case True
  then show ?thesis using visits_spec [OF assms(1)] by (auto simp: U_def)
next
  case False
  then obtain d where d: "(s, d) \<in> set g" "mark_of d \<notin> marks ts" by (auto simp: graph_get_set)
  have m: "marks ts' = marks ts \<union> mark_of ` set (graph_get g s)" using visits_spec [OF assms(1)] by simp
  have "mark_of d \<in> mark_of ` snd ` set g" using d(1) by force
  moreover have "mark_of d \<in> marks ts'" using d(1) by (simp add: m graph_get_set)
  ultimately have "U ts' \<subset> U ts" using d(2) m unfolding U_def by blast
  then show ?thesis by (simp add: U_def psubset_card_mono)
qed

function propagate :: "string_interner \<Rightarrow> flow_graph \<Rightarrow> symbol list \<Rightarrow> taint_state \<Rightarrow> taint_state" where
  "propagate t g [] ts = ts"
| "propagate t g (tainted_sym # worklist) ts =
     (case fold (visit_dependent t tainted_sym) (graph_get g tainted_sym) (ts, worklist) of
        (ts', worklist') \<Rightarrow> propagate t g worklist' ts')"
  by pat_completeness auto

termination
  by (relation "inv_image (less_than <*lex*> less_than)
      (\<lambda>(t, g, wl, ts). (card (mark_of ` snd ` set g - marks ts), length wl))")
    (auto dest: propagate_decreases [OF sym])

section \<open>The check\<close>

definition taint_analysis ::
  "symbol option \<Rightarrow> string_interner \<Rightarrow> function_list \<Rightarrow> computed_binding list \<Rightarrow>
   (action_context \<times> action) list \<Rightarrow> taint_state outcome" where
  "taint_analysis gst t functions comps actions =
     (let sources = taint_sources t actions in
      bindO (build_flow_graph gst t functions comps actions) (\<lambda>graph.
      Ok (propagate t graph (rev (sorted_list_of_set (tainted_vars sources))) sources)))"

fun gst_targets :: "symbol \<Rightarrow> expr_tree list \<Rightarrow> symbol list \<Rightarrow> symbol list outcome" where
  "gst_targets gst [] out = Ok out"
| "gst_targets gst (t # trees) out =
     bindO (root_expr t) (\<lambda>e.
     bindO (collect_get_system_time_targets (walk_fuel (tree_arena t)) (tree_arena t) gst e out)
       (gst_targets gst trees))"

definition check_time_targets ::
  "symbol option \<Rightarrow> string_interner \<Rightarrow> function_list \<Rightarrow> computed_binding list \<Rightarrow>
   (action_context \<times> action) list \<Rightarrow> unit outcome" where
  "check_time_targets gst t functions comps actions =
     (case gst of
        None \<Rightarrow> Ok ()
      | Some g \<Rightarrow>
          bindO (gst_targets g (map (fn_body \<circ> snd) functions @ map cb_expr comps
                   @ concat (map (action_exprs \<circ> snd) actions)) []) (\<lambda>targets.
          case find (\<lambda>target. list_ex (\<lambda>c. cb_name c = target) comps) targets of
            None \<Rightarrow> Ok ()
          | Some target \<Rightarrow>
              Err (ParseError (''get_system_time cannot target `'' @ name_or_unknown t target @
                ''`: it is a computed (`comp`) variable, which cannot be assigned to.''))))"

fun check_sinks ::
  "taint_state \<Rightarrow> string_interner \<Rightarrow> symbol option \<Rightarrow> (action_context \<times> action) list \<Rightarrow> nat \<Rightarrow> nat outcome" where
  "check_sinks ts t gst [] num_sinks = Ok num_sinks"
| "check_sinks ts t gst ((ctx, a) # rest) num_sinks =
     (case a of
        ANavigate url \<Rightarrow>
          bindO (root_expr url) (\<lambda>e.
          bindO (is_expr_tainted (walk_fuel (tree_arena url)) (tree_arena url)
                   (tainted_vars ts) (tainted_functions ts) gst e) (\<lambda>tainted.
          if tainted \<and> ctx \<noteq> UserGesture
          then bindO (build_taint_path ts t gst url) (\<lambda>path.
                 Err (ParseError (''Information Flow Violation: '' @ path @
                   '' reaches '' @ quoted ''navigate'' @ '' without a user gesture gate.'')))
          else check_sinks ts t gst rest (num_sinks + 1)))
      | _ \<Rightarrow> check_sinks ts t gst rest num_sinks)"

text \<open>The bindings are mutated in place: the result comes with the bindings as they are left.\<close>

definition check_information_flow ::
  "event_block list list \<Rightarrow> root_timer list \<Rightarrow> function_list \<Rightarrow> string_interner \<Rightarrow>
   (computed_binding list, nat \<times> nat \<times> nat) comput" where
  "check_information_flow layout timers functions t comps =
     (let gst = interner_get t ''get_system_time'';
          actions = collect_actions layout timers;
          source_count = card (tainted_vars (taint_sources t actions)) in
      case taint_analysis gst t functions comps actions of
        Fail e \<Rightarrow> (Fail e, comps)
      | Ok ts \<Rightarrow>
          (case check_time_targets gst t functions comps actions of
             Fail e \<Rightarrow> (Fail e, comps)
           | Ok _ \<Rightarrow>
               (bindO (check_sinks ts t gst actions 0) (\<lambda>num_sinks. Ok (source_count, num_sinks, 0)),
                map (\<lambda>cb. cb\<lparr>cb_tainted := cb_name cb \<in> tainted_vars ts\<rparr>) comps)))"

section \<open>Propagation computes reachability\<close>

text \<open>The reference: what is reachable from the sources along the edges of the graph.\<close>

inductive flows :: "flow_graph \<Rightarrow> symbol set \<Rightarrow> mark \<Rightarrow> bool" for g S where
  source: "y \<in> S \<Longrightarrow> flows g S (MVar y)"
| edge: "flows g S m \<Longrightarrow> (mark_sym m, d) \<in> set g \<Longrightarrow> flows g S (mark_of d)"

definition propagate_inv :: "flow_graph \<Rightarrow> symbol set \<Rightarrow> symbol list \<Rightarrow> taint_state \<Rightarrow> bool" where
  "propagate_inv g S wl ts \<longleftrightarrow>
     MVar ` S \<subseteq> marks ts \<and> marks ts \<subseteq> Collect (flows g S) \<and> set wl \<subseteq> mark_sym ` marks ts
     \<and> (\<forall>m \<in> marks ts. mark_sym m \<notin> set wl \<longrightarrow> (\<forall>d. (mark_sym m, d) \<in> set g \<longrightarrow> mark_of d \<in> marks ts))"

lemma propagate_step_inv:
  assumes "propagate_inv g S (s # wl) ts" "fold (visit_dependent t s) (graph_get g s) (ts, wl) = (ts', wl')"
  shows "propagate_inv g S wl' ts'"
proof -
  have new: "marks ts' = marks ts \<union> mark_of ` {d. (s, d) \<in> set g}"
    "set wl' = set wl \<union> mark_sym ` (mark_of ` {d. (s, d) \<in> set g} - marks ts)"
    using visits_spec [OF assms(2)] by (simp_all add: graph_get_set)
  obtain m where m: "m \<in> marks ts" "mark_sym m = s" using assms(1) by (auto simp: propagate_inv_def)
  have old: "flows g S x" if "x \<in> marks ts" for x using assms(1) that by (auto simp: propagate_inv_def)
  have "flows g S (mark_of d)" if "(s, d) \<in> set g" for d
    using flows.edge [OF old [OF m(1)]] m(2) that by simp
  then have "marks ts' \<subseteq> Collect (flows g S)" using old by (auto simp: new)
  moreover have "mark_of d \<in> marks ts'"
    if x: "x \<in> marks ts'" "mark_sym x \<notin> set wl'" and d: "(mark_sym x, d) \<in> set g" for x d
  proof (cases "mark_sym x = s")
    case False
    have "x \<in> marks ts" using x by (auto simp: new)
    moreover have "mark_sym x \<notin> set (s # wl)" using x(2) False by (simp add: new)
    ultimately have "mark_of d \<in> marks ts" using assms(1) d by (simp add: propagate_inv_def)
    then show ?thesis by (simp add: new)
  qed (use d new(1) in blast)
  moreover have "set wl' \<subseteq> mark_sym ` marks ts'" "MVar ` S \<subseteq> marks ts'"
    using assms(1) unfolding propagate_inv_def new by auto
  ultimately show ?thesis by (simp add: propagate_inv_def)
qed

lemma propagate_exact: "propagate_inv g S wl ts \<Longrightarrow> marks (propagate t g wl ts) = Collect (flows g S)"
proof (induction t g wl ts rule: propagate.induct)
  case (1 t g ts)
  have "x \<in> marks ts" if "flows g S x" for x
    using that 1 by induction (auto simp: propagate_inv_def)
  then show ?case using 1 by (auto simp: propagate_inv_def)
next
  case (2 t g s wl ts)
  obtain ts' wl' where v: "fold (visit_dependent t s) (graph_get g s) (ts, wl) = (ts', wl')" by fastforce
  show ?case using 2(1) [OF v [symmetric] propagate_step_inv [OF 2(2) v]] v by simp
qed

lemma sources_finite: "finite (tainted_vars (taint_sources t actions)) \<and> tainted_functions (taint_sources t actions) = {}"
proof -
  have "finite (tainted_vars (fold (network_source t \<circ> snd) actions ts))
      \<and> tainted_functions (fold (network_source t \<circ> snd) actions ts) = tainted_functions ts"
    if "finite (tainted_vars ts)" for ts
    using that
  proof (induction actions arbitrary: ts)
    case (Cons a as)
    have "finite (tainted_vars (network_source t (snd a) ts))
        \<and> tainted_functions (network_source t (snd a) ts) = tainted_functions ts"
      using Cons.prems by (auto simp: network_source_def split: action.splits option.splits)
    with Cons.IH [of "network_source t (snd a) ts"] show ?case by simp
  qed simp
  from this [of "form_source t \<lparr>tainted_vars = {}, tainted_functions = {}, taint_origins = Map.empty\<rparr>"]
  show ?thesis by (auto simp: taint_sources_def form_source_def split: option.splits)
qed

lemma analysis_exact:
  assumes "taint_analysis gst t fl comps actions = Ok ts"
  obtains g where "build_flow_graph gst t fl comps actions = Ok g"
    "marks ts = Collect (flows g (tainted_vars (taint_sources t actions)))"
proof -
  let ?s = "taint_sources t actions"
  obtain g where g: "build_flow_graph gst t fl comps actions = Ok g"
    "ts = propagate t g (rev (sorted_list_of_set (tainted_vars ?s))) ?s"
    using assms by (auto simp: taint_analysis_def Let_def bindO_Ok)
  have m: "marks ?s = MVar ` tainted_vars ?s" using sources_finite by (auto simp: marks_def)
  have "propagate_inv g (tainted_vars ?s) (rev (sorted_list_of_set (tainted_vars ?s))) ?s"
    using sources_finite [of t actions] unfolding propagate_inv_def m by (auto simp: image_image intro: flows.source)
  from propagate_exact [OF this] g show thesis by (intro that) simp_all
qed

section \<open>What the analysis covers\<close>

lemma extract_deps_grows: "grows (extract_deps n ar gst)"
proof (induction n)
  case (Suc n)
  have "out \<subseteq> S" if "extract_deps (Suc n) ar gst e out = Ok S" for e out S
    using that walk_grows [OF Suc, of ar]
    by (cases e) (auto simp: Let_def bindO_Ok simp del: walk.simps split: if_splits)
  then show ?case by (simp add: grows_def)
qed (simp add: grows_def)

lemma extract_deps_finite: "extract_deps n ar gst e out = Ok S \<Longrightarrow> finite out \<Longrightarrow> finite S"
proof (induction n arbitrary: e out S)
  case (Suc n)
  note w = walk_finite [of "extract_deps n ar gst" ar, OF Suc.IH]
  from Suc.prems show ?case
    by (cases e) (auto simp: Let_def bindO_Ok simp del: walk.simps split: if_splits intro: w)
qed simp

lemma deps_cover:
  "extract_deps n ar gst e out = Ok S \<Longrightarrow> S \<subseteq> D \<inter> F \<Longrightarrow> covers D F (set_option gst) ar B e"
proof (induction n arbitrary: e out S B)
  case (Suc n)
  have all: "\<forall>i \<in> set ids. \<forall>c B'. arena_get ar i = Ok c \<longrightarrow> covers D F (set_option gst) ar B' c"
    if w: "walk (extract_deps n ar gst) ar ids out' = Ok S" for ids out'
  proof (intro ballI allI impI)
    fix i c B' assume "i \<in> set ids" "arena_get ar i = Ok c"
    then obtain o1 S1 where "extract_deps n ar gst c o1 = Ok S1" "S1 \<subseteq> D \<inter> F"
      by (rule walk_child [OF extract_deps_grows w Suc.prems(2)])
    then show "covers D F (set_option gst) ar B' c" by (rule Suc.IH)
  qed
  have callee: "y \<in> F" if "walk (extract_deps n ar gst) ar ids (insert y out') = Ok S" for y ids out'
    using walk_grows [OF extract_deps_grows that] Suc.prems(2) by blast
  have noargs: "arena_args ar st 0 = Ok args \<Longrightarrow> args = []" for st args
    by (simp add: arena_args_def split: if_splits)
  show ?case
  proof (cases e)
    case (EFunctionCall y st l)
    show ?thesis
    proof (cases "Some y = gst")
      case True
      then show ?thesis unfolding EFunctionCall by (intro covers.skip) auto
    next
      case False
      then show ?thesis
        using Suc.prems EFunctionCall
        by (auto simp: Let_def bindO_Ok simp del: walk.simps split: if_splits dest: all callee noargs intro!: covers.call)
    qed
  qed (use Suc.prems in \<open>auto simp: Let_def simp del: walk.simps dest: all intro!: covers_rules\<close>)
qed simp

lemma any_true_False:
  "any_true f ar ids = Ok False \<Longrightarrow> i \<in> set ids \<Longrightarrow> arena_get ar i = Ok e \<Longrightarrow> f e = Ok False"
  by (induction ids) (auto simp: bindO_Ok split: if_splits)

lemma untainted_covers:
  "is_expr_tainted n ar tv tf gst e = Ok False \<Longrightarrow> covers (- tv) (- tf) (set_option gst) ar B e"
proof (induction n arbitrary: e B)
  case (Suc n)
  have all: "\<forall>i \<in> set ids. \<forall>c B'. arena_get ar i = Ok c \<longrightarrow> covers (- tv) (- tf) (set_option gst) ar B' c"
    if "any_true (is_expr_tainted n ar tv tf gst) ar ids = Ok False" for ids
    using Suc.IH any_true_False [OF that] by blast
  show ?case
  proof (cases e)
    case (EFunctionCall y st l)
    show ?thesis
    proof (cases "Some y = gst")
      case True
      then show ?thesis unfolding EFunctionCall by (intro covers.skip) auto
    next
      case False
      then show ?thesis
        using Suc.prems EFunctionCall
        by (auto simp: Let_def bindO_Ok simp del: any_true.simps split: if_splits dest: all intro!: covers.call)
    qed
  qed (use Suc.prems in \<open>auto simp: Let_def simp del: any_true.simps dest: all intro!: covers_rules\<close>)
qed simp

lemma add_all_edges:
  "add_all gst ns g0 = Ok g \<Longrightarrow>
     set g0 \<subseteq> set g \<and> (\<forall>(t, d) \<in> set ns. \<exists>S. tree_deps gst t = Ok S \<and> (\<forall>y \<in> S. (y, d) \<in> set g))"
proof (induction gst ns g0 rule: add_all.induct)
  case (2 gst t d rest g0)
  then obtain S where S: "tree_deps gst t = Ok S" "add_all gst rest (push_edges d S g0) = Ok g"
    by (auto simp: bindO_Ok)
  have "finite S" using S(1) by (auto simp: tree_deps_def bindO_Ok intro: extract_deps_finite)
  then have "(y, d) \<in> set (push_edges d S g0)" if "y \<in> S" for y using that by (simp add: push_edges_def)
  moreover have "set g0 \<subseteq> set (push_edges d S g0)" by (auto simp: push_edges_def)
  ultimately show ?case using 2(1) [OF S(2)] S(1) by fastforce
qed simp

text \<open>An expression whose dependent is not tainted reads and calls untainted symbols only.\<close>

lemma node_covered:
  assumes "taint_analysis gst t fl comps actions = Ok ts"
    and "(tr, d) \<in> set (map (\<lambda>(y, func). (fn_body func, DFunction y)) fl
           @ map (\<lambda>cb. (cb_expr cb, DComp cb)) comps @ assign_nodes t actions)"
    and "mark_of d \<notin> marks ts" "root_expr tr = Ok e"
  shows "covers (- tainted_vars ts) (- tainted_functions ts) (set_option gst) (tree_arena tr) B e"
proof -
  obtain g where g: "build_flow_graph gst t fl comps actions = Ok g"
    "marks ts = Collect (flows g (tainted_vars (taint_sources t actions)))"
    by (rule analysis_exact [OF assms(1)])
  obtain S where S: "tree_deps gst tr = Ok S" "\<forall>y \<in> S. (y, d) \<in> set g"
    using add_all_edges [OF g(1) [unfolded build_flow_graph_def]] assms(2) by blast
  have "mark_sym m \<notin> S" if "m \<in> marks ts" for m
    using flows.edge [of g _ m d] S(2) assms(3) that unfolding g(2) by blast
  from this [of "MVar _"] this [of "MFun _"]
  have "S \<subseteq> - tainted_vars ts \<inter> - tainted_functions ts" by auto
  then show ?thesis
    using S(1) assms(4) by (auto simp: tree_deps_def intro: deps_cover)
qed

lemma functions_untainted:
  assumes "taint_analysis gst t fl comps actions = Ok ts"
  shows "functions_closed (- tainted_vars ts) (- tainted_functions ts) (set_option gst) (map_of fl)"
  unfolding functions_closed_def
  using node_covered [OF assms] by (fastforce dest: map_of_SomeD)

lemma gst_symbol_names:
  assumes "interner_ok t" "ctx_interner ctx = t"
  shows "gst_names ctx (set_option (interner_get t ''get_system_time''))"
  using assms by (auto simp: gst_names_def resolve_or_def interner_ok_def split: option.splits)

section \<open>Actions on stores that differ in hidden globals\<close>

definition vmask :: "symbol set \<Rightarrow> variable_store \<Rightarrow> variable_store" where
  "vmask D st = st\<lparr>vs_evaluator := mask D (vs_evaluator st)\<rparr>"

lemma vmask_sel [simp]:
  "vs_interner (vmask D st) = vs_interner st" "vs_evaluator (vmask D st) = mask D (vs_evaluator st)"
  by (simp_all add: vmask_def)

lemma run_tree_blind:
  assumes "functions_closed D F G fs" "gst_names (store_ctx peq fs st) G"
    and "\<And>e. root_expr t = Ok e \<Longrightarrow> covers D F G (tree_arena t) {} e" "locals_ok (vs_evaluator st)"
  shows "run_tree peq fs t (vmask D st) = (fst (run_tree peq fs t st), vmask D (snd (run_tree peq fs t st)))"
proof -
  have "scoped (locals_abs (vs_evaluator st)) (vs_evaluator st)" using assms(4) by (simp add: scoped_def)
  moreover have "store_ctx peq fs (vmask D st) = store_ctx peq fs st" by (simp add: store_ctx_def)
  ultimately show ?thesis
    using evaluate_tree_blind [of D F G "store_ctx peq fs st" t _ "vs_evaluator st" 0] assms
    by (auto simp: run_tree_def store_ctx_def vmask_def split: prod.splits)
qed

lemma navigate_blind:
  assumes "functions_closed D F G fs" "gst_names (store_ctx peq fs st) G"
    and "\<And>e. root_expr url = Ok e \<Longrightarrow> covers D F G (tree_arena url) {} e" "locals_ok (vs_evaluator st)"
  shows "execute_action peq fs (ANavigate url) (vmask D st) =
    (fst (execute_action peq fs (ANavigate url) st), vmask D (snd (execute_action peq fs (ANavigate url) st)))"
proof -
  define s0 where "s0 = st\<lparr>vs_evaluator := (vs_evaluator st)\<lparr>instruction_count := 0\<rparr>\<rparr>"
  have s: "reset_count st = (Ok (), s0)" "reset_count (vmask D st) = (Ok (), vmask D s0)"
    by (simp_all add: reset_count_def modS_def s0_def vmask_def mask_def)
  have "gst_names (store_ctx peq fs s0) G" "locals_ok (vs_evaluator s0)"
    using assms(2,4) by (simp_all add: s0_def gst_names_def store_ctx_def locals_ok_def resolve_or_def)
  note run = run_tree_blind [OF assms(1) this(1) assms(3) this(2)]
  obtain r s1 where r: "run_tree peq fs url s0 = (r, s1)" by fastforce
  with run have r': "run_tree peq fs url (vmask D s0) = (r, vmask D s1)" by simp
  note simps = execute_action_def execute_navigate_def bindS_def s r r'
  show ?thesis
  proof (cases r)
    case (Ok v)
    then show ?thesis
      by (cases v) (simp_all add: simps failS_def okS_def push_action_def modS_def, (simp add: vmask_def mask_def)?)
  qed (simp add: simps)
qed

lemma masked_twins:
  assumes "\<forall>y \<in> D. g y = global_store (vs_evaluator st) y"
  shows "vmask D (st\<lparr>vs_evaluator := (vs_evaluator st)\<lparr>global_store := g\<rparr>\<rparr>) = vmask D st"
proof -
  have "g |` D = global_store (vs_evaluator st) |` D" using assms by (auto simp: restrict_map_def)
  then show ?thesis by (simp add: vmask_def mask_def)
qed

lemma accepted_sink:
  "check_sinks ts t gst actions n = Ok k \<Longrightarrow> (NonInteractive, ANavigate url) \<in> set actions \<Longrightarrow>
     \<exists>e. root_expr url = Ok e
       \<and> is_expr_tainted (walk_fuel (tree_arena url)) (tree_arena url) (tainted_vars ts) (tainted_functions ts) gst e = Ok False"
  by (induction ts t gst actions n rule: check_sinks.induct)
    (auto simp: bindO_Ok split: action.splits if_splits)

lemma accepted_facts:
  assumes "check_information_flow layout timers fl t comps = (Ok n, comps')"
  obtains ts k where
    "taint_analysis (interner_get t ''get_system_time'') t fl comps (collect_actions layout timers) = Ok ts"
    "check_sinks ts t (interner_get t ''get_system_time'') (collect_actions layout timers) 0 = Ok k"
    "comps' = map (\<lambda>cb. cb\<lparr>cb_tainted := cb_name cb \<in> tainted_vars ts\<rparr>) comps"
  using assms by (auto simp: check_information_flow_def Let_def bindO_Ok split: outcome.splits)

section \<open>Properties\<close>

text \<open>
  (C5) The work list of the taint propagation terminates and computes exactly the symbols
  reachable from the sources along the dependency graph: a variable or function is
  marked tainted if and only if a chain of reads, calls and assignments leads to it from
  the form record or the target of a network call.
\<close>

theorem taint_analysis_exact:
  assumes "taint_analysis gst t fl comps actions = Ok ts"
  shows "\<exists>g. build_flow_graph gst t fl comps actions = Ok g
     \<and> tainted_vars ts = {y. flows g (tainted_vars (taint_sources t actions)) (MVar y)}
     \<and> tainted_functions ts = {y. flows g (tainted_vars (taint_sources t actions)) (MFun y)}"
proof -
  obtain g where g: "build_flow_graph gst t fl comps actions = Ok g"
    "marks ts = Collect (flows g (tainted_vars (taint_sources t actions)))"
    by (rule analysis_exact [OF assms])
  have "tainted_vars ts = {y. MVar y \<in> marks ts}" "tainted_functions ts = {y. MFun y \<in> marks ts}" by simp_all
  then show ?thesis using g by (simp add: g(2))
qed


text \<open>
  (C39) After the check every computed binding carries its taint, and an untainted one is
  insensitive to tainted data: its expression evaluates to the same outcome, at the same
  cost, in two states that agree on the untainted globals.
\<close>

theorem untainted_bindings_noninterference:
  assumes "check_information_flow layout timers fl t comps = (Ok n, comps')"
    and "taint_analysis (interner_get t ''get_system_time'') t fl comps (collect_actions layout timers) = Ok ts"
    and "cb \<in> set comps'" "\<not> cb_tainted cb"
    and "interner_ok t" "ctx_interner ctx = t" "ctx_functions ctx = map_of fl" "locals_ok s"
    and "\<forall>y. y \<notin> tainted_vars ts \<longrightarrow> g y = global_store s y"
    and "evaluate_tree ctx (cb_expr cb) 0 s = (r, s')"
  shows "cb_name cb \<notin> tainted_vars ts
     \<and> (\<exists>s''. evaluate_tree ctx (cb_expr cb) 0 (s\<lparr>global_store := g\<rparr>) = (r, s'')
          \<and> instruction_count s'' = instruction_count s')"
proof -
  let ?gst = "interner_get t ''get_system_time''" and ?D = "- tainted_vars ts" and ?s = "s\<lparr>global_store := g\<rparr>"
  have "comps' = map (\<lambda>cb. cb\<lparr>cb_tainted := cb_name cb \<in> tainted_vars ts\<rparr>) comps"
    by (rule accepted_facts [OF assms(1)]) (simp add: assms(2))
  with assms(3) obtain b where b: "b \<in> set comps" "cb = b\<lparr>cb_tainted := cb_name b \<in> tainted_vars ts\<rparr>"
    by auto
  then have clean: "cb_name b \<notin> tainted_vars ts" using assms(4) by simp
  have cov: "covers ?D (- tainted_functions ts) (set_option ?gst) (tree_arena (cb_expr b)) {} e"
    if "root_expr (cb_expr b) = Ok e" for e
    using b(1) clean that by (intro node_covered [OF assms(2), where d = "DComp b"]) auto
  note fc = functions_untainted [OF assms(2), folded assms(7)] gst_symbol_names [OF assms(5,6)]
  have sc: "scoped (locals_abs s) s" "scoped (locals_abs s) ?s"
    using assms(8) by (simp_all add: scoped_def locals_ok_def locals_abs_def)
  have "mask ?D ?s = mask ?D s"
    using assms(9) by (auto simp: mask_def restrict_map_def fun_eq_iff)
  with evaluate_tree_blind [OF fc cov sc(1), of 0] evaluate_tree_blind [OF fc cov sc(2), of 0]
  have r: "fst (evaluate_tree ctx (cb_expr b) 0 ?s) = fst (evaluate_tree ctx (cb_expr b) 0 s)"
    "mask ?D (snd (evaluate_tree ctx (cb_expr b) 0 ?s)) = mask ?D (snd (evaluate_tree ctx (cb_expr b) 0 s))"
    by simp_all
  from r(1) arg_cong [OF r(2), of instruction_count] clean b(2) assms(10) show ?thesis
    by (cases "evaluate_tree ctx (cb_expr b) 0 ?s") simp
qed

section \<open>An accepted document\<close>

text \<open>
  Names \<^verbatim>\<open>resp\<close>, \<^verbatim>\<open>home\<close>, \<^verbatim>\<open>echo\<close>, \<^verbatim>\<open>tag\<close>, \<^verbatim>\<open>api\<close>; \<^verbatim>\<open>comp echo = resp\<close>, \<^verbatim>\<open>comp tag = home\<close>; one timer
  fetches into \<^verbatim>\<open>resp\<close>, the other navigates to \<^verbatim>\<open>home\<close>.
\<close>

definition flow_names :: string_interner where
  "flow_names =
     fold (\<lambda>s t. snd (get_or_intern t s)) [''resp'', ''home'', ''echo'', ''tag'', ''api''] interner_new"

definition var_tree :: "symbol \<Rightarrow> expr_tree" where
  "var_tree y = \<lparr>tree_arena = \<lparr>nodes = [EVariable y], args_pool = []\<rparr>, tree_root = 0\<rparr>"

definition flow_timers :: "root_timer list" where
  "flow_timers =
     [\<lparr>timer_interval = Millis 500, timer_action = ANetworkCall Get 4 None None ''resp'' FJson []\<rparr>,
      \<lparr>timer_interval = Millis 900, timer_action = ANavigate (var_tree 1)\<rparr>]"

definition flow_comps :: "computed_binding list" where
  "flow_comps =
     [\<lparr>cb_name = 2, cb_expr = var_tree 0, cb_depends_on = [0], cb_tainted = False\<rparr>,
      \<lparr>cb_name = 3, cb_expr = var_tree 1, cb_depends_on = [1], cb_tainted = False\<rparr>]"

definition flow_result :: taint_state where
  "flow_result =
     \<lparr>tainted_vars = {0, 2}, tainted_functions = {},
      taint_origins = [0 \<mapsto> NetworkResponse ''Get(api)'', 2 \<mapsto> Propagated ''resp'']\<rparr>"

lemma flow_names_eval:
  "flow_names = \<lparr>im_map = [''resp'' \<mapsto> 0, ''home'' \<mapsto> 1, ''echo'' \<mapsto> 2, ''tag'' \<mapsto> 3, ''api'' \<mapsto> 4],
     im_vec = [''resp'', ''home'', ''echo'', ''tag'', ''api'']\<rparr>"
  by (simp add: flow_names_def get_or_intern_def interner_new_def Let_def) (simp add: numeral_2_eq_2)

lemma flow_names_ok: "interner_ok flow_names"
  by (auto simp: flow_names_eval interner_ok_def interner_get_def resolve_def nth_Cons' split: if_splits)

lemmas flow_defs =
  flow_timers_def flow_comps_def collect_actions_def taint_sources_def form_source_def network_source_def
  build_flow_graph_def assign_nodes_def map_filter_def tree_deps_def push_edges_def var_tree_def root_expr_def
  arena_get_def index_or_panic_def walk_fuel_def Let_def graph_get_def taint_var_def name_or_unknown_def resolve_def

lemma flow_analysis:
  "taint_analysis (interner_get flow_names ''get_system_time'') flow_names [] flow_comps (collect_actions [] flow_timers)
     = Ok flow_result"
  by (simp add: taint_analysis_def flow_defs flow_names_eval interner_get_def flow_result_def insert_commute)

lemma flow_accepted:
  "check_information_flow [] flow_timers [] flow_names flow_comps
     = (Ok (1, 1, 0), map (\<lambda>cb. cb\<lparr>cb_tainted := cb_name cb \<in> {0, 2}\<rparr>) flow_comps)"
  using flow_analysis
  by (simp add: check_information_flow_def check_time_targets_def)
    (simp add: flow_defs flow_names_eval interner_get_def flow_result_def)

theorem taint_analysis_exact_witness:
  "\<exists>g. build_flow_graph None flow_names [] flow_comps (collect_actions [] flow_timers) = Ok g
     \<and> {0, 2} = {y. flows g {0} (MVar y)} \<and> {} = {y. flows g {0} (MFun y)}"
proof -
  have "tainted_vars (taint_sources flow_names (collect_actions [] flow_timers)) = {0}"
    by (simp add: flow_defs flow_names_eval interner_get_def)
  moreover have "interner_get flow_names ''get_system_time'' = None"
    by (simp add: flow_names_eval interner_get_def)
  ultimately show ?thesis
    using taint_analysis_exact [OF flow_analysis] by (simp add: flow_result_def)
qed

text \<open>The store of the document, with the response and the home page as given.\<close>

definition flow_store :: "string \<Rightarrow> string \<Rightarrow> variable_store" where
  "flow_store resp home =
     \<lparr>vs_evaluator = evaluator_default\<lparr>global_store := [0 \<mapsto> VString resp, 1 \<mapsto> VString home]\<rparr>,
      vs_interner = flow_names\<rparr>"

lemma flow_store_ok: "locals_ok (vs_evaluator (flow_store resp home))"
  using evaluator_new_locals_ok [of 20000] by (simp add: flow_store_def evaluator_default_def locals_ok_def)

lemma flow_store_twin:
  "(flow_store a h)\<lparr>vs_evaluator := (vs_evaluator (flow_store a h))\<lparr>global_store := global_store (vs_evaluator (flow_store b h))\<rparr>\<rparr>
     = flow_store b h"
  by (simp add: flow_store_def)


theorem untainted_bindings_noninterference_witness:
  "fst (evaluate_tree \<lparr>ctx_functions = Map.empty, ctx_interner = flow_names, ctx_ptr_eq = (\<lambda>_ _. False)\<rparr> (var_tree 1) 0
      (evaluator_default\<lparr>global_store := [0 \<mapsto> VInt 7]\<rparr>))
   = fst (evaluate_tree \<lparr>ctx_functions = Map.empty, ctx_interner = flow_names, ctx_ptr_eq = (\<lambda>_ _. False)\<rparr> (var_tree 1) 0
      evaluator_default)"
proof -
  let ?ctx = "\<lparr>ctx_functions = Map.empty, ctx_interner = flow_names, ctx_ptr_eq = (\<lambda>_ _. False)\<rparr> :: eval_ctx"
  let ?cb = "flow_comps ! 1"
  have cb: "?cb \<in> set (map (\<lambda>cb. cb\<lparr>cb_tainted := cb_name cb \<in> {0, 2}\<rparr>) flow_comps)" "\<not> cb_tainted ?cb"
    "cb_expr ?cb = var_tree 1"
    by (simp_all add: flow_comps_def)
  have ok: "locals_ok evaluator_default" by (simp add: evaluator_default_def)
  have g: "\<forall>y. y \<notin> tainted_vars flow_result \<longrightarrow> [0 \<mapsto> VInt 7] y = global_store evaluator_default y"
    by (simp add: flow_result_def evaluator_default_def evaluator_new_def)
  obtain r s' where r: "evaluate_tree ?ctx (cb_expr ?cb) 0 evaluator_default = (r, s')" by fastforce
  have c: "ctx_interner ?ctx = flow_names" "ctx_functions ?ctx = map_of []" by simp_all
  show ?thesis
    using untainted_bindings_noninterference
        [where g = "[0 \<mapsto> VInt 7]", OF flow_accepted flow_analysis cb(1,2) flow_names_ok c ok g r] r cb(3) by auto
qed

end
