(* ===== verification/Mizu_Session.thy ===== *)
theory Mizu_Session
  imports Mizu_Flow
begin

text \<open>
  One document's logic state and the state machine that advances it:
  \<^verbatim>\<open>parser/logic_worker/session.rs\<close> with the event and response types of \<^verbatim>\<open>messages.rs\<close>.

  \<^verbatim>\<open>apply_event\<close> returns an optional result. In the model \<open>Ok None\<close> is the event that
  addressed nothing, \<open>Ok (Some r)\<close> a response and \<open>Err e\<close> a failed action; the state is
  passed on in every case. The invariant of a session and its closure under events are
  stated through an inductive relation of reachable sessions.
\<close>

section \<open>Messages\<close>

type_synonym url_registry = "symbol \<rightharpoonup> url_endpoint"

record reload_payload =
  rp_logic_fns :: function_list
  rp_click_actions :: "nat \<rightharpoonup> action"
  rp_submit_actions :: "nat \<rightharpoonup> action"
  rp_root_timer_actions :: "action list"
  rp_interner :: string_interner
  rp_initial_variables :: "(string \<times> mval) list"
  rp_url_registry :: url_registry
  rp_document_domain :: string
  rp_computed_bindings :: "computed_binding list"

datatype ui_event =
    UiClick nat
  | UiRootTimer nat
  | UiSubmitForm nat "(string \<times> mval) list"
  | UiUpdateVariable string mval
  | UiReload reload_payload
  | UiCloseTab

record worker_response =
  mutated_variables :: "(symbol \<times> mval) list"
  runtime_actions :: "runtime_action list"
  gesture :: bool

definition EQ_BUDGET_PER_VARIABLE :: nat where
  "EQ_BUDGET_PER_VARIABLE = 10000"

record tab_session =
  ss_store :: variable_store
  logic_fns :: function_list
  click_actions :: "nat \<rightharpoonup> action"
  submit_actions :: "nat \<rightharpoonup> action"
  root_timer_actions :: "action list"
  url_registry :: url_registry
  document_domain :: string
  computed_vars :: "computed_binding list"
  computed_reverse_index :: comp_reverse_index
  defer_alias :: bool

type_synonym 'a scomput = "(tab_session, 'a) comput"

definition session_new :: tab_session where
  "session_new =
     \<lparr>ss_store = store_new, logic_fns = [], click_actions = Map.empty, submit_actions = Map.empty,
      root_timer_actions = [], url_registry = Map.empty, document_domain = [], computed_vars = [],
      computed_reverse_index = Map.empty, defer_alias = False\<rparr>"

definition defer_alias_resolution :: "tab_session \<Rightarrow> tab_session" where
  "defer_alias_resolution s = s\<lparr>defer_alias := True\<rparr>"

text \<open>The \<^verbatim>\<open>Display\<close> of an error.\<close>

fun display_error :: "mizu_error \<Rightarrow> string" where
  "display_error (ParseError m) = ''parse error: '' @ m"
| "display_error IntegerOverflow = ''integer overflow''"
| "display_error (TypeError expected found) = ''type error: expected `'' @ expected @ ''`, found `'' @ found @ ''`''"
| "display_error (StaticTypeError m) = ''static type error: '' @ m"
| "display_error (VariableNotFound m) = ''variable not found: `'' @ m @ ''`''"
| "display_error (BindingNotFound m) = ''binding not found: `'' @ m @ ''`''"
| "display_error (IoError m) = ''I/O error: '' @ m"
| "display_error DivisionByZero = ''division by zero''"
| "display_error (Network m) = ''network error: '' @ m"
| "display_error (DnsError m) = ''DNS error: '' @ m"
| "display_error (ExecutionError m) = ''execution error: '' @ m"
| "display_error Timeout = ''timeout: execution budget exceeded''"
| "display_error (SecurityViolation m) = ''security violation: '' @ m"
| "display_error (IpcError m) = ''IPC error: '' @ m"
| "display_error (MultipleErrors es) =
     show_nat (length es) @ '' parse error(s):'' @
     concat (map (\<lambda>(i, e). CHR 0x0A # ''  '' @ show_nat i @ ''. '' @ e) (enumerate 1 (map display_error es)))"

section \<open>Working on the store of a session\<close>

definition on_store :: "'a vcomput \<Rightarrow> 'a scomput" where
  "on_store m = (\<lambda>s. case m (ss_store s) of (r, st) \<Rightarrow> (r, s\<lparr>ss_store := st\<rparr>))"

definition clear_undo :: "variable_store \<Rightarrow> variable_store" where
  "clear_undo st = st\<lparr>vs_evaluator := (vs_evaluator st)\<lparr>undo_log := []\<rparr>\<rparr>"

definition recompute_after_mutation :: "(mval \<Rightarrow> mval \<Rightarrow> bool) \<Rightarrow> unit scomput" where
  "recompute_after_mutation peq =
     (\<lambda>s. if computed_vars s = [] then (Ok (), s)
          else bindS (on_store (recompute_computed_bindings (run_tree peq (map_of (logic_fns s))) (computed_vars s)
                 (remdups (map fst (undo_log (vs_evaluator (ss_store s))))) (computed_reverse_index s)))
               (\<lambda>_. okS ()) s)"

section \<open>Responses\<close>

text \<open>The first old value of each symbol, in the order of the undo log.\<close>

fun original_values :: "(symbol \<times> mval) list \<Rightarrow> (symbol \<times> mval) list" where
  "original_values [] = []"
| "original_values ((y, v) # log) = (y, v) # original_values (filter (\<lambda>e. fst e \<noteq> y) log)"

definition value_changed :: "(mval \<Rightarrow> mval \<Rightarrow> bool) \<Rightarrow> mval \<Rightarrow> mval \<Rightarrow> bool" where
  "value_changed peq old_val cur_val =
     (case fst (budget_eq peq old_val cur_val 0 EQ_BUDGET_PER_VARIABLE) of
        Ok is_eq \<Rightarrow> \<not> is_eq
      | Fail _ \<Rightarrow> True)"

definition collect_mutations :: "(mval \<Rightarrow> mval \<Rightarrow> bool) \<Rightarrow> evaluator \<Rightarrow> (symbol \<times> mval) list" where
  "collect_mutations peq e =
     map (\<lambda>(y, _). (y, get_global e y))
       (filter (\<lambda>(y, old_val). value_changed peq old_val (get_global e y)) (original_values (undo_log e)))"

definition resolve_one_action ::
  "tab_session \<Rightarrow> runtime_action \<Rightarrow> runtime_action \<times> (string \<times> mval) list" where
  "resolve_one_action s a =
     (if defer_alias s then (a, [])
      else case a of
        RNetworkCall mth endpoint_symbol payload path_param target_variable fmt headers \<Rightarrow>
          (case url_registry s endpoint_symbol of
             None \<Rightarrow>
               (RNone, [(show_nat target_variable,
                  VString (''error: endpoint alias `'' @ name_or_unknown (vs_interner (ss_store s)) endpoint_symbol
                    @ ''` is not declared in the urls block''))])
           | Some ep \<Rightarrow>
               (case resolve_endpoint_url (document_domain s) ep path_param of
                  Ok url \<Rightarrow> (RResolvedCall (method_as_str mth) url payload target_variable fmt headers, [])
                | Fail e \<Rightarrow>
                    (RNone, [(name_or_unknown (vs_interner (ss_store s)) target_variable,
                       VString (''error: '' @ (case e of Error err \<Rightarrow> display_error err | _ \<Rightarrow> [])))])))
      | RDownloadAlias endpoint_symbol \<Rightarrow>
          (case url_registry s endpoint_symbol of
             Some ep \<Rightarrow> (RDownloadMedia (raw_target ep), [])
           | None \<Rightarrow> (RNone, []))
      | other \<Rightarrow> (other, []))"

fun surface_errors ::
  "(string \<times> mval) list \<Rightarrow> variable_store \<Rightarrow> (symbol \<times> mval) list \<Rightarrow> variable_store \<times> (symbol \<times> mval) list" where
  "surface_errors [] st mutated = (st, mutated)"
| "surface_errors ((name, v) # errs) st mutated =
     (case interner_get (vs_interner st) name of
        Some y \<Rightarrow> surface_errors errs (set_runtime name v st) (mutated @ [(y, v)])
      | None \<Rightarrow> surface_errors errs st mutated)"

definition take_actions :: "variable_store \<Rightarrow> variable_store" where
  "take_actions st = st\<lparr>vs_evaluator := (vs_evaluator st)\<lparr>undo_log := [], accumulated_actions := []\<rparr>\<rparr>"

definition build_response :: "(mval \<Rightarrow> mval \<Rightarrow> bool) \<Rightarrow> bool \<Rightarrow> worker_response scomput" where
  "build_response peq gst =
     (\<lambda>s. let e = vs_evaluator (ss_store s);
              resolved = map (resolve_one_action s) (accumulated_actions e)
          in case surface_errors (concat (map snd resolved)) (take_actions (ss_store s)) (collect_mutations peq e) of
               (st, mutated) \<Rightarrow>
                 (Ok \<lparr>mutated_variables = mutated, runtime_actions = map fst resolved, gesture = gst\<rparr>,
                  s\<lparr>ss_store := st\<rparr>))"

section \<open>Events\<close>

definition undo_globals :: "(symbol \<times> mval) list \<Rightarrow> (symbol \<rightharpoonup> mval) \<Rightarrow> (symbol \<rightharpoonup> mval)" where
  "undo_globals log g = fold (\<lambda>(y, old_val) g. g(y \<mapsto> old_val)) (rev log) g"

definition rollback :: "nat \<Rightarrow> variable_store \<Rightarrow> variable_store" where
  "rollback initial_actions_len st =
     (let e = vs_evaluator st in
      st\<lparr>vs_evaluator := e\<lparr>global_store := undo_globals (undo_log e) (global_store e),
           accumulated_actions := take initial_actions_len (accumulated_actions e), undo_log := []\<rparr>\<rparr>)"

definition execute_action_and_build ::
  "(mval \<Rightarrow> mval \<Rightarrow> bool) \<Rightarrow> action \<Rightarrow> bool \<Rightarrow> worker_response scomput" where
  "execute_action_and_build peq a gst =
     (\<lambda>s. let s0 = s\<lparr>ss_store := clear_undo (ss_store s)\<rparr>;
              initial_actions_len = length (accumulated_actions (vs_evaluator (ss_store s0)))
          in case on_store (execute_action peq (map_of (logic_fns s0)) a) s0 of
               (Ok _, s1) \<Rightarrow> bindS (recompute_after_mutation peq) (\<lambda>_. build_response peq gst) s1
             | (Fail e, s1) \<Rightarrow> (Fail e, s1\<lparr>ss_store := rollback initial_actions_len (ss_store s1)\<rparr>))"

text \<open>The initial evaluation of the functions without parameters.\<close>

fun initial_functions :: "(mval \<Rightarrow> mval \<Rightarrow> bool) \<Rightarrow> function_table \<Rightarrow> function_list \<Rightarrow> unit vcomput" where
  "initial_functions peq fs [] = okS ()"
| "initial_functions peq fs ((y, func) # rest) =
     (if fn_params func = []
      then (\<lambda>st. case bindS reset_count (\<lambda>_. run_tree peq fs (fn_body func)) st of
              (Ok v, st') \<Rightarrow> initial_functions peq fs rest (set_symbol y v st')
            | (Fail (Error _), st') \<Rightarrow> initial_functions peq fs rest st'
            | (Fail e, st') \<Rightarrow> (Fail e, st'))
      else initial_functions peq fs rest)"

definition load_document :: "reload_payload \<Rightarrow> tab_session \<Rightarrow> tab_session" where
  "load_document payload s =
     (let st = fold (\<lambda>(k, v). set_runtime k v) (rp_initial_variables payload) (with_interner (rp_interner payload));
          comps = rp_computed_bindings payload
      in s\<lparr>logic_fns := rp_logic_fns payload, click_actions := rp_click_actions payload,
           submit_actions := rp_submit_actions payload, root_timer_actions := rp_root_timer_actions payload,
           url_registry := rp_url_registry payload, document_domain := rp_document_domain payload,
           computed_vars := comps, computed_reverse_index := build_comp_reverse_index comps,
           ss_store := st\<lparr>vs_evaluator := (vs_evaluator st)\<lparr>undo_log := [], computed_var_syms := set (map cb_name comps)\<rparr>\<rparr>\<rparr>)"

definition apply_reload :: "(mval \<Rightarrow> mval \<Rightarrow> bool) \<Rightarrow> reload_payload \<Rightarrow> worker_response scomput" where
  "apply_reload peq payload =
     bindS (modS (load_document payload)) (\<lambda>_.
     bindS (on_store (initial_functions peq (map_of (rp_logic_fns payload)) (rp_logic_fns payload))) (\<lambda>_.
     bindS (on_store (\<lambda>st. recompute_computed_bindings (run_tree peq (map_of (rp_logic_fns payload)))
              (rp_computed_bindings payload) (sorted_list_of_set (dom (global_store (vs_evaluator st))))
              (build_comp_reverse_index (rp_computed_bindings payload)) st)) (\<lambda>_.
     build_response peq False)))"

definition from_reload :: "(mval \<Rightarrow> mval \<Rightarrow> bool) \<Rightarrow> reload_payload \<Rightarrow> tab_session" where
  "from_reload peq payload = snd (apply_reload peq payload session_new)"

definition submit_form ::
  "(mval \<Rightarrow> mval \<Rightarrow> bool) \<Rightarrow> nat \<Rightarrow> (string \<times> mval) list \<Rightarrow> worker_response scomput" where
  "submit_form peq submitter_node_id form_fields =
     (\<lambda>s. let st = fold (\<lambda>(field_name, field_value). set_runtime field_name field_value) form_fields
                     (set_runtime ''$form'' (record_from_unsorted form_fields) (clear_undo (ss_store s)));
              s0 = s\<lparr>ss_store := st\<rparr>
          in case (case submit_actions s submitter_node_id of
                     None \<Rightarrow> (Ok False, s0)
                   | Some a \<Rightarrow> on_store (execute_action peq (map_of (logic_fns s)) a) s0) of
               (Ok _, s1) \<Rightarrow> bindS (recompute_after_mutation peq) (\<lambda>_. build_response peq True) s1
             | (Fail (Error _), s1) \<Rightarrow> bindS (recompute_after_mutation peq) (\<lambda>_. build_response peq True) s1
             | (Fail e, s1) \<Rightarrow> (Fail e, s1))"

definition apply_event :: "(mval \<Rightarrow> mval \<Rightarrow> bool) \<Rightarrow> ui_event \<Rightarrow> worker_response option scomput" where
  "apply_event peq event =
     (case event of
        UiCloseTab \<Rightarrow> okS None
      | UiReload payload \<Rightarrow> bindS (apply_reload peq payload) (\<lambda>r. okS (Some r))
      | UiClick node_id \<Rightarrow>
          bindS (getS (\<lambda>s. click_actions s node_id)) (\<lambda>a. case a of
            None \<Rightarrow> okS None
          | Some a \<Rightarrow> bindS (execute_action_and_build peq a True) (\<lambda>r. okS (Some r)))
      | UiRootTimer index \<Rightarrow>
          bindS (getS (\<lambda>s. if index < length (root_timer_actions s) then Some (root_timer_actions s ! index) else None))
            (\<lambda>a. case a of
              None \<Rightarrow> okS None
            | Some a \<Rightarrow> bindS (execute_action_and_build peq a False) (\<lambda>r. okS (Some r)))
      | UiSubmitForm submitter_node_id form_fields \<Rightarrow>
          bindS (submit_form peq submitter_node_id form_fields) (\<lambda>r. okS (Some r))
      | UiUpdateVariable name v \<Rightarrow>
          bindS (modS (\<lambda>s. s\<lparr>ss_store := set_runtime name v (clear_undo (ss_store s))\<rparr>)) (\<lambda>_.
          bindS (recompute_after_mutation peq) (\<lambda>_.
          bindS (build_response peq False) (\<lambda>r. okS (Some r)))))"

section \<open>The store between the steps of an event\<close>

text \<open>\<open>store_good C t st\<close>: the invariant, the computed set \<open>C\<close> and the names \<open>t\<close> of the document.\<close>

definition store_good :: "symbol set \<Rightarrow> string_interner \<Rightarrow> variable_store \<Rightarrow> bool" where
  "store_good C t st \<longleftrightarrow> store_inv st \<and> computed_var_syms (vs_evaluator st) = C \<and> vs_interner st = t"

lemma good_set_symbol: "store_good C t st \<Longrightarrow> value_ok v \<Longrightarrow> store_good C t (set_symbol y v st)"
  by (simp add: store_good_def set_symbol_inv) (simp add: set_symbol_def set_global_def Let_def)

lemma good_set_runtime: "store_good C t st \<Longrightarrow> value_ok v \<Longrightarrow> store_good C t (set_runtime name v st)"
  by (simp add: set_runtime_def good_set_symbol split: option.splits)

lemma good_logs:
  "store_good C t (st\<lparr>vs_evaluator := (vs_evaluator st)\<lparr>undo_log := l, accumulated_actions := a\<rparr>\<rparr>) \<longleftrightarrow> store_good C t st"
  "store_good C t (st\<lparr>vs_evaluator := (vs_evaluator st)\<lparr>undo_log := l\<rparr>\<rparr>) \<longleftrightarrow> store_good C t st"
  by (simp_all add: store_good_def store_inv_def eval_inv_def locals_ok_def vals_ok_def)

lemma good_assign_all:
  "store_good C t st \<Longrightarrow> list_all (\<lambda>p. value_ok (snd p)) ps \<Longrightarrow>
     store_good C t (fold (\<lambda>(k, v). set_runtime k v) ps st)"
  by (induction ps arbitrary: st) (auto simp: good_set_runtime)

lemma good_rel:
  "vok st st' \<Longrightarrow> store_good C t st \<Longrightarrow> store_good C t st'"
  "vfail st e st' \<Longrightarrow> store_good C t st \<Longrightarrow> store_good C t st'"
  by (auto simp: store_good_def dest: vok_facts vfail_facts)
    (auto simp: vok_def vfail_def ok_rel_def mid_rel_def fail_rel_def frame_rel_def)

lemma good_reset: "store_good C t (snd (reset_count st)) \<longleftrightarrow> store_good C t st"
  by (simp add: reset_count_def modS_def store_good_def store_inv_def eval_inv_def locals_ok_def vals_ok_def)

lemma execute_action_good:
  assumes "functions_wf fs" "action_wf a" "store_good C t st" "execute_action peq fs a st = (r, st')"
  shows "store_good C t st' \<and> (\<forall>e. r = Fail e \<longrightarrow> clean e \<and> vfail (snd (reset_count st)) e st')"
proof -
  have inv: "store_inv st" using assms(3) by (simp add: store_good_def)
  have s0: "store_good C t (snd (reset_count st))" using assms(3) by (simp add: good_reset)
  note v = execute_action_valid [OF assms(1,2) inv, of peq]
  show ?thesis
  proof (cases r)
    case (Ok b)
    then have "action_post a (snd (reset_count st)) st'" using validD_ok [OF v] assms(4) by simp
    then show ?thesis
      using s0 Ok by (cases a) (auto simp: assigned_def intro!: good_set_runtime dest: good_rel)
  next
    case (Fail e)
    then have f: "vfail (snd (reset_count st)) e st'" using validD_fail [OF v] assms(4) by simp
    then show ?thesis using Fail good_rel(2) [OF f s0] by (auto simp: vfail_def)
  qed
qed

context cascade_runner
begin

lemma recompute_one_good:
  assumes "cascade_inv budget c" "good (cs_store c)" "tree_wf (cb_expr cb)" "store_good C t (cs_store c)"
    and "recompute_one run budget cb c = Ok (new, c')"
  shows "store_good C t (cs_store c')"
proof (cases "pool_exhausted (cb_tainted cb) (cs_spent_tainted c) (cs_spent_untainted c) budget")
  case True
  then show ?thesis using assms by (simp add: recompute_one_def)
next
  case False
  let ?st = "with_count (pool cb c) (cs_store c)"
  obtain r st where r: "run (cb_expr cb) ?st = (r, st)" by fastforce
  have g: "store_good C t ?st" using assms(4) by (simp add: store_good_def with_count_inv) (simp add: with_count_def)
  have "pool cb c \<le> max_instructions (vs_evaluator (cs_store c))"
    using False assms(1) by (auto simp: pool_exhausted_def pool_def cascade_inv_def)
  then have "vok ?st ?st" using g by (intro inv_vok_refl) (simp_all add: store_good_def)
  moreover have "good ?st" using assms(2) by (rule good_depth) simp
  ultimately have st: "store_good C t st" "\<And>v. r = Ok v \<Longrightarrow> value_ok v"
    using run_ok [OF _ assms(3)] r g good_rel
    by (cases r; fastforce dest: validD_ok validD_fail)+
  show ?thesis
    using assms(5) False r st
    by (auto simp: recompute_one_def Let_def bank_def good_set_symbol split: outcome.splits fault.splits)
qed

lemma naive_scan_good:
  "list_all (\<lambda>cb. tree_wf (cb_expr cb)) bs \<Longrightarrow> cascade_inv budget c \<Longrightarrow> good (cs_store c) \<Longrightarrow>
     store_good C t (cs_store c) \<Longrightarrow> naive_scan run budget bs c = Ok c' \<Longrightarrow> store_good C t (cs_store c')"
proof (induction bs arbitrary: c)
  case (Cons cb bs)
  show ?case
  proof (cases "\<not> no_deps_pending (cs_store c) cb \<and> \<not> list_ex (\<lambda>d. d \<in> cs_changed c) (cb_depends_on cb)")
    case True
    then have "naive_scan run budget bs c = Ok c'" using Cons.prems(5) by simp
    then show ?thesis using Cons.IH [of c] Cons.prems by simp
  next
    case False
    have wf: "tree_wf (cb_expr cb)" using Cons.prems(1) by simp
    obtain new c1 where 1: "recompute_one run budget cb c = Ok (new, c1)" "cascade_inv budget c1" "good (cs_store c1)"
      using recompute_one_spec [OF Cons.prems(2,3) wf] by metis
    have "naive_scan run budget bs c1 = Ok c'" using Cons.prems(5) False 1(1) by auto
    moreover have "store_good C t (cs_store c1)"
      by (rule recompute_one_good [OF Cons.prems(2,3) wf Cons.prems(4) 1(1)])
    ultimately show ?thesis using Cons.IH [of c1] Cons.prems(1) 1 by simp
  qed
qed simp

end

lemma recompute_good:
  assumes "functions_wf fs" "bindings_wf bs" "topo_sorted bs" "store_good C t st"
    and "recompute_computed_bindings (run_tree peq fs) bs mutated (build_comp_reverse_index bs) st = (r, st')"
  shows "is_ok r \<and> store_good C t st'"
proof -
  have inv: "store_inv st" using assms(4) by (simp add: store_good_def)
  let ?m = "max_instructions (vs_evaluator st)" and ?c = "cascade_start st mutated"
  have scan: "recompute_computed_bindings_naive_scan (run_tree peq fs) bs mutated st = (r, st')" "is_ok r"
    using recompute_is_scan [OF assms(1,2,3) inv, of peq mutated] assms(5) by simp_all
  have "cascade_inv ?m ?c" "functions_wf fs \<and> eval_depth (vs_evaluator (cs_store ?c)) \<le> MAX_EVAL_DEPTH"
    using inv assms(1) by (simp_all add: cascade_inv_def cascade_start_def store_inv_def eval_inv_def)
  note keep = cr.naive_scan_good [OF _ this]
  show ?thesis
  proof (cases "bs = []")
    case True
    then show ?thesis using scan assms(4) by (auto simp: recompute_computed_bindings_naive_scan_def)
  next
    case False
    with scan obtain c' where "naive_scan (run_tree peq fs) ?m bs ?c = Ok c'" "st' = cs_store c'"
      by (auto simp: recompute_computed_bindings_naive_scan_def split: outcome.splits)
    then show ?thesis
      using keep [of bs C t peq c'] scan(2) assms(2,4) by (auto simp: bindings_wf_def cascade_start_def)
  qed
qed

section \<open>The invariant of a session\<close>

definition session_inv :: "tab_session \<Rightarrow> bool" where
  "session_inv s \<longleftrightarrow>
     store_good (set (map cb_name (computed_vars s))) (vs_interner (ss_store s)) (ss_store s)
     \<and> functions_wf (map_of (logic_fns s))
     \<and> (\<forall>n a. click_actions s n = Some a \<longrightarrow> action_wf a)
     \<and> (\<forall>n a. submit_actions s n = Some a \<longrightarrow> action_wf a)
     \<and> list_all action_wf (root_timer_actions s)
     \<and> bindings_wf (computed_vars s) \<and> topo_sorted (computed_vars s)
     \<and> computed_reverse_index s = build_comp_reverse_index (computed_vars s)"

definition payload_wf :: "reload_payload \<Rightarrow> bool" where
  "payload_wf p \<longleftrightarrow>
     list_all (\<lambda>f. tree_wf (fn_body (snd f))) (rp_logic_fns p)
     \<and> (\<forall>n a. rp_click_actions p n = Some a \<longrightarrow> action_wf a)
     \<and> (\<forall>n a. rp_submit_actions p n = Some a \<longrightarrow> action_wf a)
     \<and> list_all action_wf (rp_root_timer_actions p)
     \<and> list_all (\<lambda>v. value_ok (snd v)) (rp_initial_variables p)
     \<and> bindings_wf (rp_computed_bindings p) \<and> topo_sorted (rp_computed_bindings p)"

fun event_wf :: "ui_event \<Rightarrow> bool" where
  "event_wf (UiReload p) = payload_wf p"
| "event_wf (UiUpdateVariable _ v) = value_ok v"
| "event_wf (UiSubmitForm _ fs) = list_all (\<lambda>f. value_ok (snd f)) fs"
| "event_wf _ = True"

lemma session_inv_store:
  "session_inv s \<Longrightarrow> store_good (set (map cb_name (computed_vars s))) (vs_interner (ss_store s)) st \<Longrightarrow>
     session_inv (s\<lparr>ss_store := st\<rparr>)"
  by (simp add: session_inv_def) (simp add: store_good_def)

lemma session_inv_good:
  "session_inv s \<Longrightarrow> store_good (set (map cb_name (computed_vars s))) (vs_interner (ss_store s)) (ss_store s)"
  by (simp add: session_inv_def)

text \<open>The contract of a step of a session: the invariant, kept on both paths, and no panic.\<close>

definition safe :: "'a scomput \<Rightarrow> bool" where
  "safe m \<longleftrightarrow> valid session_inv m (\<lambda>_. session_inv) (\<lambda>e s. clean e \<and> session_inv s)"

lemma safe_bind: "safe m \<Longrightarrow> (\<And>v. safe (f v)) \<Longrightarrow> safe (bindS m f)"
  unfolding safe_def by (rule valid_bindS)

lemma safe_ok: "safe (okS v)"
  by (simp add: safe_def valid_okS)

lemma safe_recompute: "safe (recompute_after_mutation peq)"
proof -
  have "valid (\<lambda>t. t = s) (recompute_after_mutation peq) (\<lambda>_. session_inv) (\<lambda>e s. clean e \<and> session_inv s)"
    if s: "session_inv s" for s
  proof (cases "computed_vars s = []")
    case True
    then show ?thesis using s by (simp add: valid_def recompute_after_mutation_def)
  next
    case False
    obtain r st where r: "recompute_computed_bindings (run_tree peq (map_of (logic_fns s))) (computed_vars s)
        (remdups (map fst (undo_log (vs_evaluator (ss_store s))))) (build_comp_reverse_index (computed_vars s)) (ss_store s) = (r, st)"
      by fastforce
    have "is_ok r \<and> store_good (set (map cb_name (computed_vars s))) (vs_interner (ss_store s)) st"
      using s by (intro recompute_good [OF _ _ _ _ r]) (simp_all add: session_inv_def)
    then show ?thesis
      using s r False session_inv_store [OF s]
      by (cases r) (auto simp: valid_def recompute_after_mutation_def on_store_def bindS_def okS_def session_inv_def)
  qed
  then show ?thesis unfolding safe_def by (rule valid_by_state)
qed

lemma surface_errors_good:
  "store_good C t st \<Longrightarrow> list_all (\<lambda>e. value_ok (snd e)) errs \<Longrightarrow> store_good C t (fst (surface_errors errs st ms))"
  by (induction errs st ms rule: surface_errors.induct) (auto simp: good_set_runtime split: option.splits)

lemma resolve_errors_ok: "list_all (\<lambda>e. value_ok (snd e)) (snd (resolve_one_action s a))"
  by (auto simp: resolve_one_action_def split: runtime_action.splits option.splits outcome.splits)

lemma take_actions_good: "store_good C t (take_actions st) \<longleftrightarrow> store_good C t st"
  by (simp add: take_actions_def good_logs)

lemma safe_build_response: "safe (build_response peq g)"
proof -
  have "session_inv (snd (build_response peq g s)) \<and> is_ok (fst (build_response peq g s))" if s: "session_inv s" for s
  proof -
    let ?errs = "concat (map snd (map (resolve_one_action s) (accumulated_actions (vs_evaluator (ss_store s)))))"
    have "list_all (\<lambda>e. value_ok (snd e)) ?errs"
      using resolve_errors_ok by (fastforce simp: list_all_iff)
    then have "session_inv (s\<lparr>ss_store := fst (surface_errors ?errs (take_actions (ss_store s)) ms)\<rparr>)" for ms
      using session_inv_store [OF s] surface_errors_good take_actions_good session_inv_good [OF s] by blast
    then show ?thesis
      by (simp add: build_response_def Let_def case_prod_beta)
  qed
  then show ?thesis
    unfolding safe_def by (fastforce simp: valid_def split: prod.splits outcome.splits)
qed

lemma clear_undo_actions: "accumulated_actions (vs_evaluator (clear_undo st)) = accumulated_actions (vs_evaluator st)"
  by (simp add: clear_undo_def)

text \<open>A failed action leaves the log empty, so that the roll-back restores the queue and nothing else.\<close>

lemma failed_action:
  assumes "session_inv s" "action_wf a"
    and "on_store (execute_action peq (map_of (logic_fns s)) a) (s\<lparr>ss_store := clear_undo (ss_store s)\<rparr>) = (Fail e, s1)"
  defines "st1 \<equiv> rollback (length (accumulated_actions (vs_evaluator (ss_store s)))) (ss_store s1)"
  shows "clean e \<and> session_inv (s\<lparr>ss_store := st1\<rparr>) \<and> s1\<lparr>ss_store := st1\<rparr> = s\<lparr>ss_store := st1\<rparr>
     \<and> global_store (vs_evaluator st1) = global_store (vs_evaluator (ss_store s))
     \<and> accumulated_actions (vs_evaluator st1) = accumulated_actions (vs_evaluator (ss_store s))
     \<and> vs_interner st1 = vs_interner (ss_store s) \<and> undo_log (vs_evaluator st1) = []"
proof -
  let ?C = "set (map cb_name (computed_vars s))" and ?t = "vs_interner (ss_store s)" and ?s0 = "clear_undo (ss_store s)"
  obtain st where st: "execute_action peq (map_of (logic_fns s)) a ?s0 = (Fail e, st)" "s1 = s\<lparr>ss_store := st\<rparr>"
    using assms(3) by (auto simp: on_store_def split: prod.splits)
  have g0: "store_good ?C ?t ?s0" using session_inv_good [OF assms(1)] by (simp add: clear_undo_def good_logs)
  have fw: "functions_wf (map_of (logic_fns s))" using assms(1) by (simp add: session_inv_def)
  have f: "store_good ?C ?t st" "clean e" "vfail (snd (reset_count ?s0)) e st"
    using execute_action_good [OF fw assms(2) g0 st(1)] by auto
  have "global_store (vs_evaluator st) = global_store (vs_evaluator (ss_store s))" "undo_log (vs_evaluator st) = []"
    "prefix (accumulated_actions (vs_evaluator (ss_store s))) (accumulated_actions (vs_evaluator st))"
    using f(3) by (auto simp: vfail_def fail_rel_def frame_rel_def reset_count_def modS_def clear_undo_def)
  moreover have "store_good ?C ?t (st\<lparr>vs_evaluator := (vs_evaluator st)\<lparr>accumulated_actions := x\<rparr>\<rparr>)" for x
    using f(1) by (simp add: store_good_def store_inv_def eval_inv_def locals_ok_def vals_ok_def)
  ultimately have g1: "store_good ?C ?t st1"
    and keep: "global_store (vs_evaluator st1) = global_store (vs_evaluator (ss_store s))"
      "accumulated_actions (vs_evaluator st1) = accumulated_actions (vs_evaluator (ss_store s))"
      "undo_log (vs_evaluator st1) = []"
    unfolding st1_def st(2)
    by (auto simp: rollback_def Let_def undo_globals_def prefix_def good_logs store_good_def store_inv_def eval_inv_def
        locals_ok_def vals_ok_def)
  from g1 have "session_inv (s\<lparr>ss_store := st1\<rparr>)" by (rule session_inv_store [OF assms(1)])
  then show ?thesis using f(2) keep g1 st(2) by (simp add: store_good_def)
qed

lemma safe_respond: "safe (bindS (recompute_after_mutation peq) (\<lambda>_. build_response peq g))"
  by (intro safe_bind safe_recompute safe_build_response)

lemma safe_at: "safe m \<Longrightarrow> session_inv s \<Longrightarrow> m s = (r, s') \<Longrightarrow> session_inv s' \<and> (\<forall>e. r = Fail e \<longrightarrow> clean e)"
  by (cases r) (auto simp: safe_def dest: validD_ok validD_fail)

lemma safeI: "(\<And>s r s'. session_inv s \<Longrightarrow> m s = (r, s') \<Longrightarrow> session_inv s' \<and> (\<forall>e. r = Fail e \<longrightarrow> clean e)) \<Longrightarrow> safe m"
  unfolding safe_def by (rule validI) blast+

lemma execute_build_safe:
  assumes "session_inv s" "action_wf a" "execute_action_and_build peq a g s = (r, s')"
  shows "session_inv s' \<and> (\<forall>e. r = Fail e \<longrightarrow> clean e)"
proof -
  let ?s0 = "s\<lparr>ss_store := clear_undo (ss_store s)\<rparr>"
  have g0: "store_good (set (map cb_name (computed_vars s))) (vs_interner (ss_store s)) (clear_undo (ss_store s))"
    using session_inv_good [OF assms(1)] by (simp add: clear_undo_def good_logs)
  have fw: "functions_wf (map_of (logic_fns s))" using assms(1) by (simp add: session_inv_def)
  obtain q s1 where q: "on_store (execute_action peq (map_of (logic_fns s)) a) ?s0 = (q, s1)" by fastforce
  show ?thesis
  proof (cases q)
    case (Ok b)
    obtain st where st: "execute_action peq (map_of (logic_fns s)) a (clear_undo (ss_store s)) = (Ok b, st)"
        "s1 = s\<lparr>ss_store := st\<rparr>"
      using q Ok by (auto simp: on_store_def split: prod.splits)
    have "session_inv s1"
      unfolding st(2) using execute_action_good [OF fw assms(2) g0 st(1)] session_inv_store [OF assms(1)] by blast
    moreover have "bindS (recompute_after_mutation peq) (\<lambda>_. build_response peq g) s1 = (r, s')"
      using assms(3) q Ok by (simp add: execute_action_and_build_def Let_def)
    ultimately show ?thesis using safe_at [OF safe_respond] by blast
  next
    case (Fail e)
    note f = failed_action [OF assms(1,2) q [unfolded Fail]]
    have "r = Fail e" "s' = s1\<lparr>ss_store := rollback (length (accumulated_actions (vs_evaluator (ss_store s)))) (ss_store s1)\<rparr>"
      using q Fail assms(3) by (simp_all add: execute_action_and_build_def Let_def clear_undo_actions)
    then show ?thesis using f by (simp only:) simp
  qed
qed

lemma submit_form_safe:
  assumes "session_inv s" "list_all (\<lambda>f. value_ok (snd f)) ff" "submit_form peq n ff s = (r, s')"
  shows "session_inv s' \<and> (\<forall>e. r = Fail e \<longrightarrow> clean e)"
proof -
  let ?C = "set (map cb_name (computed_vars s))" and ?t = "vs_interner (ss_store s)"
  let ?st = "fold (\<lambda>(k, v). set_runtime k v) ff (set_runtime ''$form'' (record_from_unsorted ff) (clear_undo (ss_store s)))"
  have "store_good ?C ?t (clear_undo (ss_store s))"
    using session_inv_good [OF assms(1)] by (simp add: clear_undo_def good_logs)
  moreover have "value_ok (record_from_unsorted ff)"
    using assms(2) by (intro value_ok_record) (auto simp: list_all_iff)
  ultimately have g: "store_good ?C ?t ?st" using assms(2) by (intro good_assign_all good_set_runtime)
  have fw: "functions_wf (map_of (logic_fns s))" using assms(1) by (simp add: session_inv_def)
  obtain q s1 where q: "(case submit_actions s n of
        None \<Rightarrow> (Ok False, s\<lparr>ss_store := ?st\<rparr>)
      | Some a \<Rightarrow> on_store (execute_action peq (map_of (logic_fns s)) a) (s\<lparr>ss_store := ?st\<rparr>)) = (q, s1)"
    by fastforce
  have s1: "session_inv s1 \<and> (\<forall>e. q = Fail e \<longrightarrow> clean e)"
  proof (cases "submit_actions s n")
    case None
    then show ?thesis using q session_inv_store [OF assms(1) g] by auto
  next
    case (Some a)
    then have "action_wf a" using assms(1) by (auto simp: session_inv_def)
    then show ?thesis
      using q Some execute_action_good [OF fw _ g, of a peq] session_inv_store [OF assms(1)]
      by (fastforce simp: on_store_def split: prod.splits)
  qed
  have "bindS (recompute_after_mutation peq) (\<lambda>_. build_response peq True) s1 = (r, s')"
    using assms(3) q s1 by (cases q) (auto simp: submit_form_def Let_def clean_def split: fault.splits)
  then show ?thesis using safe_at [OF safe_respond] s1 by blast
qed

lemma initial_functions_good:
  "functions_wf fs \<Longrightarrow> list_all (\<lambda>f. tree_wf (fn_body (snd f))) fl \<Longrightarrow> store_good C t st \<Longrightarrow>
     initial_functions peq fs fl st = (r, st') \<Longrightarrow> is_ok r \<and> store_good C t st'"
proof (induction fl arbitrary: st)
  case Nil
  then show ?case by (auto simp: okS_def)
next
  case (Cons f fl)
  obtain y func where f: "f = (y, func)" by fastforce
  show ?case
  proof (cases "fn_params func = []")
    case False
    then have "initial_functions peq fs fl st = (r, st')" using Cons.prems(4) f by simp
    then show ?thesis using Cons.IH [of st] Cons.prems by simp
  next
    case True
    let ?s0 = "snd (reset_count st)"
    obtain q st1 where q: "run_tree peq fs (fn_body func) ?s0 = (q, st1)" by fastforce
    have run: "bindS reset_count (\<lambda>_. run_tree peq fs (fn_body func)) st = (q, st1)"
      using q by (simp add: bindS_def reset_count_def modS_def)
    have inv: "store_inv st" using Cons.prems(3) by (simp add: store_good_def)
    have gd: "functions_wf fs \<and> eval_depth (vs_evaluator ?s0) \<le> MAX_EVAL_DEPTH"
      using Cons.prems(1) inv by (simp add: reset_count_def modS_def store_inv_def eval_inv_def)
    have "tree_wf (fn_body func)" using Cons.prems(2) f by simp
    note v = rt.run_ok [OF gd this, of peq]
    have g0: "store_good C t ?s0" using Cons.prems(3) by (simp add: good_reset)
    show ?thesis
    proof (cases q)
      case (Ok w)
      then have "value_ok w" "vok ?s0 st1" using validD_ok [OF v start_rel [OF inv]] q by auto
      then have "store_good C t (set_symbol y w st1)" using g0 by (intro good_set_symbol) (auto dest: good_rel)
      then show ?thesis using Cons.IH [of "set_symbol y w st1"] Cons.prems f True run Ok by simp
    next
      case (Fail e)
      then have vf: "vfail ?s0 e st1" using validD_fail [OF v start_rel [OF inv]] q by auto
      have "clean e" "store_good C t st1" using vf good_rel(2) [OF vf g0] by (simp_all add: vfail_def)
      then show ?thesis using Cons.IH [of st1] Cons.prems f True run Fail by (auto simp: clean_def)
    qed
  qed
qed

lemma load_document_inv:
  assumes "payload_wf p"
  shows "session_inv (load_document p s)"
proof -
  let ?st = "fold (\<lambda>(k, v). set_runtime k v) (rp_initial_variables p) (with_interner (rp_interner p))"
  have "store_good {} (rp_interner p) (with_interner (rp_interner p))"
    using store_new_inv
    by (simp add: store_good_def with_interner_def store_inv_def store_new_def)
      (simp add: evaluator_default_def evaluator_new_def)
  then have "store_good {} (rp_interner p) ?st"
    using assms by (intro good_assign_all) (simp_all add: payload_wf_def)
  then have "store_good C (rp_interner p) (?st\<lparr>vs_evaluator := (vs_evaluator ?st)\<lparr>undo_log := [], computed_var_syms := C\<rparr>\<rparr>)"
    and "vs_interner ?st = rp_interner p" for C
    by (simp_all add: store_good_def store_inv_def eval_inv_def locals_ok_def vals_ok_def)
  moreover have "functions_wf (map_of (rp_logic_fns p))"
    using assms by (auto simp: payload_wf_def functions_wf_def list_all_iff dest!: map_of_SomeD)
  ultimately show ?thesis
    using assms by (simp add: session_inv_def load_document_def Let_def payload_wf_def)
qed

lemma apply_reload_safe:
  assumes "payload_wf p" "apply_reload peq p s = (r, s')"
  shows "session_inv s' \<and> (\<forall>e. r = Fail e \<longrightarrow> clean e)"
proof -
  let ?s = "load_document p s" and ?fs = "map_of (rp_logic_fns p)" and ?bs = "rp_computed_bindings p"
  let ?C = "set (map cb_name ?bs)" and ?t = "vs_interner (ss_store ?s)"
  have l: "logic_fns ?s = rp_logic_fns p" "computed_vars ?s = ?bs" by (simp_all add: load_document_def Let_def)
  have s: "session_inv ?s" by (rule load_document_inv [OF assms(1)])
  have g: "store_good ?C ?t (ss_store ?s)" using session_inv_good [OF s] l by simp
  have wf: "functions_wf ?fs" "bindings_wf ?bs" "topo_sorted ?bs" "list_all (\<lambda>f. tree_wf (fn_body (snd f))) (rp_logic_fns p)"
    using s l assms(1) by (simp_all add: session_inv_def payload_wf_def)
  obtain q1 st1 where 1: "initial_functions peq ?fs (rp_logic_fns p) (ss_store ?s) = (q1, st1)" by fastforce
  have g1: "is_ok q1" "store_good ?C ?t st1"
    using initial_functions_good [OF wf(1,4) g 1] by simp_all
  obtain q2 st2 where 2: "recompute_computed_bindings (run_tree peq ?fs) ?bs
      (sorted_list_of_set (dom (global_store (vs_evaluator st1)))) (build_comp_reverse_index ?bs) st1 = (q2, st2)" by fastforce
  have g2: "is_ok q2" "store_good ?C ?t st2"
    using recompute_good [OF wf(1,2,3) g1(2) 2] by simp_all
  have "build_response peq False (?s\<lparr>ss_store := st2\<rparr>) = (r, s')"
    using assms(2) 1 2 g1(1) g2(1)
    by (cases q1; cases q2) (simp_all add: apply_reload_def bindS_def modS_def on_store_def)
  moreover have "session_inv (?s\<lparr>ss_store := st2\<rparr>)" using session_inv_store [OF s] g2(2) l by simp
  ultimately show ?thesis using safe_at [OF safe_build_response] by blast
qed

lemma then_some:
  "bindS m (\<lambda>r. okS (Some r)) s = (q, s') \<Longrightarrow> \<exists>r. m s = (r, s') \<and> (\<forall>e. q = Fail e \<longleftrightarrow> r = Fail e)
     \<and> (\<forall>x. q = Ok x \<longleftrightarrow> (\<exists>w. r = Ok w \<and> x = Some w))"
  by (auto simp: bindS_def okS_def split: prod.splits outcome.splits)

lemma apply_event_safe:
  assumes "session_inv s" "event_wf ev" "apply_event peq ev s = (r, s')"
  shows "session_inv s' \<and> (\<forall>e. r = Fail e \<longrightarrow> clean e)"
proof (cases ev)
  case (UiClick n)
  show ?thesis
  proof (cases "click_actions s n")
    case None
    then show ?thesis using assms UiClick by (auto simp: apply_event_def bindS_def getS_def okS_def)
  next
    case (Some a)
    then have "action_wf a" using assms(1) by (auto simp: session_inv_def)
    moreover have "bindS (execute_action_and_build peq a True) (\<lambda>r. okS (Some r)) s = (r, s')"
      using assms(3) UiClick Some by (simp add: apply_event_def bindS_def getS_def)
    ultimately show ?thesis using then_some execute_build_safe [OF assms(1)] by metis
  qed
next
  case (UiRootTimer i)
  show ?thesis
  proof (cases "i < length (root_timer_actions s)")
    case False
    then show ?thesis using assms UiRootTimer by (auto simp: apply_event_def bindS_def getS_def okS_def)
  next
    case True
    then have "action_wf (root_timer_actions s ! i)" using assms(1) by (auto simp: session_inv_def list_all_length)
    moreover have "bindS (execute_action_and_build peq (root_timer_actions s ! i) False) (\<lambda>r. okS (Some r)) s = (r, s')"
      using assms(3) UiRootTimer True by (simp add: apply_event_def bindS_def getS_def)
    ultimately show ?thesis using then_some execute_build_safe [OF assms(1)] by metis
  qed
next
  case (UiSubmitForm n ff)
  then have "bindS (submit_form peq n ff) (\<lambda>r. okS (Some r)) s = (r, s')" "list_all (\<lambda>f. value_ok (snd f)) ff"
    using assms(2,3) by (simp_all add: apply_event_def)
  then show ?thesis using then_some submit_form_safe [OF assms(1)] by metis
next
  case (UiUpdateVariable name v)
  let ?s0 = "s\<lparr>ss_store := set_runtime name v (clear_undo (ss_store s))\<rparr>"
  have "session_inv ?s0"
    using assms(1,2) UiUpdateVariable session_inv_good [OF assms(1)]
    by (intro session_inv_store good_set_runtime) (simp_all add: clear_undo_def good_logs)
  moreover have "bindS (recompute_after_mutation peq) (\<lambda>_. bindS (build_response peq False) (\<lambda>r. okS (Some r))) ?s0 = (r, s')"
    using assms(3) UiUpdateVariable by (simp add: apply_event_def bindS_def modS_def)
  ultimately show ?thesis
    by (rule safe_at [OF safe_bind [OF safe_recompute safe_bind [OF safe_build_response safe_ok]]])
next
  case (UiReload p)
  then have "bindS (apply_reload peq p) (\<lambda>r. okS (Some r)) s = (r, s')" "payload_wf p"
    using assms(2,3) by (simp_all add: apply_event_def)
  then show ?thesis using then_some apply_reload_safe by metis
next
  case UiCloseTab
  then show ?thesis using assms by (auto simp: apply_event_def okS_def)
qed

text \<open>Recomputing and building the response do not fail.\<close>

lemma respond_ok:
  assumes "session_inv s"
  shows "is_ok (fst (bindS (recompute_after_mutation peq) (\<lambda>_. build_response peq g) s))"
proof -
  have "is_ok (fst (recompute_after_mutation peq s))"
  proof (cases "computed_vars s = []")
    case True
    then show ?thesis by (simp add: recompute_after_mutation_def)
  next
    case False
    obtain r st where r: "recompute_computed_bindings (run_tree peq (map_of (logic_fns s))) (computed_vars s)
        (remdups (map fst (undo_log (vs_evaluator (ss_store s))))) (build_comp_reverse_index (computed_vars s)) (ss_store s) = (r, st)"
      by fastforce
    have "is_ok r" using assms recompute_good [OF _ _ _ _ r] by (auto simp: session_inv_def)
    then show ?thesis
      using assms r False
      by (cases r) (auto simp: recompute_after_mutation_def on_store_def bindS_def okS_def session_inv_def)
  qed
  moreover have "is_ok (fst (build_response peq g x))" for x
    by (simp add: build_response_def Let_def case_prod_beta)
  ultimately show ?thesis
    by (cases "recompute_after_mutation peq s"; cases "fst (recompute_after_mutation peq s)") (auto simp: bindS_def)
qed

section \<open>Reachable sessions\<close>

inductive reaches :: "(mval \<Rightarrow> mval \<Rightarrow> bool) \<Rightarrow> tab_session \<Rightarrow> bool" for peq where
  new: "reaches peq session_new"
| deferred: "reaches peq s \<Longrightarrow> reaches peq (defer_alias_resolution s)"
| event: "reaches peq s \<Longrightarrow> event_wf ev \<Longrightarrow> apply_event peq ev s = (r, s') \<Longrightarrow> reaches peq s'"

lemma session_new_inv: "session_inv session_new"
proof -
  have "computed_var_syms (vs_evaluator store_new) = {}"
    by (simp add: store_new_def evaluator_default_def evaluator_new_def)
  then show ?thesis
    by (simp add: session_inv_def session_new_def store_good_def store_new_inv functions_wf_def bindings_wf_def
        topo_sorted_def build_comp_reverse_index_def)
qed

lemma reaches_inv: "reaches peq s \<Longrightarrow> session_inv s"
proof (induction rule: reaches.induct)
  case (deferred s)
  then show ?case by (simp add: session_inv_def defer_alias_resolution_def)
qed (auto intro: session_new_inv dest: apply_event_safe)

section \<open>Properties\<close>

text \<open>
  (C1) A session never panics: from the empty document, through any sequence of well-formed
  events (reloads included), every event returns a response, nothing, or an error of the
  source, and the state keeps its invariant: consistent scope tables, well-formed values,
  the read-only set and the reverse index of the current document's bindings.
\<close>

theorem session_never_panics:
  assumes "reaches peq s" "event_wf ev" "apply_event peq ev s = (r, s')"
  shows "session_inv s' \<and> reaches peq s' \<and> (case r of Ok _ \<Rightarrow> True | Fail f \<Rightarrow> (\<exists>err. f = Error err))"
  using apply_event_safe [OF reaches_inv [OF assms(1)] assms(2,3)] reaches.event [OF assms]
  by (auto simp: clean_def split: outcome.splits)

theorem session_never_panics_witness:
  "session_inv (snd (apply_event (\<lambda>_ _. False) (UiUpdateVariable ''x'' (VInt 1)) session_new))"
proof -
  obtain r s' where r: "apply_event (\<lambda>_ _. False) (UiUpdateVariable ''x'' (VInt 1)) session_new = (r, s')" by fastforce
  have "event_wf (UiUpdateVariable ''x'' (VInt 1))" by (simp add: i64_defs)
  from session_never_panics [OF reaches.new this r] r show ?thesis by simp
qed

lemma execute_build_failed:
  assumes "session_inv s" "action_wf a" "execute_action_and_build peq a g s = (Fail e, s')"
  shows "global_store (vs_evaluator (ss_store s')) = global_store (vs_evaluator (ss_store s))
     \<and> accumulated_actions (vs_evaluator (ss_store s')) = accumulated_actions (vs_evaluator (ss_store s))
     \<and> vs_interner (ss_store s') = vs_interner (ss_store s) \<and> s'\<lparr>ss_store := ss_store s\<rparr> = s"
proof -
  let ?s0 = "s\<lparr>ss_store := clear_undo (ss_store s)\<rparr>"
  obtain q s1 where q: "on_store (execute_action peq (map_of (logic_fns s)) a) ?s0 = (q, s1)" by fastforce
  show ?thesis
  proof (cases q)
    case (Ok b)
    then have "bindS (recompute_after_mutation peq) (\<lambda>_. build_response peq g) s1 = (Fail e, s')"
      using assms(3) q by (simp add: execute_action_and_build_def Let_def)
    moreover have "store_good (set (map cb_name (computed_vars s))) (vs_interner (ss_store s)) (clear_undo (ss_store s))"
      "functions_wf (map_of (logic_fns s))"
      using assms(1) by (simp_all add: session_inv_def clear_undo_def good_logs)
    then have "session_inv s1"
      using q Ok assms(2) execute_action_good session_inv_store [OF assms(1)]
      by (fastforce simp: on_store_def split: prod.splits)
    ultimately show ?thesis using respond_ok [of s1 peq g] by simp
  next
    case (Fail e')
    note f = failed_action [OF assms(1,2) q [unfolded Fail]]
    have "s' = s1\<lparr>ss_store := rollback (length (accumulated_actions (vs_evaluator (ss_store s)))) (ss_store s1)\<rparr>"
      using q Fail assms(3) by (simp add: execute_action_and_build_def Let_def clear_undo_actions)
    then show ?thesis using f by simp
  qed
qed

lemma event_failed:
  assumes "ev = UiClick n \<or> ev = UiRootTimer n" "apply_event peq ev s = (Fail e, s')" "session_inv s"
  obtains a g where "action_wf a" "execute_action_and_build peq a g s = (Fail e, s')"
proof (cases "ev = UiClick n")
  case True
  with assms(2) obtain a where a: "click_actions s n = Some a" "execute_action_and_build peq a True s = (Fail e, s')"
    by (auto simp: apply_event_def bindS_def getS_def okS_def split: option.splits prod.splits outcome.splits)
  then have "action_wf a" using assms(3) by (auto simp: session_inv_def)
  with a(2) that show ?thesis by blast
next
  case False
  then have n: "n < length (root_timer_actions s)"
    "execute_action_and_build peq (root_timer_actions s ! n) False s = (Fail e, s')"
    using assms(1,2)
    by (auto simp: apply_event_def bindS_def getS_def okS_def split: if_splits option.splits prod.splits outcome.splits)
  then have "action_wf (root_timer_actions s ! n)" using assms(3) by (auto simp: session_inv_def list_all_length)
  with n(2) that show ?thesis by blast
qed

text \<open>
  (C22) A failed action is rolled back: when a click or a timer tick ends in an error, the
  globals and the queue of actions are what they were before the event, and nothing else
  of the session but the evaluator's scratch state has changed.
\<close>

theorem failed_event_rolls_back:
  assumes "session_inv s" "ev = UiClick n \<or> ev = UiRootTimer n" "apply_event peq ev s = (Fail e, s')"
  shows "global_store (vs_evaluator (ss_store s')) = global_store (vs_evaluator (ss_store s))
     \<and> accumulated_actions (vs_evaluator (ss_store s')) = accumulated_actions (vs_evaluator (ss_store s))
     \<and> vs_interner (ss_store s') = vs_interner (ss_store s)
     \<and> s'\<lparr>ss_store := ss_store s\<rparr> = s"
  using event_failed [OF assms(2,3,1)] execute_build_failed [OF assms(1)] by metis

definition one_timer :: "action \<Rightarrow> tab_session" where
  "one_timer a = session_new\<lparr>root_timer_actions := [a]\<rparr>"

lemma one_timer_inv: "action_wf a \<Longrightarrow> session_inv (one_timer a)"
  using session_new_inv by (simp add: one_timer_def session_inv_def session_new_def)

theorem failed_event_rolls_back_witness:
  "global_store (vs_evaluator (ss_store (snd (apply_event (\<lambda>_ _. False) (UiRootTimer 0) (one_timer (AEval (var_tree 7)))))))
     = Map.empty"
proof -
  let ?s = "one_timer (AEval (var_tree 7))"
  obtain r s' where r: "apply_event (\<lambda>_ _. False) (UiRootTimer 0) ?s = (r, s')" by fastforce
  have inv: "session_inv ?s" by (rule one_timer_inv) (simp add: var_tree_def wf_defs)
  have "\<not> is_ok r"
    using r
    by (simp add: one_timer_def session_new_def apply_event_def comput_defs execute_action_and_build_def Let_def on_store_def
        execute_action_def reset_count_def run_tree_def evaluate_tree_def var_tree_def root_expr_def arena_get_def
        index_or_panic_def evaluate_step enter_eval_def evaluate_impl_def eval_variable_def get_local_def get_global_def
        clear_undo_def store_new_def evaluator_default_def evaluator_new_def u64_defs MAX_EVAL_DEPTH_def) auto
  then obtain e where "r = Fail e" by (cases r) auto
  with failed_event_rolls_back [OF inv, of "UiRootTimer 0" 0 "\<lambda>_ _. False" e s'] r show ?thesis
    by (simp add: one_timer_def session_new_def store_new_def evaluator_default_def evaluator_new_def)
qed

text \<open>
  The gesture flag of a response is determined by the event alone: it is set exactly for
  clicks and form submissions, never for a timer, a network response or a document load.
\<close>

theorem gesture_only_from_user:
  assumes "apply_event peq ev s = (Ok (Some resp), s')"
  shows "gesture resp \<longleftrightarrow> (case ev of UiClick _ \<Rightarrow> True | UiSubmitForm _ _ \<Rightarrow> True | _ \<Rightarrow> False)"
proof -
  have b: "gesture r = g" if "build_response peq g x = (Ok r, x')" for g r x x'
    using that by (auto simp: build_response_def Let_def split: prod.splits)
  have c: "gesture r = g" if "bindS (recompute_after_mutation peq) (\<lambda>_. build_response peq g) x = (Ok r, x')" for g r x x'
    using that b by (auto simp: bindS_def split: prod.splits outcome.splits)
  have d: "gesture r = g" if "execute_action_and_build peq a g x = (Ok r, x')" for g r x x' a
    using that c by (auto simp: execute_action_and_build_def Let_def split: prod.splits outcome.splits)
  have e: "gesture r" if "submit_form peq n ff x = (Ok r, x')" for n ff r x x'
    using that c by (auto simp: submit_form_def Let_def split: prod.splits outcome.splits fault.splits)
  have f: "\<not> gesture r" if "apply_reload peq p x = (Ok r, x')" for p r x x'
    using that b by (auto simp: apply_reload_def bindS_def modS_def split: prod.splits outcome.splits)
  show ?thesis
    using assms d e f b
    by (cases ev) (auto simp: apply_event_def bindS_def getS_def okS_def modS_def
        split: option.splits prod.splits outcome.splits if_splits)
qed

theorem gesture_only_from_user_witness:
  "\<exists>resp s'. apply_event (\<lambda>_ _. False) (UiUpdateVariable ''x'' VNull) session_new = (Ok (Some resp), s') \<and> \<not> gesture resp"
proof -
  obtain resp s' where r: "apply_event (\<lambda>_ _. False) (UiUpdateVariable ''x'' VNull) session_new = (Ok (Some resp), s')"
    by (simp add: apply_event_def comput_defs recompute_after_mutation_def build_response_def Let_def session_new_def
        set_runtime_def store_new_def interner_get_def interner_new_def clear_undo_def evaluator_default_def
        evaluator_new_def collect_mutations_def take_actions_def)
  from gesture_only_from_user [OF r] r show ?thesis by simp
qed

text \<open>
  Aliases never leave a session half resolved. When the session resolves, no action of a
  response is an unresolved call or download, and every resolved call it adds has a URL
  built from an endpoint of the document's registry by the gated resolution; a session
  that defers hands out the queue as it is.
\<close>

theorem response_actions_resolved:
  assumes "build_response peq g s = (Ok resp, s')"
  shows "if defer_alias s then runtime_actions resp = accumulated_actions (vs_evaluator (ss_store s))
     else (\<forall>a \<in> set (runtime_actions resp).
       (\<forall>m y p pp tv f h. a \<noteq> RNetworkCall m y p pp tv f h) \<and> (\<forall>y. a \<noteq> RDownloadAlias y)
       \<and> (\<forall>m url p tv f h. a = RResolvedCall m url p tv f h \<longrightarrow>
            a \<in> set (accumulated_actions (vs_evaluator (ss_store s)))
            \<or> (\<exists>y ep pp. url_registry s y = Some ep \<and> resolve_endpoint_url (document_domain s) ep pp = Ok url)))"
proof -
  have r: "runtime_actions resp = map (fst \<circ> resolve_one_action s) (accumulated_actions (vs_evaluator (ss_store s)))"
    using assms by (auto simp: build_response_def Let_def split: prod.splits)
  have one: "(\<forall>m y p pp tv f h. fst (resolve_one_action s a) \<noteq> RNetworkCall m y p pp tv f h)
      \<and> (\<forall>y. fst (resolve_one_action s a) \<noteq> RDownloadAlias y)
      \<and> (\<forall>m url p tv f h. fst (resolve_one_action s a) = RResolvedCall m url p tv f h \<longrightarrow>
           fst (resolve_one_action s a) \<in> set (accumulated_actions (vs_evaluator (ss_store s)))
           \<or> (\<exists>y ep pp. url_registry s y = Some ep \<and> resolve_endpoint_url (document_domain s) ep pp = Ok url))"
    if "\<not> defer_alias s" "a \<in> set (accumulated_actions (vs_evaluator (ss_store s)))" for a
    using that by (cases a) (auto simp: resolve_one_action_def split: option.splits outcome.splits)
  show ?thesis
  proof (cases "defer_alias s")
    case True
    then show ?thesis using r by (simp add: resolve_one_action_def o_def)
  next
    case False
    then show ?thesis using one by (simp add: r)
  qed
qed

text \<open>
  No change is missed: a symbol written during the event whose value differs from the one
  it had before is reported with its current value, and what is reported for written
  symbols is the current value; a comparison that runs out of its budget counts as a
  change.
\<close>

theorem response_reports_changes:
  assumes "\<And>a b. peq a b \<Longrightarrow> a = b" and "build_response peq g s = (Ok resp, s')"
    and "map_of (undo_log (vs_evaluator (ss_store s))) y = Some old"
    and "\<not> value_eq old (get_global (vs_evaluator (ss_store s)) y)"
  shows "(y, get_global (vs_evaluator (ss_store s)) y) \<in> set (mutated_variables resp)"
proof -
  let ?e = "vs_evaluator (ss_store s)"
  have orig: "(y, old) \<in> set (original_values log)" if "map_of log y = Some old" for log
    using that
  proof (induction log rule: original_values.induct)
    case (2 x v log)
    have "map_of (filter (\<lambda>e. fst e \<noteq> x) log) y = map_of log y" if "y \<noteq> x"
      using that by (induction log) auto
    then show ?case using 2 by (cases "y = x") auto
  qed simp
  have "value_changed peq old (get_global ?e y)"
    using budget_eq_loop_post [of peq EQ_BUDGET_PER_VARIABLE "[(old, get_global ?e y)]" 0] assms(1,4)
    by (auto simp: value_changed_def budget_eq_def eq_post_def split: outcome.splits prod.splits)
  then have "(y, get_global ?e y) \<in> set (collect_mutations peq ?e)"
    using orig [OF assms(3)] by (force simp: collect_mutations_def)
  moreover have "set ms \<subseteq> set (snd (surface_errors errs st ms))" for errs st ms
    by (induction errs st ms rule: surface_errors.induct) (auto split: option.splits)
  ultimately show ?thesis
    using assms(2) by (auto simp: build_response_def Let_def split: prod.splits) (metis snd_conv subset_iff)
qed

lemma build_response_ok: "\<exists>resp s'. build_response peq g s = (Ok resp, s')"
  by (simp add: build_response_def Let_def case_prod_beta)

text \<open>A session whose evaluator has queued a call of \<^verbatim>\<open>api\<close> into \<^verbatim>\<open>resp\<close> and has overwritten \<^verbatim>\<open>home\<close>.\<close>

definition queued_session :: "url_registry \<Rightarrow> tab_session" where
  "queued_session reg =
     session_new\<lparr>url_registry := reg, document_domain := ''h'',
       ss_store := (flow_store ''a'' ''b'')\<lparr>vs_evaluator := (vs_evaluator (flow_store ''a'' ''b''))
         \<lparr>accumulated_actions := [RNetworkCall Get 4 None None 0 FJson []], undo_log := [(1, VNull)]\<rparr>\<rparr>\<rparr>"

theorem response_actions_resolved_witness:
  "\<exists>resp s'. build_response (\<lambda>_ _. False) False (queued_session [4 \<mapsto> \<lparr>ep_kind = Api, raw_target = ''/x''\<rparr>]) = (Ok resp, s')
     \<and> (\<forall>m y p pp tv f h. RNetworkCall m y p pp tv f h \<notin> set (runtime_actions resp))"
proof -
  let ?s = "queued_session [4 \<mapsto> \<lparr>ep_kind = Api, raw_target = ''/x''\<rparr>]"
  obtain resp s' where r: "build_response (\<lambda>_ _. False) False ?s = (Ok resp, s')"
    using build_response_ok by blast
  have "\<not> defer_alias ?s" by (simp add: queued_session_def session_new_def)
  with response_actions_resolved [OF r] r show ?thesis by auto
qed

theorem response_reports_changes_witness:
  "\<exists>resp s'. build_response (\<lambda>_ _. False) False (queued_session Map.empty) = (Ok resp, s')
     \<and> (1, VString ''b'') \<in> set (mutated_variables resp)"
proof -
  let ?s = "queued_session Map.empty"
  obtain resp s' where r: "build_response (\<lambda>_ _. False) False ?s = (Ok resp, s')"
    using build_response_ok by blast
  have u: "map_of (undo_log (vs_evaluator (ss_store ?s))) 1 = Some VNull"
    and v: "get_global (vs_evaluator (ss_store ?s)) 1 = VString ''b''"
    by (simp_all add: queued_session_def flow_store_def get_global_def)
  have "\<not> value_eq VNull (get_global (vs_evaluator (ss_store ?s)) 1)" unfolding v by simp
  from response_reports_changes [OF _ r u this] v r show ?thesis by auto
qed

text \<open>
  The error for an undeclared alias is filed under the decimal notation of the target's
  symbol number and not under its name. Unless the document happens to declare a variable
  whose name is that number, the error is dropped: the response reports nothing for it and
  the target variable keeps its value.
\<close>

theorem undeclared_alias_error_is_dropped:
  assumes "accumulated_actions (vs_evaluator (ss_store s)) = [RNetworkCall mth y p pp target fmt hs]"
    and "url_registry s y = None" "\<not> defer_alias s"
    and "interner_get (vs_interner (ss_store s)) (show_nat target) = None"
    and "build_response peq g s = (r, s')"
  shows "r = Ok \<lparr>mutated_variables = collect_mutations peq (vs_evaluator (ss_store s)), runtime_actions = [RNone], gesture = g\<rparr>
     \<and> global_store (vs_evaluator (ss_store s')) = global_store (vs_evaluator (ss_store s))"
  using assms by (auto simp: build_response_def Let_def resolve_one_action_def take_actions_def)

theorem undeclared_alias_error_is_dropped_witness:
  "\<exists>s'. build_response (\<lambda>_ _. False) False (queued_session Map.empty) =
     (Ok \<lparr>mutated_variables = collect_mutations (\<lambda>_ _. False) (vs_evaluator (ss_store (queued_session Map.empty))),
          runtime_actions = [RNone], gesture = False\<rparr>, s')"
proof -
  let ?s = "queued_session Map.empty"
  obtain r s' where r: "build_response (\<lambda>_ _. False) False ?s = (r, s')" by fastforce
  have q: "accumulated_actions (vs_evaluator (ss_store ?s)) = [RNetworkCall Get 4 None None 0 FJson []]"
    "url_registry ?s 4 = None" "\<not> defer_alias ?s"
    by (simp_all add: queued_session_def session_new_def)
  have "interner_get (vs_interner (ss_store ?s)) (show_nat 0) = None"
    by (simp add: queued_session_def flow_store_def flow_names_eval interner_get_def show_nat.simps [of 0] digit_char_def)
  from undeclared_alias_error_is_dropped [OF q this r] r show ?thesis by simp
qed

section \<open>A leftover parameter reaches navigate\<close>

text \<open>
  The document of the flow theory with a function \<^verbatim>\<open>echo(home: str, tag: bool) : home\<close>, a
  timer that evaluates \<^verbatim>\<open>echo(resp, resp)\<close>, a timer that navigates to \<^verbatim>\<open>home\<close>, and one that
  fetches into \<^verbatim>\<open>resp\<close>.
\<close>

definition echo_function :: mizu_function where
  "echo_function = \<lparr>fn_params = [(1, TStr), (3, TBool)], fn_body = var_tree 1\<rparr>"

definition leak_timers :: "root_timer list" where
  "leak_timers =
     [\<lparr>timer_interval = Millis 100, timer_action =
         AEval \<lparr>tree_arena = \<lparr>nodes = [EVariable 0, EFunctionCall 2 0 2], args_pool = [0, 0]\<rparr>, tree_root = 1\<rparr>\<rparr>,
      \<lparr>timer_interval = Millis 100, timer_action = ANavigate (var_tree 1)\<rparr>,
      \<lparr>timer_interval = Millis 100, timer_action = ANetworkCall Get 4 None None ''resp'' FJson []\<rparr>]"

definition leak_session :: "string \<Rightarrow> tab_session" where
  "leak_session answer =
     session_new\<lparr>ss_store := flow_store answer ''mizu://x'', logic_fns := [(2, echo_function)],
       root_timer_actions := map timer_action leak_timers\<rparr>"

lemma leak_accepted: "check_information_flow [] leak_timers [(2, echo_function)] flow_names [] = (Ok (1, 1, 0), [])"
  by (simp add: check_information_flow_def taint_analysis_def check_time_targets_def leak_timers_def echo_function_def
      flow_defs flow_names_eval interner_get_def build_flow_graph_def push_edges_def)

lemmas run_defs =
  execute_action_def run_tree_def evaluate_tree_def store_ctx_def root_expr_def arena_get_def arena_args_def
  index_or_panic_def evaluate_step enter_eval_def evaluate_impl_def eval_variable_def get_local_def get_global_def
  comput_defs reset_count_def evaluator_default_def evaluator_new_def u64_defs MAX_EVAL_DEPTH_def var_tree_def Let_def

definition leaked_evaluator :: "string \<Rightarrow> evaluator \<Rightarrow> bool" where
  "leaked_evaluator answer e \<longleftrightarrow>
     local_stack e = [VString answer] \<and> local_index e = [1 \<mapsto> [0]] \<and> eval_depth e = 0 \<and> max_instructions e = 20000
     \<and> accumulated_actions e = []"

lemma evaluate_fuel_variable:
  "evaluate_fuel (numeral k) ctx (EVariable y) fp ar = enter_eval (eval_variable ctx y fp)"
  by (simp add: numeral_eq_Suc evaluate_impl_def)

lemma leak_first:
  "\<exists>e s1. apply_event peq (UiRootTimer 0) (leak_session answer) = (Fail e, s1)
     \<and> leaked_evaluator answer (vs_evaluator (ss_store s1))
     \<and> s1\<lparr>ss_store := ss_store s1\<lparr>vs_evaluator := evaluator_default\<rparr>\<rparr>
       = (leak_session answer)\<lparr>ss_store := ss_store (leak_session answer)\<lparr>vs_evaluator := evaluator_default\<rparr>\<rparr>"
  by (simp add: apply_event_def leak_session_def leak_timers_def session_new_def flow_store_def on_store_def
      execute_action_and_build_def clear_undo_def run_defs eval_call_def call_function_def resolve_or_def resolve_def
      flow_names_eval echo_function_def check_type_def push_local_def leaked_evaluator_def rollback_def undo_globals_def
      evaluate_fuel_variable)

lemma leak_second:
  assumes "leaked_evaluator answer (vs_evaluator (ss_store s))" "root_timer_actions s = map timer_action leak_timers"
    and "computed_vars s = []"
  shows "\<exists>resp s2. apply_event peq (UiRootTimer 1) s = (Ok (Some resp), s2)
     \<and> runtime_actions resp = [RNavigate answer] \<and> \<not> gesture resp"
proof -
  let ?s1 = "s\<lparr>ss_store := snd (execute_action peq (map_of (logic_fns s)) (ANavigate (var_tree 1)) (clear_undo (ss_store s)))\<rparr>"
  have run: "execute_action peq fs (ANavigate (var_tree 1)) (clear_undo (ss_store s))
      = (Ok True, snd (execute_action peq fs (ANavigate (var_tree 1)) (clear_undo (ss_store s))))"
    "accumulated_actions (vs_evaluator (snd (execute_action peq fs (ANavigate (var_tree 1)) (clear_undo (ss_store s)))))
      = [RNavigate answer]" for fs
    using assms(1)
    by (simp_all add: leaked_evaluator_def clear_undo_def run_defs execute_navigate_def push_action_def)
  obtain resp s2 where r: "build_response peq False ?s1 = (Ok resp, s2)"
    using build_response_ok by blast
  then have "runtime_actions resp = [RNavigate answer]" "\<not> gesture resp"
    using run(2) by (auto simp: build_response_def Let_def resolve_one_action_def split: prod.splits)
  moreover have "on_store (execute_action peq (map_of (logic_fns s)) (ANavigate (var_tree 1)))
      (s\<lparr>ss_store := clear_undo (ss_store s)\<rparr>) = (Ok True, ?s1)"
    using run(1) [of "map_of (logic_fns s)"] by (auto simp: on_store_def split: prod.splits)
  then have "execute_action_and_build peq (ANavigate (var_tree 1)) False s = (Ok resp, s2)"
    using r assms(3) by (simp add: execute_action_and_build_def Let_def bindS_def recompute_after_mutation_def)
  ultimately show ?thesis
    using assms(2) by (simp add: apply_event_def leak_timers_def bindS_def getS_def okS_def)
qed

text \<open>
  The leftover of a failed call defeats the information-flow check at run time. The
  document above is accepted, with \<^verbatim>\<open>home\<close> untainted; yet after the first timer has failed,
  the second one navigates, without a gesture, to whatever string the network delivered.
\<close>

theorem leftover_parameter_defeats_flow_check:
  "check_information_flow [] leak_timers [(2, echo_function)] flow_names [] = (Ok (1, 1, 0), [])
   \<and> (\<exists>e s1 resp s2. apply_event peq (UiRootTimer 0) (leak_session answer) = (Fail e, s1)
        \<and> apply_event peq (UiRootTimer 1) s1 = (Ok (Some resp), s2)
        \<and> runtime_actions resp = [RNavigate answer] \<and> \<not> gesture resp)"
proof -
  obtain e s1 where s1: "apply_event peq (UiRootTimer 0) (leak_session answer) = (Fail e, s1)"
    "leaked_evaluator answer (vs_evaluator (ss_store s1))"
    "s1\<lparr>ss_store := ss_store s1\<lparr>vs_evaluator := evaluator_default\<rparr>\<rparr>
       = (leak_session answer)\<lparr>ss_store := ss_store (leak_session answer)\<lparr>vs_evaluator := evaluator_default\<rparr>\<rparr>"
    using leak_first by blast
  have "root_timer_actions s1 = map timer_action leak_timers" "computed_vars s1 = []"
    using arg_cong [OF s1(3), of root_timer_actions] arg_cong [OF s1(3), of computed_vars]
    by (simp_all add: leak_session_def session_new_def)
  from leak_second [OF s1(2) this] s1(1) leak_accepted show ?thesis by blast
qed

text \<open>
  Submitting a form writes each field to the variable of its name, which the flow analysis
  does not count as a source: in the accepted document of the flow theory, a field named
  \<^verbatim>\<open>home\<close> replaces the untainted variable by the user's input.
\<close>

theorem form_fields_bypass_sources:
  "taint_analysis (interner_get flow_names ''get_system_time'') flow_names [] flow_comps (collect_actions [] flow_timers)
     = Ok flow_result \<and> 1 \<notin> tainted_vars flow_result
   \<and> (\<exists>resp s'. apply_event (\<lambda>_ _. False) (UiSubmitForm 0 [(''home'', VString input)])
          (session_new\<lparr>ss_store := flow_store resp0 home0\<rparr>) = (Ok (Some resp), s')
        \<and> get_global (vs_evaluator (ss_store s')) 1 = VString input)"
proof -
  let ?s = "session_new\<lparr>ss_store := flow_store resp0 home0\<rparr>"
  have "\<exists>resp s'. apply_event (\<lambda>_ _. False) (UiSubmitForm 0 [(''home'', VString input)]) ?s = (Ok (Some resp), s')
      \<and> get_global (vs_evaluator (ss_store s')) 1 = VString input"
    by (simp add: apply_event_def submit_form_def Let_def session_new_def flow_store_def set_runtime_def flow_names_eval
        interner_get_def set_symbol_def set_global_def clear_undo_def comput_defs recompute_after_mutation_def
        build_response_def take_actions_def evaluator_default_def evaluator_new_def get_global_def)
  then show ?thesis using flow_analysis by (simp add: flow_result_def)
qed

end
