(* ===== verification/Mizu_Wire.thy ===== *)
theory Mizu_Wire
  imports Mizu_Session
begin

text \<open>
  The messages between the browser process and its sandboxed workers: the wire types of
  \<^verbatim>\<open>crates/ipc/src/wire\<close>, the conversion of documents, events and responses into them, and
  \<^verbatim>\<open>rehydrate.rs\<close>, which rebuilds the core types from bytes nobody vouches for. The
  archive format itself (\<^verbatim>\<open>rkyv\<close>) guarantees only that a message is a value of its wire
  type; the wire's \<^verbatim>\<open>i64\<close> are words here, so that this guarantee is that of the type, and
  its \<^verbatim>\<open>u32\<close> indices are numbers, as symbols and node ids are in the rest of the model.
\<close>

section \<open>Values\<close>

datatype wire_value =
    WNull
  | WBool bool
  | WInt "64 word"
  | WDecimal "64 word"
  | WStr string
  | WList "wire_value list"
  | WRecord "wire_record_field list"
  | WFileHandleToken nat string
and wire_record_field = WireRecordField (wf_key: string) (wf_hash: u32) (wf_value: wire_value)

fun wire_of_value :: "mval \<Rightarrow> wire_value" and wire_of_field :: "record_field \<Rightarrow> wire_record_field" where
  "wire_of_value VNull = WNull"
| "wire_of_value (VBool b) = WBool b"
| "wire_of_value (VInt n) = WInt (word_of_int n)"
| "wire_of_value (VDecimal n) = WDecimal (word_of_int n)"
| "wire_of_value (VString s) = WStr s"
| "wire_of_value (VList items) = WList (map wire_of_value items)"
| "wire_of_value (VRecord fs) = WRecord (map wire_of_field fs)"
| "wire_of_value (VFileHandle fh) = WFileHandleToken 0 (fh_filename fh)"
| "wire_of_field (RecordField key h v) = WireRecordField key h (wire_of_value v)"

text \<open>
  The conversion without checks, for values this process made: the token of a file becomes a
  handle with an empty path. Its allocation is new; \<open>arc\<close> gives it its identity.
\<close>

fun value_of_wire :: "nat \<Rightarrow> wire_value \<Rightarrow> mval" and field_of_wire :: "nat \<Rightarrow> wire_record_field \<Rightarrow> record_field" where
  "value_of_wire arc WNull = VNull"
| "value_of_wire arc (WBool b) = VBool b"
| "value_of_wire arc (WInt n) = VInt (sint n)"
| "value_of_wire arc (WDecimal n) = VDecimal (sint n)"
| "value_of_wire arc (WStr s) = VString s"
| "value_of_wire arc (WList items) = VList (map (value_of_wire arc) items)"
| "value_of_wire arc (WRecord fs) = VRecord (map (field_of_wire arc) fs)"
| "value_of_wire arc (WFileHandleToken tok filename) = VFileHandle \<lparr>fh_arc = arc, fh_path = [], fh_filename = filename\<rparr>"
| "field_of_wire arc (WireRecordField key h v) = RecordField key h (value_of_wire arc v)"

definition perr :: "string \<Rightarrow> 'a outcome" where
  "perr msg = Err (ParseError msg)"

definition MAX_VALUE_DEPTH :: nat where
  "MAX_VALUE_DEPTH = 128"

fun rehydrate_value :: "wire_value \<Rightarrow> nat \<Rightarrow> mval outcome"
  and rehydrate_items :: "wire_value list \<Rightarrow> nat \<Rightarrow> mval list outcome"
  and rehydrate_fields :: "wire_record_field list \<Rightarrow> nat \<Rightarrow> (string \<times> mval) list outcome" where
  "rehydrate_value v depth =
     (if depth > MAX_VALUE_DEPTH
      then perr (''value nested deeper than '' @ show_nat MAX_VALUE_DEPTH @ '' levels'')
      else case v of
        WNull \<Rightarrow> Ok VNull
      | WBool b \<Rightarrow> Ok (VBool b)
      | WInt n \<Rightarrow> Ok (VInt (sint n))
      | WDecimal n \<Rightarrow> Ok (VDecimal (sint n))
      | WStr s \<Rightarrow> Ok (VString s)
      | WList items \<Rightarrow> bindO (rehydrate_items items (depth + 1)) (\<lambda>out. Ok (VList out))
      | WRecord fs \<Rightarrow> bindO (rehydrate_fields fs (depth + 1)) (\<lambda>pairs. Ok (record_from_unsorted pairs))
      | WFileHandleToken _ _ \<Rightarrow> Ok VNull)"
| "rehydrate_items [] depth = Ok []"
| "rehydrate_items (item # items) depth =
     bindO (rehydrate_value item depth) (\<lambda>v. bindO (rehydrate_items items depth) (\<lambda>vs. Ok (v # vs)))"
| "rehydrate_fields [] depth = Ok []"
| "rehydrate_fields (WireRecordField key h w # fs) depth =
     bindO (rehydrate_value w depth) (\<lambda>v. bindO (rehydrate_fields fs depth) (\<lambda>ps. Ok ((key, v) # ps)))"

section \<open>Leaf types\<close>

datatype wire_binop = WAdd | WSub | WMul | WDiv | WEq | WNe | WLt | WGt | WLe | WGe | WAnd | WOr

fun wire_of_binop :: "binop \<Rightarrow> wire_binop" where
  "wire_of_binop Add = WAdd"
| "wire_of_binop Sub = WSub"
| "wire_of_binop Mul = WMul"
| "wire_of_binop Div = WDiv"
| "wire_of_binop Eq = WEq"
| "wire_of_binop Ne = WNe"
| "wire_of_binop Lt = WLt"
| "wire_of_binop Gt = WGt"
| "wire_of_binop Le = WLe"
| "wire_of_binop Ge = WGe"
| "wire_of_binop And = WAnd"
| "wire_of_binop Or = WOr"

fun rehydrate_binop :: "wire_binop \<Rightarrow> binop" where
  "rehydrate_binop WAdd = Add"
| "rehydrate_binop WSub = Sub"
| "rehydrate_binop WMul = Mul"
| "rehydrate_binop WDiv = Div"
| "rehydrate_binop WEq = Eq"
| "rehydrate_binop WNe = Ne"
| "rehydrate_binop WLt = Lt"
| "rehydrate_binop WGt = Gt"
| "rehydrate_binop WLe = Le"
| "rehydrate_binop WGe = Ge"
| "rehydrate_binop WAnd = And"
| "rehydrate_binop WOr = Or"

datatype wire_method = WGet | WPost | WPut | WDelete | WQuery

fun wire_of_method :: "network_method \<Rightarrow> wire_method" where
  "wire_of_method Get = WGet"
| "wire_of_method Post = WPost"
| "wire_of_method Put = WPut"
| "wire_of_method Delete = WDelete"
| "wire_of_method Query = WQuery"

fun rehydrate_method :: "wire_method \<Rightarrow> network_method" where
  "rehydrate_method WGet = Get"
| "rehydrate_method WPost = Post"
| "rehydrate_method WPut = Put"
| "rehydrate_method WDelete = Delete"
| "rehydrate_method WQuery = Query"

datatype wire_format = WJson | WForm | WText | WYaml | WMultipart

fun wire_of_format :: "payload_format \<Rightarrow> wire_format" where
  "wire_of_format FJson = WJson"
| "wire_of_format FForm = WForm"
| "wire_of_format FText = WText"
| "wire_of_format FYaml = WYaml"
| "wire_of_format FMultipart = WMultipart"

fun rehydrate_format :: "wire_format \<Rightarrow> payload_format" where
  "rehydrate_format WJson = FJson"
| "rehydrate_format WForm = FForm"
| "rehydrate_format WText = FText"
| "rehydrate_format WYaml = FYaml"
| "rehydrate_format WMultipart = FMultipart"

datatype wire_type =
    WTNum
  | WTStr
  | WTBool
  | WTList wire_type
  | WTRecord "string list" "wire_type list"
  | WTNullable wire_type

fun wire_of_type :: "value_type \<Rightarrow> wire_type" where
  "wire_of_type TNum = WTNum"
| "wire_of_type TStr = WTStr"
| "wire_of_type TBool = WTBool"
| "wire_of_type (TList inner) = WTList (wire_of_type inner)"
| "wire_of_type (TRecord fs) = WTRecord (map fst fs) (map (\<lambda>(n, t). wire_of_type t) fs)"
| "wire_of_type (TNullable inner) = WTNullable (wire_of_type inner)"

definition MAX_TYPE_DEPTH :: nat where
  "MAX_TYPE_DEPTH = 64"

fun rehydrate_value_type :: "wire_type \<Rightarrow> nat \<Rightarrow> value_type outcome"
  and rehydrate_type_fields :: "string list \<Rightarrow> wire_type list \<Rightarrow> nat \<Rightarrow> (string \<times> value_type) list outcome" where
  "rehydrate_value_type vt depth =
     (if depth > MAX_TYPE_DEPTH
      then perr (''type annotation nested deeper than '' @ show_nat MAX_TYPE_DEPTH @ '' levels'')
      else case vt of
        WTNum \<Rightarrow> Ok TNum
      | WTStr \<Rightarrow> Ok TStr
      | WTBool \<Rightarrow> Ok TBool
      | WTList inner \<Rightarrow> bindO (rehydrate_value_type inner (depth + 1)) (\<lambda>t. Ok (TList t))
      | WTNullable inner \<Rightarrow> bindO (rehydrate_value_type inner (depth + 1)) (\<lambda>t. Ok (TNullable t))
      | WTRecord field_names field_types \<Rightarrow>
          if length field_names \<noteq> length field_types
          then perr (''record type has '' @ show_nat (length field_names) @ '' field names but ''
                      @ show_nat (length field_types) @ '' field types'')
          else bindO (rehydrate_type_fields field_names field_types (depth + 1)) (\<lambda>fs. Ok (TRecord fs)))"
| "rehydrate_type_fields (n # ns) (ty # tys) depth =
     bindO (rehydrate_value_type ty depth) (\<lambda>t. bindO (rehydrate_type_fields ns tys depth) (\<lambda>fs. Ok ((n, t) # fs)))"
| "rehydrate_type_fields _ _ depth = Ok []"

declare rehydrate_value.simps [simp del] rehydrate_value_type.simps [simp del]

section \<open>Expressions\<close>

datatype wire_expr =
    WLiteral wire_value
  | WVariable nat
  | WBinaryOp nat wire_binop nat
  | WFunctionCall nat nat nat
  | WLet nat nat nat
  | WNot nat
  | WIfElse nat nat nat
  | WFieldAccess nat nat u32

record wire_expr_tree =
  wt_nodes :: "wire_expr list"
  wt_args_pool :: "nat list"
  wt_root :: nat

fun wire_of_expr :: "expr \<Rightarrow> wire_expr" where
  "wire_of_expr (ELiteral v) = WLiteral (wire_of_value v)"
| "wire_of_expr (EVariable y) = WVariable y"
| "wire_of_expr (EBinaryOp l op r) = WBinaryOp l (wire_of_binop op) r"
| "wire_of_expr (EFunctionCall name args_start args_len) = WFunctionCall name args_start args_len"
| "wire_of_expr (ELet name v body) = WLet name v body"
| "wire_of_expr (ENot inner) = WNot inner"
| "wire_of_expr (EIfElse c t e) = WIfElse c t e"
| "wire_of_expr (EFieldAccess base field h) = WFieldAccess base field h"

definition wire_of_tree :: "expr_tree \<Rightarrow> wire_expr_tree" where
  "wire_of_tree t =
     \<lparr>wt_nodes = map wire_of_expr (nodes (tree_arena t)), wt_args_pool = args_pool (tree_arena t), wt_root = tree_root t\<rparr>"

fun rehydrate_expr :: "wire_expr \<Rightarrow> expr outcome" where
  "rehydrate_expr (WLiteral v) = bindO (rehydrate_value v 0) (\<lambda>v. Ok (ELiteral v))"
| "rehydrate_expr (WVariable y) = Ok (EVariable y)"
| "rehydrate_expr (WNot inner) = Ok (ENot inner)"
| "rehydrate_expr (WBinaryOp l op r) = Ok (EBinaryOp l (rehydrate_binop op) r)"
| "rehydrate_expr (WFunctionCall name args_start args_len) = Ok (EFunctionCall name args_start args_len)"
| "rehydrate_expr (WLet name v body) = Ok (ELet name v body)"
| "rehydrate_expr (WIfElse c t e) = Ok (EIfElse c t e)"
| "rehydrate_expr (WFieldAccess base field h) = Ok (EFieldAccess base field h)"

definition MAX_ARENA_NODES :: nat where
  "MAX_ARENA_NODES = 2 ^ 20"

definition rehydrate_pool :: "nat list \<Rightarrow> expr_arena outcome" where
  "rehydrate_pool ids =
     (if ids = [] then Ok arena_new
      else case push_args arena_new ids of
        (Fail e, _) \<Rightarrow> Fail e
      | (Ok (start, len), ar) \<Rightarrow>
          if start \<noteq> 0 \<or> len \<noteq> length ids
          then perr ''argument pool did not round-trip contiguously from index 0''
          else Ok ar)"

fun rehydrate_nodes :: "nat \<Rightarrow> wire_expr list \<Rightarrow> expr_arena \<Rightarrow> expr_arena outcome" where
  "rehydrate_nodes i [] ar = Ok ar"
| "rehydrate_nodes i (node # rest) ar =
     bindO (rehydrate_expr node) (\<lambda>e.
       case alloc ar e of (nid, ar') \<Rightarrow>
         if nid \<noteq> i
         then perr (''arena allocation returned id '' @ show_nat nid @ '' for node '' @ show_nat i
                     @ ''; sequential allocation is required for index-based rehydration'')
         else rehydrate_nodes (Suc i) rest ar')"

definition rehydrate_expr_tree :: "wire_expr_tree \<Rightarrow> expr_tree outcome" where
  "rehydrate_expr_tree t =
     (if length (wt_nodes t) > MAX_ARENA_NODES
      then perr (''expression arena has '' @ show_nat (length (wt_nodes t)) @ '' nodes, exceeding the ''
                  @ show_nat MAX_ARENA_NODES @ '' limit'')
      else bindO (rehydrate_pool (wt_args_pool t)) (\<lambda>ar0.
        bindO (rehydrate_nodes 0 (wt_nodes t) ar0) (\<lambda>ar.
        bindO (validate_references ar) (\<lambda>_.
          let node_count = length (wt_nodes t) mod 2 ^ 32 in
          if wt_root t \<ge> node_count
          then perr (''expression tree root is node '' @ show_nat (wt_root t) @ '' but the arena holds only ''
                      @ show_nat node_count @ '' nodes'')
          else Ok \<lparr>tree_arena = ar, tree_root = wt_root t\<rparr>))))"

section \<open>Actions, functions and bindings\<close>

datatype wire_action =
    WEval wire_expr_tree
  | WAssign string wire_expr_tree
  | WNavigateTo wire_expr_tree
  | WNetworkCallTo wire_method nat "wire_expr_tree option" "wire_expr_tree option" string wire_format "string list"
      "wire_expr_tree list"

record wire_function =
  wfn_param_syms :: "nat list"
  wfn_param_types :: "wire_type list"
  wfn_body :: wire_expr_tree

record wire_binding =
  wcb_name_sym :: nat
  wcb_expr :: wire_expr_tree
  wcb_depends_on :: "nat list"
  wcb_tainted :: bool

datatype wire_endpoint_kind = WApi | WMedia

record wire_endpoint =
  wep_kind :: wire_endpoint_kind
  wep_raw_target :: string

fun wire_of_action :: "action \<Rightarrow> wire_action" where
  "wire_of_action (AEval t) = WEval (wire_of_tree t)"
| "wire_of_action (AAssign target e) = WAssign target (wire_of_tree e)"
| "wire_of_action (ANavigate url) = WNavigateTo (wire_of_tree url)"
| "wire_of_action (ANetworkCall m y payload path_param target_var fmt headers) =
     WNetworkCallTo (wire_of_method m) y (map_option wire_of_tree payload) (map_option wire_of_tree path_param) target_var
       (wire_of_format fmt) (map fst headers) (map (\<lambda>(_, e). wire_of_tree e) headers)"

definition wire_of_function :: "mizu_function \<Rightarrow> wire_function" where
  "wire_of_function f =
     \<lparr>wfn_param_syms = map fst (fn_params f), wfn_param_types = map (\<lambda>(_, t). wire_of_type t) (fn_params f),
      wfn_body = wire_of_tree (fn_body f)\<rparr>"

definition wire_of_binding :: "computed_binding \<Rightarrow> wire_binding" where
  "wire_of_binding cb =
     \<lparr>wcb_name_sym = cb_name cb, wcb_expr = wire_of_tree (cb_expr cb), wcb_depends_on = cb_depends_on cb,
      wcb_tainted = cb_tainted cb\<rparr>"

definition wire_of_endpoint :: "url_endpoint \<Rightarrow> wire_endpoint" where
  "wire_of_endpoint ep =
     \<lparr>wep_kind = (case ep_kind ep of Api \<Rightarrow> WApi | Media \<Rightarrow> WMedia), wep_raw_target = raw_target ep\<rparr>"

text \<open>Pairs and options, with the early return of an error.\<close>

definition pairO :: "('a \<Rightarrow> 'c outcome) \<Rightarrow> 'k \<times> 'a \<Rightarrow> ('k \<times> 'c) outcome" where
  "pairO f p = bindO (f (snd p)) (\<lambda>y. Ok (fst p, y))"

fun optO :: "('a \<Rightarrow> 'b outcome) \<Rightarrow> 'a option \<Rightarrow> 'b option outcome" where
  "optO f None = Ok None"
| "optO f (Some x) = bindO (f x) (\<lambda>y. Ok (Some y))"

fun rehydrate_action :: "wire_action \<Rightarrow> action outcome" where
  "rehydrate_action (WEval t) = bindO (rehydrate_expr_tree t) (\<lambda>t. Ok (AEval t))"
| "rehydrate_action (WAssign target e) = bindO (rehydrate_expr_tree e) (\<lambda>t. Ok (AAssign target t))"
| "rehydrate_action (WNavigateTo url) = bindO (rehydrate_expr_tree url) (\<lambda>t. Ok (ANavigate t))"
| "rehydrate_action (WNetworkCallTo m y payload path_param target_var fmt header_names header_exprs) =
     (if length header_names \<noteq> length header_exprs
      then perr (''network call has '' @ show_nat (length header_names) @ '' header names but ''
                  @ show_nat (length header_exprs) @ '' header expressions'')
      else bindO (mapO (pairO rehydrate_expr_tree) (zip header_names header_exprs)) (\<lambda>headers.
        bindO (optO rehydrate_expr_tree payload) (\<lambda>p.
        bindO (optO rehydrate_expr_tree path_param) (\<lambda>pp.
          Ok (ANetworkCall (rehydrate_method m) y p pp target_var (rehydrate_format fmt) headers)))))"

definition rehydrate_mizu_function :: "wire_function \<Rightarrow> mizu_function outcome" where
  "rehydrate_mizu_function f =
     (if length (wfn_param_syms f) \<noteq> length (wfn_param_types f)
      then perr (''function has '' @ show_nat (length (wfn_param_syms f)) @ '' parameter symbols but ''
                  @ show_nat (length (wfn_param_types f)) @ '' parameter types'')
      else bindO (mapO (pairO (\<lambda>ty. rehydrate_value_type ty 0)) (zip (wfn_param_syms f) (wfn_param_types f))) (\<lambda>params.
        bindO (rehydrate_expr_tree (wfn_body f)) (\<lambda>body. Ok \<lparr>fn_params = params, fn_body = body\<rparr>)))"

definition rehydrate_computed_binding :: "wire_binding \<Rightarrow> computed_binding outcome" where
  "rehydrate_computed_binding cb =
     bindO (rehydrate_expr_tree (wcb_expr cb)) (\<lambda>e.
       Ok \<lparr>cb_name = wcb_name_sym cb, cb_expr = e, cb_depends_on = wcb_depends_on cb, cb_tainted = wcb_tainted cb\<rparr>)"

definition rehydrate_endpoint :: "wire_endpoint \<Rightarrow> url_endpoint" where
  "rehydrate_endpoint ep =
     \<lparr>ep_kind = (case wep_kind ep of WApi \<Rightarrow> Api | WMedia \<Rightarrow> Media), raw_target = wep_raw_target ep\<rparr>"

section \<open>Documents\<close>

record wire_reload =
  w_logic_fn_keys :: "nat list"
  w_logic_fn_values :: "wire_function list"
  w_click_action_ids :: "nat list"
  w_click_actions :: "wire_action list"
  w_submit_action_ids :: "nat list"
  w_submit_actions :: "wire_action list"
  w_root_timer_actions :: "wire_action list"
  w_interner_strings :: "string list"
  w_init_var_keys :: "nat list"
  w_init_var_values :: "wire_value list"
  w_url_registry_keys :: "nat list"
  w_url_registry_values :: "wire_endpoint list"
  w_document_domain :: string
  w_computed_bindings :: "wire_binding list"

text \<open>
  A hash map is iterated in an order of its own: the conversion takes the entries in the order
  the iterator yields them.
\<close>

record map_orders =
  mo_click :: "(nat \<times> action) list"
  mo_submit :: "(nat \<times> action) list"
  mo_urls :: "(symbol \<times> url_endpoint) list"

definition iterates :: "('k \<times> 'v) list \<Rightarrow> ('k \<rightharpoonup> 'v) \<Rightarrow> bool" where
  "iterates es m \<longleftrightarrow> distinct (map fst es) \<and> map_of es = m"

definition wire_of_payload :: "map_orders \<Rightarrow> reload_payload \<Rightarrow> wire_reload" where
  "wire_of_payload mo p =
     \<lparr>w_logic_fn_keys = map fst (rp_logic_fns p),
      w_logic_fn_values = map (\<lambda>(_, f). wire_of_function f) (rp_logic_fns p),
      w_click_action_ids = map fst (mo_click mo),
      w_click_actions = map (\<lambda>(_, a). wire_of_action a) (mo_click mo),
      w_submit_action_ids = map fst (mo_submit mo),
      w_submit_actions = map (\<lambda>(_, a). wire_of_action a) (mo_submit mo),
      w_root_timer_actions = map wire_of_action (rp_root_timer_actions p),
      w_interner_strings = im_vec (rp_interner p),
      w_init_var_keys =
        map (\<lambda>(name, _). case interner_get (rp_interner p) name of Some y \<Rightarrow> y | None \<Rightarrow> 2 ^ 32 - 1) (rp_initial_variables p),
      w_init_var_values = map (\<lambda>(_, v). wire_of_value v) (rp_initial_variables p),
      w_url_registry_keys = map fst (mo_urls mo),
      w_url_registry_values = map (\<lambda>(_, ep). wire_of_endpoint ep) (mo_urls mo),
      w_document_domain = rp_document_domain p,
      w_computed_bindings = map wire_of_binding (rp_computed_bindings p)\<rparr>"

definition check_sym :: "nat \<Rightarrow> string \<Rightarrow> nat \<Rightarrow> symbol outcome" where
  "check_sym symbol_count what y =
     (if y \<ge> symbol_count
      then perr (what @ '' references symbol '' @ show_nat y @ '' but the interner holds only '' @ show_nat symbol_count
                  @ '' strings'')
      else Ok y)"

definition zip_len :: "nat \<Rightarrow> nat \<Rightarrow> string \<Rightarrow> unit outcome" where
  "zip_len a b what =
     (if a \<noteq> b
      then perr (what @ '': key/value vectors disagree ('' @ show_nat a @ '' keys, '' @ show_nat b @ '' values)'')
      else Ok ())"

fun index_entry :: "nat \<times> string \<Rightarrow> (string \<rightharpoonup> symbol) \<Rightarrow> (string \<rightharpoonup> symbol)" where
  "index_entry (i, s) m = m(s \<mapsto> i mod 2 ^ 32)"

definition rebuild_interner :: "string list \<Rightarrow> string_interner" where
  "rebuild_interner strings =
     \<lparr>im_map = fold index_entry (enumerate 0 strings) Map.empty, im_vec = strings\<rparr>"

text \<open>
  Insertion into a hash map: a later entry of the same key replaces the earlier one. The
  function table of a session is a list of its entries, so it is rebuilt as one.
\<close>

definition insert_entry :: "'k \<times> 'v \<Rightarrow> ('k \<times> 'v) list \<Rightarrow> ('k \<times> 'v) list" where
  "insert_entry e es = (if fst e \<in> fst ` set es then map (\<lambda>p. if fst p = fst e then e else p) es else es @ [e])"

definition rehydrate_reload_payload :: "wire_reload \<Rightarrow> reload_payload outcome" where
  "rehydrate_reload_payload p =
     (let symbol_count = length (w_interner_strings p) mod 2 ^ 32; interner = rebuild_interner (w_interner_strings p) in
      bindO (zip_len (length (w_logic_fn_keys p)) (length (w_logic_fn_values p)) ''logic functions'') (\<lambda>_.
      bindO (mapO (\<lambda>(k, v). bindO (check_sym symbol_count ''logic function'' k) (\<lambda>y. pairO rehydrate_mizu_function (y, v)))
               (zip (w_logic_fn_keys p) (w_logic_fn_values p))) (\<lambda>logic_fns.
      bindO (zip_len (length (w_click_action_ids p)) (length (w_click_actions p)) ''click actions'') (\<lambda>_.
      bindO (mapO (pairO rehydrate_action) (zip (w_click_action_ids p) (w_click_actions p))) (\<lambda>clicks.
      bindO (zip_len (length (w_submit_action_ids p)) (length (w_submit_actions p)) ''submit actions'') (\<lambda>_.
      bindO (mapO (pairO rehydrate_action) (zip (w_submit_action_ids p) (w_submit_actions p))) (\<lambda>submits.
      bindO (mapO rehydrate_action (w_root_timer_actions p)) (\<lambda>timers.
      bindO (zip_len (length (w_init_var_keys p)) (length (w_init_var_values p)) ''initial variables'') (\<lambda>_.
      bindO (mapO (\<lambda>(k, v).
                bindO (check_sym symbol_count ''initial variable'' k) (\<lambda>y.
                bindO (ok_or (resolve interner y) (ParseError ''initial variable symbol not resolvable'')) (\<lambda>name.
                  pairO (\<lambda>w. rehydrate_value w 0) (name, v))))
               (zip (w_init_var_keys p) (w_init_var_values p))) (\<lambda>vars.
      bindO (zip_len (length (w_url_registry_keys p)) (length (w_url_registry_values p)) ''url registry'') (\<lambda>_.
      bindO (mapO (\<lambda>(k, v). bindO (check_sym symbol_count ''url alias'' k) (\<lambda>y. Ok (y, rehydrate_endpoint v)))
               (zip (w_url_registry_keys p) (w_url_registry_values p))) (\<lambda>urls.
      bindO (mapO rehydrate_computed_binding (w_computed_bindings p)) (\<lambda>bindings.
        Ok \<lparr>rp_logic_fns = fold insert_entry logic_fns [], rp_click_actions = map_of (rev clicks),
            rp_submit_actions = map_of (rev submits), rp_root_timer_actions = timers, rp_interner = interner,
            rp_initial_variables = vars, rp_url_registry = map_of (rev urls),
            rp_document_domain = w_document_domain p, rp_computed_bindings = bindings\<rparr>)))))))))))))"

section \<open>Events\<close>

datatype wire_event =
    WClick nat
  | WRootTimer nat
  | WSubmitForm nat "string list" "wire_value list"
  | WUpdateVariable string wire_value
  | WReload wire_reload
  | WCloseTab

fun wire_of_event :: "map_orders \<Rightarrow> ui_event \<Rightarrow> wire_event" where
  "wire_of_event mo (UiClick node_id) = WClick node_id"
| "wire_of_event mo (UiRootTimer index) = WRootTimer index"
| "wire_of_event mo (UiSubmitForm submitter form_fields) =
     WSubmitForm submitter (map fst form_fields) (map (\<lambda>(_, v). wire_of_value v) form_fields)"
| "wire_of_event mo (UiUpdateVariable name v) = WUpdateVariable name (wire_of_value v)"
| "wire_of_event mo (UiReload payload) = WReload (wire_of_payload mo payload)"
| "wire_of_event mo UiCloseTab = WCloseTab"

fun rehydrate_ui_event :: "wire_event \<Rightarrow> ui_event outcome" where
  "rehydrate_ui_event (WClick node_id) = Ok (UiClick node_id)"
| "rehydrate_ui_event (WRootTimer index) = Ok (UiRootTimer index)"
| "rehydrate_ui_event WCloseTab = Ok UiCloseTab"
| "rehydrate_ui_event (WUpdateVariable name v) = bindO (rehydrate_value v 0) (\<lambda>v. Ok (UiUpdateVariable name v))"
| "rehydrate_ui_event (WSubmitForm submitter field_keys field_values) =
     (if length field_keys \<noteq> length field_values
      then perr (''submit form has '' @ show_nat (length field_keys) @ '' field names but ''
                  @ show_nat (length field_values) @ '' values'')
      else bindO (mapO (pairO (\<lambda>w. rehydrate_value w 0)) (zip field_keys field_values)) (\<lambda>form_fields.
        Ok (UiSubmitForm submitter (fold insert_entry form_fields []))))"
| "rehydrate_ui_event (WReload payload) = bindO (rehydrate_reload_payload payload) (\<lambda>p. Ok (UiReload p))"

section \<open>Responses\<close>

datatype wire_runtime_action =
    WRNone
  | WRNetworkCall wire_method nat "wire_value option" "string option" nat wire_format "string list" "wire_value list"
  | WRResolvedCall string string "wire_value option" nat wire_format "string list" "wire_value list"
  | WRStoreLocal string wire_value
  | WRCopyToClipboard string
  | WRGetSystemTime nat
  | WRNavigate string
  | WRDownloadMedia string
  | WRDownloadAlias nat

record wire_response =
  wr_mutated_syms :: "nat list"
  wr_mutated_values :: "wire_value list"
  wr_runtime_actions :: "wire_runtime_action list"
  wr_gesture :: bool

datatype wire_worker_error = WETimeout | WESecurityViolation string | WEExecutionError string | WEInternal string

datatype wire_envelope = EnvHello string | EnvOk wire_response | EnvErr wire_worker_error | EnvNoOp

fun wire_of_runtime_action :: "runtime_action \<Rightarrow> wire_runtime_action" where
  "wire_of_runtime_action RNone = WRNone"
| "wire_of_runtime_action (RNetworkCall m y payload path_param tv fmt headers) =
     WRNetworkCall (wire_of_method m) y (map_option wire_of_value payload) path_param tv (wire_of_format fmt)
       (map fst headers) (map (\<lambda>(_, v). wire_of_value v) headers)"
| "wire_of_runtime_action (RResolvedCall m url payload tv fmt headers) =
     WRResolvedCall m url (map_option wire_of_value payload) tv (wire_of_format fmt)
       (map fst headers) (map (\<lambda>(_, v). wire_of_value v) headers)"
| "wire_of_runtime_action (RStoreLocal key v) = WRStoreLocal key (wire_of_value v)"
| "wire_of_runtime_action (RCopyToClipboard node_id) = WRCopyToClipboard node_id"
| "wire_of_runtime_action (RGetSystemTime tv) = WRGetSystemTime tv"
| "wire_of_runtime_action (RNavigate url) = WRNavigate url"
| "wire_of_runtime_action (RDownloadMedia url) = WRDownloadMedia url"
| "wire_of_runtime_action (RDownloadAlias y) = WRDownloadAlias y"

definition wire_of_response :: "worker_response \<Rightarrow> wire_response" where
  "wire_of_response r =
     \<lparr>wr_mutated_syms = map fst (mutated_variables r),
      wr_mutated_values = map (\<lambda>(_, v). wire_of_value v) (mutated_variables r),
      wr_runtime_actions = map wire_of_runtime_action (runtime_actions r), wr_gesture = gesture r\<rparr>"

fun wire_of_error :: "mizu_error \<Rightarrow> wire_worker_error" where
  "wire_of_error Timeout = WETimeout"
| "wire_of_error (SecurityViolation msg) = WESecurityViolation msg"
| "wire_of_error (ExecutionError msg) = WEExecutionError msg"
| "wire_of_error other = WEInternal (display_error other)"

definition rehydrate_headers :: "string list \<Rightarrow> wire_value list \<Rightarrow> (string \<times> mval) list outcome" where
  "rehydrate_headers names vals =
     (if length names \<noteq> length vals
      then perr (''action has '' @ show_nat (length names) @ '' header names but '' @ show_nat (length vals) @ '' header values'')
      else mapO (pairO (\<lambda>w. rehydrate_value w 0)) (zip names vals))"

fun rehydrate_runtime_action :: "wire_runtime_action \<Rightarrow> runtime_action outcome" where
  "rehydrate_runtime_action WRNone = Ok RNone"
| "rehydrate_runtime_action (WRNavigate url) = Ok (RNavigate url)"
| "rehydrate_runtime_action (WRDownloadMedia url) = Ok (RDownloadMedia url)"
| "rehydrate_runtime_action (WRDownloadAlias y) = Ok (RDownloadAlias y)"
| "rehydrate_runtime_action (WRCopyToClipboard node_id) = Ok (RCopyToClipboard node_id)"
| "rehydrate_runtime_action (WRGetSystemTime tv) = Ok (RGetSystemTime tv)"
| "rehydrate_runtime_action (WRStoreLocal key w) = bindO (rehydrate_value w 0) (\<lambda>v. Ok (RStoreLocal key v))"
| "rehydrate_runtime_action (WRNetworkCall m y payload path_param tv fmt ks vs) =
     bindO (optO (\<lambda>w. rehydrate_value w 0) payload) (\<lambda>p.
     bindO (rehydrate_headers ks vs) (\<lambda>headers.
       Ok (RNetworkCall (rehydrate_method m) y p path_param tv (rehydrate_format fmt) headers)))"
| "rehydrate_runtime_action (WRResolvedCall m url payload tv fmt ks vs) =
     bindO (optO (\<lambda>w. rehydrate_value w 0) payload) (\<lambda>p.
     bindO (rehydrate_headers ks vs) (\<lambda>headers.
       Ok (RResolvedCall m url p tv (rehydrate_format fmt) headers)))"

definition rehydrate_worker_response :: "wire_response \<Rightarrow> worker_response outcome" where
  "rehydrate_worker_response r =
     (if length (wr_mutated_syms r) \<noteq> length (wr_mutated_values r)
      then perr (''worker response has '' @ show_nat (length (wr_mutated_syms r)) @ '' mutated symbols but ''
                  @ show_nat (length (wr_mutated_values r)) @ '' values'')
      else bindO (mapO (pairO (\<lambda>w. rehydrate_value w 0)) (zip (wr_mutated_syms r) (wr_mutated_values r))) (\<lambda>mutated.
        bindO (mapO rehydrate_runtime_action (wr_runtime_actions r)) (\<lambda>acts.
          Ok \<lparr>mutated_variables = mutated, runtime_actions = acts, gesture = wr_gesture r\<rparr>)))"

section \<open>What rehydration guarantees\<close>

lemma perr_not_Ok [simp]: "perr msg \<noteq> Ok x"
  by (simp add: perr_def)

lemma mapO_set: "mapO f xs = Ok ys \<Longrightarrow> y \<in> set ys \<Longrightarrow> \<exists>x \<in> set xs. f x = Ok y"
  by (induction xs arbitrary: ys) (auto simp: bindO_Ok)

lemma mapO_all: "mapO f xs = Ok ys \<Longrightarrow> (\<And>x y. f x = Ok y \<Longrightarrow> P y) \<Longrightarrow> list_all P ys"
  by (auto simp: list_all_iff dest: mapO_set)

lemma pairO_Ok: "pairO f p = Ok q \<longleftrightarrow> fst q = fst p \<and> f (snd p) = Ok (snd q)"
  by (cases q) (auto simp: pairO_def bindO_Ok)

lemma optO_Ok: "optO f x = Ok y \<Longrightarrow> (\<And>a b. f a = Ok b \<Longrightarrow> P b) \<Longrightarrow> pred_option P y"
  by (cases x) (auto simp: bindO_Ok)

lemma sint_i64 [simp]: "in_i64 (sint (n :: 64 word))"
  using sint_ge [of n] sint_lt [of n] by (simp add: i64_defs)

lemma value_ok_pairs: "list_all (\<lambda>p. value_ok (snd p)) ps \<Longrightarrow> value_ok (record_from_unsorted ps)"
  by (rule value_ok_record) (auto simp: list_all_iff)

lemma rehydrate_value_ok:
  "rehydrate_value w d = Ok v \<Longrightarrow> value_ok v"
  "rehydrate_items ws d = Ok vs \<Longrightarrow> list_all value_ok vs"
  "rehydrate_fields fs d = Ok ps \<Longrightarrow> list_all (\<lambda>p. value_ok (snd p)) ps"
proof (induction w d and ws d and fs d arbitrary: v and vs and ps
    rule: rehydrate_value_rehydrate_items_rehydrate_fields.induct)
  case (1 w d)
  then show ?case
    by (auto simp: rehydrate_value.simps [of w d] bindO_Ok split: if_splits wire_value.splits intro!: value_ok_pairs)
qed (auto simp: bindO_Ok)

lemma rehydrate_pool_Ok: "rehydrate_pool ids = Ok ar \<Longrightarrow> nodes ar = [] \<and> args_pool ar = ids"
  by (auto simp: rehydrate_pool_def push_args_def arena_new_def perr_def split: if_splits)

lemma rehydrate_expr_lit: "rehydrate_expr w = Ok e \<Longrightarrow> lit_ok e"
  by (cases w) (auto simp: bindO_Ok dest: rehydrate_value_ok)

lemma rehydrate_nodes_Cons:
  assumes "rehydrate_nodes i (w # ws) ar = Ok ar'"
  obtains e where "rehydrate_expr w = Ok e" "rehydrate_nodes (Suc i) ws (ar\<lparr>nodes := nodes ar @ [e]\<rparr>) = Ok ar'"
  using assms by (auto simp: bindO_Ok alloc_def split: if_splits)

lemma rehydrate_nodes_Ok:
  assumes "rehydrate_nodes i ws ar = Ok ar'"
  shows "length (nodes ar') = length (nodes ar) + length ws" "args_pool ar' = args_pool ar"
    "list_all lit_ok (nodes ar) \<Longrightarrow> list_all lit_ok (nodes ar')"
  using assms
proof (induction ws arbitrary: i ar)
  case (Cons w ws)
  {
    case 1
    from 1 obtain e where "rehydrate_nodes (Suc i) ws (ar\<lparr>nodes := nodes ar @ [e]\<rparr>) = Ok ar'" by (rule rehydrate_nodes_Cons)
    from Cons.IH(1) [OF this] show ?case by simp
  next
    case 2
    from 2 obtain e where "rehydrate_nodes (Suc i) ws (ar\<lparr>nodes := nodes ar @ [e]\<rparr>) = Ok ar'" by (rule rehydrate_nodes_Cons)
    from Cons.IH(2) [OF this] show ?case by simp
  next
    case 3
    from 3(2) obtain e where "rehydrate_expr w = Ok e" "rehydrate_nodes (Suc i) ws (ar\<lparr>nodes := nodes ar @ [e]\<rparr>) = Ok ar'"
      by (rule rehydrate_nodes_Cons)
    from Cons.IH(3) [OF _ this(2)] this(1) 3(1) show ?case by (simp add: rehydrate_expr_lit)
  }
qed simp_all

lemma rehydrate_tree_wf:
  assumes "rehydrate_expr_tree w = Ok t"
  shows "tree_wf t"
proof -
  obtain ar0 ar where ar: "rehydrate_pool (wt_args_pool w) = Ok ar0" "rehydrate_nodes 0 (wt_nodes w) ar0 = Ok ar"
      "validate_references ar = Ok ()" "wt_root w < length (wt_nodes w) mod 2 ^ 32"
      "t = \<lparr>tree_arena = ar, tree_root = wt_root w\<rparr>"
    using assms by (auto simp: rehydrate_expr_tree_def bindO_Ok Let_def not_le split: if_splits)
  note n = rehydrate_pool_Ok [OF ar(1)] rehydrate_nodes_Ok [OF ar(2)]
  have "length (wt_nodes w) mod 2 ^ 32 \<le> length (wt_nodes w)" by simp
  with ar(4) n have "wt_root w < length (nodes ar)" by simp
  then show ?thesis
    using n validate_references_ok [OF ar(3)] ar(5) by (simp add: tree_wf_def arena_wf_def)
qed

lemma rehydrate_action_wf:
  assumes "rehydrate_action w = Ok a"
  shows "action_wf a"
proof (cases w)
  case (WNetworkCallTo m y p pp tv fmt ns es)
  then obtain hs p' pp' where hs: "mapO (pairO rehydrate_expr_tree) (zip ns es) = Ok hs"
    and p: "optO rehydrate_expr_tree p = Ok p'" "optO rehydrate_expr_tree pp = Ok pp'"
    and a: "a = ANetworkCall (rehydrate_method m) y p' pp' tv (rehydrate_format fmt) hs"
    using assms by (auto simp: bindO_Ok split: if_splits)
  have "list_all (\<lambda>h. tree_wf (snd h)) hs"
    by (rule mapO_all [OF hs]) (auto simp: pairO_Ok rehydrate_tree_wf)
  with a p [THEN optO_Ok, OF rehydrate_tree_wf] show ?thesis by simp
qed (use assms in \<open>auto simp: bindO_Ok rehydrate_tree_wf\<close>)

lemma insert_entry_all: "list_all P es \<Longrightarrow> P e \<Longrightarrow> list_all P (insert_entry e es)"
  by (auto simp: insert_entry_def list_all_iff)

lemma insert_entries_all: "list_all P new \<Longrightarrow> list_all P es \<Longrightarrow> list_all P (fold insert_entry new es)"
  by (induction new arbitrary: es) (auto simp: insert_entry_all)

text \<open>What a document needs beyond well-formed trees and values: an order of its bindings.\<close>

definition bindings_ordered :: "computed_binding list \<Rightarrow> bool" where
  "bindings_ordered bs \<longleftrightarrow> distinct (map cb_name bs) \<and> topo_sorted bs"

fun event_ordered :: "ui_event \<Rightarrow> bool" where
  "event_ordered (UiReload p) = bindings_ordered (rp_computed_bindings p)"
| "event_ordered _ = True"

lemma map_of_rev_all: "list_all (\<lambda>p. P (snd p)) es \<Longrightarrow> map_of (rev es) k = Some v \<Longrightarrow> P v"
  by (fastforce simp: list_all_iff dest: map_of_SomeD)

lemma rehydrate_function_wf: "rehydrate_mizu_function w = Ok f \<Longrightarrow> tree_wf (fn_body f)"
  by (auto simp: rehydrate_mizu_function_def bindO_Ok rehydrate_tree_wf split: if_splits)

lemma rehydrate_binding_wf: "rehydrate_computed_binding w = Ok cb \<Longrightarrow> tree_wf (cb_expr cb)"
  by (auto simp: rehydrate_computed_binding_def bindO_Ok rehydrate_tree_wf)

lemma rehydrate_payload_wf:
  assumes "rehydrate_reload_payload w = Ok p" "bindings_ordered (rp_computed_bindings p)"
  shows "payload_wf p"
proof -
  obtain fs clicks submits timers vars binds where
    fs: "mapO (\<lambda>(k, v). bindO (check_sym (length (w_interner_strings w) mod 2 ^ 32) ''logic function'' k)
           (\<lambda>y. pairO rehydrate_mizu_function (y, v))) (zip (w_logic_fn_keys w) (w_logic_fn_values w)) = Ok fs"
    and clicks: "mapO (pairO rehydrate_action) (zip (w_click_action_ids w) (w_click_actions w)) = Ok clicks"
    and submits: "mapO (pairO rehydrate_action) (zip (w_submit_action_ids w) (w_submit_actions w)) = Ok submits"
    and timers: "mapO rehydrate_action (w_root_timer_actions w) = Ok timers"
    and vars: "mapO (\<lambda>(k, v). bindO (check_sym (length (w_interner_strings w) mod 2 ^ 32) ''initial variable'' k) (\<lambda>y.
                bindO (ok_or (resolve (rebuild_interner (w_interner_strings w)) y)
                  (ParseError ''initial variable symbol not resolvable'')) (\<lambda>name. pairO (\<lambda>w. rehydrate_value w 0) (name, v))))
               (zip (w_init_var_keys w) (w_init_var_values w)) = Ok vars"
    and binds: "mapO rehydrate_computed_binding (w_computed_bindings w) = Ok binds"
    and p: "rp_logic_fns p = fold insert_entry fs []" "rp_click_actions p = map_of (rev clicks)"
      "rp_submit_actions p = map_of (rev submits)" "rp_root_timer_actions p = timers" "rp_initial_variables p = vars"
      "rp_computed_bindings p = binds"
    using assms(1) unfolding rehydrate_reload_payload_def Let_def bindO_Ok by auto
  have "list_all (\<lambda>f. tree_wf (fn_body (snd f))) fs"
    by (rule mapO_all [OF fs]) (auto simp: bindO_Ok pairO_Ok rehydrate_function_wf)
  moreover have "list_all (\<lambda>c. action_wf (snd c)) clicks" "list_all (\<lambda>c. action_wf (snd c)) submits"
    by (rule mapO_all [OF clicks] mapO_all [OF submits]; auto simp: pairO_Ok rehydrate_action_wf)+
  moreover have "list_all action_wf timers" by (rule mapO_all [OF timers]) (rule rehydrate_action_wf)
  moreover have "list_all (\<lambda>v. value_ok (snd v)) vars"
    by (rule mapO_all [OF vars]) (auto simp: bindO_Ok pairO_Ok rehydrate_value_ok)
  moreover have "list_all (\<lambda>cb. tree_wf (cb_expr cb)) binds" by (rule mapO_all [OF binds]) (rule rehydrate_binding_wf)
  ultimately show ?thesis
    using p assms(2)
    by (auto simp: payload_wf_def bindings_wf_def bindings_ordered_def intro!: insert_entries_all dest: map_of_rev_all)
qed

lemma rehydrate_event_wf:
  assumes "rehydrate_ui_event w = Ok ev" "event_ordered ev"
  shows "event_wf ev"
proof (cases w)
  case (WSubmitForm n ks vs)
  then obtain fs where fs: "mapO (pairO (\<lambda>w. rehydrate_value w 0)) (zip ks vs) = Ok fs"
    and ev: "ev = UiSubmitForm n (fold insert_entry fs [])"
    using assms(1) by (auto simp: bindO_Ok split: if_splits)
  have "list_all (\<lambda>f. value_ok (snd f)) fs"
    by (rule mapO_all [OF fs]) (auto simp: pairO_Ok rehydrate_value_ok)
  then show ?thesis using ev by (simp add: insert_entries_all)
qed (use assms in \<open>auto simp: bindO_Ok rehydrate_value_ok rehydrate_payload_wf\<close>)

end
