(* ===== verification/Mizu_Roundtrip.thy ===== *)
theory Mizu_Roundtrip
  imports Mizu_Wire
begin

text \<open>
  What the wire keeps: a value, an event or a response that stays within the limits the
  receiver enforces arrives as it was sent, whatever arrives is well formed, and the path of a
  file never leaves the process that opened it. The limits are the predicates \<open>travels\<close>,
  \<open>type_travels\<close>, \<open>tree_travels\<close> and \<open>event_travels\<close>.
\<close>

section \<open>Values\<close>

fun travels :: "nat \<Rightarrow> mval \<Rightarrow> bool" and field_travels :: "nat \<Rightarrow> record_field \<Rightarrow> bool" where
  "travels d (VList items) \<longleftrightarrow> d \<le> MAX_VALUE_DEPTH \<and> list_all (travels (Suc d)) items"
| "travels d (VRecord fs) \<longleftrightarrow> d \<le> MAX_VALUE_DEPTH \<and> list_all (field_travels (Suc d)) fs"
| "travels d (VFileHandle fh) \<longleftrightarrow> False"
| "travels d VNull \<longleftrightarrow> d \<le> MAX_VALUE_DEPTH"
| "travels d (VBool b) \<longleftrightarrow> d \<le> MAX_VALUE_DEPTH"
| "travels d (VInt n) \<longleftrightarrow> d \<le> MAX_VALUE_DEPTH"
| "travels d (VDecimal n) \<longleftrightarrow> d \<le> MAX_VALUE_DEPTH"
| "travels d (VString s) \<longleftrightarrow> d \<le> MAX_VALUE_DEPTH"
| "field_travels d (RecordField key h v) \<longleftrightarrow> travels d v"

lemma dedup_strict: "sorted_wrt (<) (map rf_key fs) \<Longrightarrow> dedup_by_key fs = fs"
  by (induction fs rule: dedup_by_key.induct) auto

lemma sort_strict: "sorted_wrt (<) (map rf_key fs) \<Longrightarrow> sort_key rf_key fs = fs"
  by (rule sort_key_id_if_sorted) (simp add: strict_sorted_imp_sorted)

lemma record_rebuilt:
  assumes "value_ok (VRecord fs)"
  shows "record_from_unsorted (map (\<lambda>f. (rf_key f, rf_value f)) fs) = VRecord fs"
proof -
  have "map (\<lambda>(key, v). RecordField key (hash_field key) v) (map (\<lambda>f. (rf_key f, rf_value f)) fs) = fs"
    using assms by (auto simp: list_all_iff field_ok_sel intro!: map_idI record_field.expand)
  with assms show ?thesis
    by (simp add: record_from_unsorted_def Let_def sort_strict dedup_strict del: map_map)
qed

lemma sint_of_i64: "in_i64 i \<Longrightarrow> sint (word_of_int i :: 64 word) = i"
  by (simp add: signed_of_int signed_take_bit_int_eq_self i64_defs)

lemma rehydrate_items_map:
  "(\<And>v. v \<in> set vs \<Longrightarrow> rehydrate_value (g v) d = Ok v) \<Longrightarrow> rehydrate_items (map g vs) d = Ok vs"
  by (induction vs) auto

lemma rehydrate_fields_map:
  "(\<And>f. f \<in> set fs \<Longrightarrow> rehydrate_value (wire_of_value (rf_value f)) d = Ok (rf_value f)) \<Longrightarrow>
     rehydrate_fields (map wire_of_field fs) d = Ok (map (\<lambda>f. (rf_key f, rf_value f)) fs)"
proof (induction fs)
  case (Cons f fs)
  from Cons.prems [of f] Cons show ?case by (cases f) auto
qed simp

lemma value_roundtrip:
  "value_ok v \<Longrightarrow> travels d v \<Longrightarrow> rehydrate_value (wire_of_value v) d = Ok v"
  "field_ok f \<Longrightarrow> field_travels d f \<Longrightarrow> rehydrate_value (wire_of_value (rf_value f)) d = Ok (rf_value f)"
proof (induction v and f arbitrary: d and d)
  case (VRecord fs)
  then have "rehydrate_fields (map wire_of_field fs) (Suc d) = Ok (map (\<lambda>f. (rf_key f, rf_value f)) fs)"
    by (intro rehydrate_fields_map) (auto simp: list_all_iff)
  with VRecord show ?case by (simp add: rehydrate_value.simps record_rebuilt del: value_ok.simps)
next
  case (VList items)
  then have "rehydrate_items (map wire_of_value items) (Suc d) = Ok items"
    by (intro rehydrate_items_map) (auto simp: list_all_iff)
  with VList show ?case by (simp add: rehydrate_value.simps)
qed (auto simp: rehydrate_value.simps sint_of_i64)

section \<open>Types and expressions\<close>

fun type_travels :: "nat \<Rightarrow> value_type \<Rightarrow> bool" where
  "type_travels d TNum \<longleftrightarrow> d \<le> MAX_TYPE_DEPTH"
| "type_travels d TStr \<longleftrightarrow> d \<le> MAX_TYPE_DEPTH"
| "type_travels d TBool \<longleftrightarrow> d \<le> MAX_TYPE_DEPTH"
| "type_travels d (TList t) \<longleftrightarrow> d \<le> MAX_TYPE_DEPTH \<and> type_travels (Suc d) t"
| "type_travels d (TNullable t) \<longleftrightarrow> d \<le> MAX_TYPE_DEPTH \<and> type_travels (Suc d) t"
| "type_travels d (TRecord fs) \<longleftrightarrow> d \<le> MAX_TYPE_DEPTH \<and> list_all (\<lambda>(n, t). type_travels (Suc d) t) fs"

lemma rehydrate_type_fields_map:
  "(\<And>f. f \<in> set fs \<Longrightarrow> rehydrate_value_type (g (snd f)) d = Ok (snd f)) \<Longrightarrow>
     rehydrate_type_fields (map fst fs) (map (\<lambda>(n, t). g t) fs) d = Ok fs"
proof (induction fs)
  case (Cons f fs)
  from Cons.prems [of f] Cons show ?case by (cases f) auto
qed simp

lemma type_roundtrip: "type_travels d t \<Longrightarrow> rehydrate_value_type (wire_of_type t) d = Ok t"
proof (induction t arbitrary: d)
  case (TRecord fs)
  then have "rehydrate_type_fields (map fst fs) (map (\<lambda>(n, t). wire_of_type t) fs) (Suc d) = Ok fs"
    by (intro rehydrate_type_fields_map) (fastforce simp: list_all_iff)
  with TRecord show ?case by (simp add: rehydrate_value_type.simps)
qed (simp_all add: rehydrate_value_type.simps)

lemma binop_roundtrip [simp]: "rehydrate_binop (wire_of_binop op) = op"
  by (cases op) simp_all

lemma method_roundtrip [simp]: "rehydrate_method (wire_of_method m) = m"
  by (cases m) simp_all

lemma format_roundtrip [simp]: "rehydrate_format (wire_of_format f) = f"
  by (cases f) simp_all

lemma endpoint_roundtrip [simp]: "rehydrate_endpoint (wire_of_endpoint ep) = ep"
  by (cases "ep_kind ep") (simp_all add: rehydrate_endpoint_def wire_of_endpoint_def)

fun lit_travels :: "expr \<Rightarrow> bool" where
  "lit_travels (ELiteral v) \<longleftrightarrow> travels 0 v"
| "lit_travels _ \<longleftrightarrow> True"

definition tree_travels :: "expr_tree \<Rightarrow> bool" where
  "tree_travels t \<longleftrightarrow> tree_wf t \<and> list_all lit_travels (nodes (tree_arena t))
     \<and> length (nodes (tree_arena t)) \<le> MAX_ARENA_NODES \<and> length (args_pool (tree_arena t)) < 2 ^ 32"

lemma expr_roundtrip: "lit_ok e \<Longrightarrow> lit_travels e \<Longrightarrow> rehydrate_expr (wire_of_expr e) = Ok e"
  by (cases e) (auto simp: value_roundtrip)

lemma nodes_roundtrip:
  assumes "list_all (\<lambda>e. rehydrate_expr (wire_of_expr e) = Ok e) es" "length (nodes ar) + length es \<le> 2 ^ 32"
  shows "rehydrate_nodes (length (nodes ar)) (map wire_of_expr es) ar = Ok (ar\<lparr>nodes := nodes ar @ es\<rparr>)"
  using assms
proof (induction es arbitrary: ar)
  case (Cons e es)
  from Cons.IH [of "ar\<lparr>nodes := nodes ar @ [e]\<rparr>"] Cons.prems show ?case by (simp add: alloc_def)
qed simp

lemma validate_arena_ok:
  "arena_ok ar \<Longrightarrow> length (nodes ar) < 2 ^ 32 \<Longrightarrow> length (args_pool ar) < 2 ^ 32 \<Longrightarrow> validate_references ar = Ok ()"
  by (simp add: validate_references_def Let_def bindO_Ok check_nodes_Ok check_pool_Ok arena_ok_def node_ok_def [abs_def])

lemma tree_roundtrip:
  assumes "tree_travels t"
  shows "rehydrate_expr_tree (wire_of_tree t) = Ok t"
proof -
  let ?ar = "tree_arena t"
  have small: "length (nodes ?ar) < 2 ^ 32" "length (args_pool ?ar) < 2 ^ 32"
    using assms by (simp_all add: tree_travels_def MAX_ARENA_NODES_def)
  have pool: "rehydrate_pool (args_pool ?ar) = Ok \<lparr>nodes = [], args_pool = args_pool ?ar\<rparr>"
    using small by (simp add: rehydrate_pool_def push_args_def arena_new_def)
  have lits: "list_all (\<lambda>e. rehydrate_expr (wire_of_expr e) = Ok e) (nodes ?ar)"
    using assms by (auto simp: tree_travels_def tree_wf_def arena_wf_def list_all_iff expr_roundtrip)
  have nodes: "rehydrate_nodes 0 (map wire_of_expr (nodes ?ar)) \<lparr>nodes = [], args_pool = args_pool ?ar\<rparr> = Ok ?ar"
    using nodes_roundtrip [OF lits, of "\<lparr>nodes = [], args_pool = args_pool ?ar\<rparr>"] small by simp
  have "validate_references ?ar = Ok ()" "tree_root t < length (nodes ?ar)"
    using assms small by (simp_all add: tree_travels_def tree_wf_def arena_wf_def validate_arena_ok)
  then show ?thesis
    using assms pool nodes small by (simp add: rehydrate_expr_tree_def wire_of_tree_def tree_travels_def Let_def)
qed

section \<open>Vectors\<close>

lemma mapO_map: "(\<And>x. x \<in> set xs \<Longrightarrow> f (g x) = Ok x) \<Longrightarrow> mapO f (map g xs) = Ok xs"
  by (induction xs) auto

text \<open>Two parallel vectors made from one list of pairs.\<close>

lemma zip_pairs: "zip (map fst ps) (map (\<lambda>(_, v). g v) ps) = map (\<lambda>(k, v). (k, g v)) ps"
  by (induction ps) auto

lemma mapO_zip:
  "(\<And>k v. (k, v) \<in> set ps \<Longrightarrow> f (k, g v) = Ok (k, v)) \<Longrightarrow> mapO f (zip (map fst ps) (map (\<lambda>(_, v). g v) ps)) = Ok ps"
  unfolding zip_pairs by (rule mapO_map) auto

lemma pairO_zip:
  "(\<And>k v. (k, v) \<in> set ps \<Longrightarrow> f (g v) = Ok v) \<Longrightarrow> mapO (pairO f) (zip (map fst ps) (map (\<lambda>(_, v). g v) ps)) = Ok ps"
  by (rule mapO_zip) (simp add: pairO_Ok)

lemma optO_map: "pred_option P x \<Longrightarrow> (\<And>a. P a \<Longrightarrow> f (g a) = Ok a) \<Longrightarrow> optO f (map_option g x) = Ok x"
  by (cases x) auto

lemma insert_entries_distinct: "distinct (map fst (es @ new)) \<Longrightarrow> fold insert_entry new es = es @ new"
proof (induction new arbitrary: es)
  case (Cons e new)
  from Cons.IH [of "es @ [e]"] Cons.prems show ?case by (auto simp: insert_entry_def)
qed simp

lemma map_of_rev_distinct: "distinct (map fst es) \<Longrightarrow> map_of (rev es) = map_of es"
  by (rule map_of_eqI) (auto simp: rev_map [symmetric])

section \<open>Documents and events\<close>

fun action_travels :: "action \<Rightarrow> bool" where
  "action_travels (AEval t) = tree_travels t"
| "action_travels (AAssign _ t) = tree_travels t"
| "action_travels (ANavigate t) = tree_travels t"
| "action_travels (ANetworkCall _ _ p pp _ _ hs) =
     (pred_option tree_travels p \<and> pred_option tree_travels pp \<and> list_all (\<lambda>h. tree_travels (snd h)) hs)"

definition function_travels :: "mizu_function \<Rightarrow> bool" where
  "function_travels f \<longleftrightarrow> tree_travels (fn_body f) \<and> list_all (\<lambda>p. type_travels 0 (snd p)) (fn_params f)"

definition value_travels :: "mval \<Rightarrow> bool" where
  "value_travels v \<longleftrightarrow> value_ok v \<and> travels 0 v"

definition payload_travels :: "reload_payload \<Rightarrow> bool" where
  "payload_travels p \<longleftrightarrow>
     interner_ok (rp_interner p) \<and> interner_room (rp_interner p)
     \<and> distinct (map fst (rp_logic_fns p))
     \<and> list_all (\<lambda>(y, f). y < length (im_vec (rp_interner p)) \<and> function_travels f) (rp_logic_fns p)
     \<and> (\<forall>a \<in> ran (rp_click_actions p). action_travels a) \<and> (\<forall>a \<in> ran (rp_submit_actions p). action_travels a)
     \<and> list_all action_travels (rp_root_timer_actions p)
     \<and> list_all (\<lambda>(name, v). interner_get (rp_interner p) name \<noteq> None \<and> value_travels v) (rp_initial_variables p)
     \<and> (\<forall>y \<in> dom (rp_url_registry p). y < length (im_vec (rp_interner p)))
     \<and> list_all (\<lambda>cb. tree_travels (cb_expr cb)) (rp_computed_bindings p)"

definition orders_for :: "map_orders \<Rightarrow> reload_payload \<Rightarrow> bool" where
  "orders_for mo p \<longleftrightarrow> iterates (mo_click mo) (rp_click_actions p) \<and> iterates (mo_submit mo) (rp_submit_actions p)
     \<and> iterates (mo_urls mo) (rp_url_registry p)"

lemma action_roundtrip: "action_travels a \<Longrightarrow> rehydrate_action (wire_of_action a) = Ok a"
  by (cases a) (auto simp: tree_roundtrip list_all_iff intro!: pairO_zip optO_map [where P = tree_travels] split: prod.splits
      intro!: bindO_Ok [THEN iffD2] exI)

lemma function_roundtrip: "function_travels f \<Longrightarrow> rehydrate_mizu_function (wire_of_function f) = Ok f"
proof -
  assume f: "function_travels f"
  then have "mapO (pairO (\<lambda>ty. rehydrate_value_type ty 0)) (zip (map fst (fn_params f)) (map (\<lambda>(_, t). wire_of_type t) (fn_params f)))
      = Ok (fn_params f)"
    by (intro pairO_zip) (auto simp: function_travels_def list_all_iff type_roundtrip)
  with f show ?thesis
    by (simp add: rehydrate_mizu_function_def wire_of_function_def function_travels_def tree_roundtrip)
qed

lemma binding_roundtrip: "tree_travels (cb_expr cb) \<Longrightarrow> rehydrate_computed_binding (wire_of_binding cb) = Ok cb"
  by (simp add: rehydrate_computed_binding_def wire_of_binding_def tree_roundtrip)

lemma interner_distinct: "interner_ok t \<Longrightarrow> distinct (im_vec t)"
  unfolding distinct_conv_nth interner_ok_def resolve_def by (metis option.inject)

lemma index_map:
  fixes m :: "string \<rightharpoonup> nat"
  assumes "distinct xs" "n + length xs \<le> 2 ^ 32"
  shows "s \<notin> set xs \<Longrightarrow> fold index_entry (enumerate n xs) m s = m s"
    and "i < length xs \<Longrightarrow> fold index_entry (enumerate n xs) m (xs ! i) = Some (n + i)"
proof -
  have other: "fold index_entry (enumerate n xs) m s = m s" if "s \<notin> set xs" for n xs s and m :: "string \<rightharpoonup> nat"
    using that by (induction xs arbitrary: n m) auto
  show "fold index_entry (enumerate n xs) m s = m s" if "s \<notin> set xs" using that by (rule other)
  show "fold index_entry (enumerate n xs) m (xs ! i) = Some (n + i)" if "i < length xs"
    using assms that
  proof (induction xs arbitrary: n i m)
    case (Cons x xs)
    show ?case
    proof (cases i)
      case 0
      then show ?thesis using Cons.prems by (simp add: other)
    next
      case (Suc j)
      then show ?thesis using Cons.IH [of "Suc n" j] Cons.prems by simp
    qed
  qed simp
qed

lemma interner_roundtrip:
  assumes "interner_ok t" "interner_room t"
  shows "rebuild_interner (im_vec t) = t"
proof -
  have small: "0 + length (im_vec t) \<le> 2 ^ 32" using assms(2) by (simp add: interner_room_def)
  note ix = index_map [OF interner_distinct [OF assms(1)] small]
  have "fold index_entry (enumerate 0 (im_vec t)) Map.empty s = im_map t s" for s
  proof (cases "s \<in> set (im_vec t)")
    case True
    then obtain i where i: "i < length (im_vec t)" "im_vec t ! i = s" by (auto simp: in_set_conv_nth)
    then have "im_map t s = Some i" using assms(1) by (simp add: interner_ok_def interner_get_def resolve_def)
    with ix(2) [OF i(1)] i(2) show ?thesis by simp
  next
    case False
    then have "im_map t s = None"
      using assms(1) unfolding interner_ok_def interner_get_def resolve_def
      by (metis nth_mem not_None_eq option.inject option.distinct(1))
    with ix(1) [OF False] show ?thesis by simp
  qed
  then show ?thesis by (simp add: rebuild_interner_def fun_eq_iff)
qed

lemma iterates_ran: "iterates es m \<Longrightarrow> (k, v) \<in> set es \<Longrightarrow> v \<in> ran m \<and> k \<in> dom m"
  by (auto simp: iterates_def ran_def dom_def)

lemma check_sym_less [simp]: "y < n \<Longrightarrow> check_sym n what y = Ok y"
  by (simp add: check_sym_def)

lemma interned_resolves: "interner_ok t \<Longrightarrow> interner_get t s = Some y \<Longrightarrow> y < length (im_vec t) \<and> resolve t y = Some s"
  by (auto simp: interner_ok_def resolve_def split: if_splits)

lemma payload_roundtrip:
  assumes p: "payload_travels p" and mo: "orders_for mo p"
  shows "rehydrate_reload_payload (wire_of_payload mo p) = Ok p"
proof -
  let ?w = "wire_of_payload mo p" and ?t = "rp_interner p"
  let ?n = "length (im_vec ?t)"
  have t: "interner_ok ?t" "interner_room ?t" using p by (simp_all add: payload_travels_def)
  have n: "?n mod 2 ^ 32 = ?n" using t(2) by (simp add: interner_room_def)
  note it = mo [unfolded orders_for_def]
  have fns: "mapO (\<lambda>(k, v). bindO (check_sym ?n ''logic function'' k) (\<lambda>y. pairO rehydrate_mizu_function (y, v)))
      (zip (map fst (rp_logic_fns p)) (map (\<lambda>(_, f). wire_of_function f) (rp_logic_fns p))) = Ok (rp_logic_fns p)"
    using p by (intro mapO_zip) (auto simp: payload_travels_def list_all_iff pairO_def function_roundtrip)
  have clicks: "mapO (pairO rehydrate_action) (zip (map fst (mo_click mo)) (map (\<lambda>(_, a). wire_of_action a) (mo_click mo)))
      = Ok (mo_click mo)"
    using p it by (intro pairO_zip action_roundtrip) (auto simp: payload_travels_def dest: iterates_ran)
  have submits: "mapO (pairO rehydrate_action) (zip (map fst (mo_submit mo)) (map (\<lambda>(_, a). wire_of_action a) (mo_submit mo)))
      = Ok (mo_submit mo)"
    using p it by (intro pairO_zip action_roundtrip) (auto simp: payload_travels_def dest: iterates_ran)
  have timers: "mapO rehydrate_action (map wire_of_action (rp_root_timer_actions p)) = Ok (rp_root_timer_actions p)"
    using p by (intro mapO_map) (auto simp: payload_travels_def list_all_iff action_roundtrip)
  have urls: "mapO (\<lambda>(k, v). bindO (check_sym ?n ''url alias'' k) (\<lambda>y. Ok (y, rehydrate_endpoint v)))
      (zip (map fst (mo_urls mo)) (map (\<lambda>(_, ep). wire_of_endpoint ep) (mo_urls mo))) = Ok (mo_urls mo)"
  proof (rule mapO_zip)
    fix k ep assume "(k, ep) \<in> set (mo_urls mo)"
    then have "k < ?n" using it iterates_ran [of "mo_urls mo" "rp_url_registry p" k ep] p by (auto simp: payload_travels_def)
    then show "(case (k, wire_of_endpoint ep) of (k, v) \<Rightarrow> bindO (check_sym ?n ''url alias'' k) (\<lambda>y. Ok (y, rehydrate_endpoint v)))
        = Ok (k, ep)" by simp
  qed
  have binds: "mapO rehydrate_computed_binding (map wire_of_binding (rp_computed_bindings p)) = Ok (rp_computed_bindings p)"
    using p by (intro mapO_map) (auto simp: payload_travels_def list_all_iff binding_roundtrip)
  have vars: "mapO (\<lambda>(k, v). bindO (check_sym ?n ''initial variable'' k) (\<lambda>y.
        bindO (ok_or (resolve ?t y) (ParseError ''initial variable symbol not resolvable'')) (\<lambda>name. pairO (\<lambda>w. rehydrate_value w 0) (name, v))))
      (zip (map (\<lambda>(name, _). case interner_get ?t name of Some y \<Rightarrow> y | None \<Rightarrow> 2 ^ 32 - 1) (rp_initial_variables p))
           (map (\<lambda>(_, v). wire_of_value v) (rp_initial_variables p))) = Ok (rp_initial_variables p)"
    unfolding zip_map_map zip_same_conv_map map_map
  proof (rule mapO_map)
    fix x assume "x \<in> set (rp_initial_variables p)"
    then obtain name v y where x: "x = (name, v)" "interner_get ?t name = Some y" "value_travels v"
      using p by (cases x) (auto simp: payload_travels_def list_all_iff)
    then show "(\<lambda>(k, v). bindO (check_sym ?n ''initial variable'' k) (\<lambda>y.
        bindO (ok_or (resolve ?t y) (ParseError ''initial variable symbol not resolvable'')) (\<lambda>name. pairO (\<lambda>w. rehydrate_value w 0) (name, v))))
      (((\<lambda>(x, y). (case x of (name, _) \<Rightarrow> case interner_get ?t name of Some y \<Rightarrow> y | None \<Rightarrow> 2 ^ 32 - 1, case y of (_, v) \<Rightarrow> wire_of_value v))
         \<circ> (\<lambda>x. (x, x))) x) = Ok x"
      using interned_resolves [OF t(1) x(2)] by (simp add: pairO_def value_travels_def value_roundtrip)
  qed
  show ?thesis
    unfolding rehydrate_reload_payload_def wire_of_payload_def Let_def wire_reload.select_convs n interner_roundtrip [OF t]
      fns clicks submits timers vars urls binds
    using p it by (simp add: zip_len_def map_of_rev_distinct iterates_def insert_entries_distinct payload_travels_def)
qed

fun event_travels :: "map_orders \<Rightarrow> ui_event \<Rightarrow> bool" where
  "event_travels mo (UiReload p) \<longleftrightarrow> payload_travels p \<and> orders_for mo p"
| "event_travels mo (UiUpdateVariable name v) \<longleftrightarrow> value_travels v"
| "event_travels mo (UiSubmitForm n fs) \<longleftrightarrow> distinct (map fst fs) \<and> list_all (\<lambda>f. value_travels (snd f)) fs"
| "event_travels mo _ \<longleftrightarrow> True"

lemma event_roundtrip:
  assumes "event_travels mo ev"
  shows "rehydrate_ui_event (wire_of_event mo ev) = Ok ev"
proof (cases ev)
  case (UiSubmitForm n fs)
  then have "mapO (pairO (\<lambda>w. rehydrate_value w 0)) (zip (map fst fs) (map (\<lambda>(_, v). wire_of_value v) fs)) = Ok fs"
    using assms by (intro pairO_zip) (auto simp: list_all_iff value_travels_def value_roundtrip)
  with UiSubmitForm assms show ?thesis by (simp add: insert_entries_distinct)
qed (use assms in \<open>auto simp: payload_roundtrip value_travels_def value_roundtrip\<close>)

section \<open>Responses\<close>

fun runtime_action_travels :: "runtime_action \<Rightarrow> bool" where
  "runtime_action_travels (RNetworkCall _ _ p _ _ _ hs) \<longleftrightarrow> pred_option value_travels p \<and> list_all (\<lambda>h. value_travels (snd h)) hs"
| "runtime_action_travels (RResolvedCall _ _ p _ _ hs) \<longleftrightarrow> pred_option value_travels p \<and> list_all (\<lambda>h. value_travels (snd h)) hs"
| "runtime_action_travels (RStoreLocal _ v) \<longleftrightarrow> value_travels v"
| "runtime_action_travels _ \<longleftrightarrow> True"

lemma headers_roundtrip:
  "list_all (\<lambda>h. value_travels (snd h)) hs \<Longrightarrow> rehydrate_headers (map fst hs) (map (\<lambda>(_, v). wire_of_value v) hs) = Ok hs"
  unfolding rehydrate_headers_def
  by (simp, intro pairO_zip) (auto simp: list_all_iff value_travels_def value_roundtrip)

lemma payload_option_roundtrip:
  "pred_option value_travels p \<Longrightarrow> optO (\<lambda>w. rehydrate_value w 0) (map_option wire_of_value p) = Ok p"
  by (rule optO_map [where P = value_travels]) (auto simp: value_travels_def value_roundtrip)

lemma runtime_action_roundtrip:
  "runtime_action_travels a \<Longrightarrow> rehydrate_runtime_action (wire_of_runtime_action a) = Ok a"
  by (cases a) (auto simp: headers_roundtrip payload_option_roundtrip value_travels_def value_roundtrip)

definition response_travels :: "worker_response \<Rightarrow> bool" where
  "response_travels r \<longleftrightarrow> list_all (\<lambda>m. value_travels (snd m)) (mutated_variables r)
     \<and> list_all runtime_action_travels (runtime_actions r)"

lemma response_roundtrip:
  assumes "response_travels r"
  shows "rehydrate_worker_response (wire_of_response r) = Ok r"
proof -
  have "mapO (pairO (\<lambda>w. rehydrate_value w 0)) (zip (map fst (mutated_variables r)) (map (\<lambda>(_, v). wire_of_value v) (mutated_variables r)))
      = Ok (mutated_variables r)"
    using assms by (intro pairO_zip) (auto simp: response_travels_def list_all_iff value_travels_def value_roundtrip)
  moreover have "mapO rehydrate_runtime_action (map wire_of_runtime_action (runtime_actions r)) = Ok (runtime_actions r)"
    using assms by (intro mapO_map) (auto simp: response_travels_def list_all_iff runtime_action_roundtrip)
  ultimately show ?thesis by (simp add: rehydrate_worker_response_def wire_of_response_def)
qed

section \<open>Properties\<close>

text \<open>
  (C23) No message makes a worker panic: whatever bytes arrive, if they are accepted as an event
  then the document session handles that event with a response, with nothing or with an error
  of the source, and keeps its invariant. Every expression reference, every argument window,
  every record and every integer of the message was checked on the way in. The one thing taken
  on trust is the order of a document's computed bindings, which is not checked.
\<close>

theorem accepted_message_never_panics:
  assumes "reaches peq s" "rehydrate_ui_event w = Ok ev" "event_ordered ev" "apply_event peq ev s = (r, s')"
  shows "session_inv s' \<and> reaches peq s' \<and> (case r of Ok _ \<Rightarrow> True | Fail f \<Rightarrow> (\<exists>err. f = Error err))"
  using apply_event_safe [OF reaches_inv [OF assms(1)] rehydrate_event_wf [OF assms(2,3)] assms(4)]
    reaches.event [OF assms(1) rehydrate_event_wf [OF assms(2,3)] assms(4)]
  by (auto simp: clean_def split: outcome.splits)

definition empty_reload :: wire_reload where
  "empty_reload =
     \<lparr>w_logic_fn_keys = [], w_logic_fn_values = [], w_click_action_ids = [], w_click_actions = [],
      w_submit_action_ids = [], w_submit_actions = [], w_root_timer_actions = [], w_interner_strings = [],
      w_init_var_keys = [], w_init_var_values = [], w_url_registry_keys = [], w_url_registry_values = [],
      w_document_domain = [], w_computed_bindings = []\<rparr>"

text \<open>A click on node 7 evaluates the node that refers to itself.\<close>

definition cyclic_click :: wire_reload where
  "cyclic_click = empty_reload\<lparr>w_click_action_ids := [7],
     w_click_actions := [WEval \<lparr>wt_nodes = [WNot 0], wt_args_pool = [], wt_root = 0\<rparr>]\<rparr>"

theorem accepted_message_never_panics_witness:
  "\<exists>ev. rehydrate_ui_event (WReload cyclic_click) = Ok ev \<and> session_inv (snd (apply_event (\<lambda>_ _. False) ev session_new))"
proof -
  obtain p where p: "rehydrate_reload_payload cyclic_click = Ok p" "rp_computed_bindings p = []"
    by (auto simp: cyclic_click_def empty_reload_def rehydrate_reload_payload_def zip_len_def Let_def rehydrate_expr_tree_def
        rehydrate_pool_def alloc_def arena_new_def validate_references_def check_ref_def pairO_def MAX_ARENA_NODES_def)
  have ev: "rehydrate_ui_event (WReload cyclic_click) = Ok (UiReload p)" using p(1) by simp
  moreover have "event_ordered (UiReload p)" using p(2) by (simp add: bindings_ordered_def topo_sorted_def)
  moreover obtain r s' where r: "apply_event (\<lambda>_ _. False) (UiReload p) session_new = (r, s')" by fastforce
  ultimately have "session_inv s'" using accepted_message_never_panics [OF reaches.new] by blast
  with ev r show ?thesis by (intro exI [of _ "UiReload p"]) simp
qed

text \<open>
  (C24) Events survive the wire: an event within the receiver's limits (values at most 128
  levels deep and without file handles, types at most 64, arenas of at most \<open>2^20\<close> nodes, every
  initial variable interned) is rebuilt exactly as it was sent, in whatever order the maps of
  the document were iterated. The sandboxed worker runs the document the browser compiled.
\<close>

theorem event_survives_wire:
  assumes "event_travels mo ev"
  shows "rehydrate_ui_event (wire_of_event mo ev) = Ok ev"
  using assms by (rule event_roundtrip)

definition demo_document :: reload_payload where
  "demo_document =
     \<lparr>rp_logic_fns = [], rp_click_actions = [7 \<mapsto> AAssign ''x'' \<lparr>tree_arena = \<lparr>nodes = [ELiteral (VInt (- 5))], args_pool = []\<rparr>, tree_root = 0\<rparr>],
      rp_submit_actions = Map.empty, rp_root_timer_actions = [],
      rp_interner = \<lparr>im_map = [''x'' \<mapsto> 0], im_vec = [''x'']\<rparr>, rp_initial_variables = [(''x'', VList [VNull])],
      rp_url_registry = Map.empty, rp_document_domain = ''a.dev'', rp_computed_bindings = []\<rparr>"

theorem event_survives_wire_witness:
  "rehydrate_ui_event (wire_of_event
       \<lparr>mo_click = [(7, AAssign ''x'' \<lparr>tree_arena = \<lparr>nodes = [ELiteral (VInt (- 5))], args_pool = []\<rparr>, tree_root = 0\<rparr>)], mo_submit = [], mo_urls = []\<rparr>
       (UiReload demo_document))
     = Ok (UiReload demo_document)"
  by (rule event_survives_wire)
    (simp add: demo_document_def payload_travels_def orders_for_def iterates_def interner_ok_def interner_room_def interner_get_def
      resolve_def tree_travels_def wf_defs value_travels_def i64_defs MAX_VALUE_DEPTH_def MAX_ARENA_NODES_def)

text \<open>A value with every file handle moved to another path and allocation.\<close>

fun move_files :: "string \<Rightarrow> nat \<Rightarrow> mval \<Rightarrow> mval" and move_field :: "string \<Rightarrow> nat \<Rightarrow> record_field \<Rightarrow> record_field" where
  "move_files path arc (VFileHandle fh) = VFileHandle (fh\<lparr>fh_path := path, fh_arc := arc\<rparr>)"
| "move_files path arc (VList items) = VList (map (move_files path arc) items)"
| "move_files path arc (VRecord fs) = VRecord (map (move_field path arc) fs)"
| "move_files path arc v = v"
| "move_field path arc (RecordField key h v) = RecordField key h (move_files path arc v)"

lemma wire_of_moved:
  "wire_of_value (move_files path arc v) = wire_of_value v"
  "wire_of_field (move_field path arc f) = wire_of_field f"
  by (induction v and f) auto

text \<open>
  The path of a file stays home: what is sent for a value depends on a file handle only
  through its display name, so moving every file a value refers to changes nothing about the
  message.
\<close>

theorem file_path_never_sent: "wire_of_value (move_files path arc v) = wire_of_value v"
  by (rule wire_of_moved)

lemma accepted_response_values:
  assumes "rehydrate_worker_response w = Ok r"
  shows "list_all (\<lambda>m. value_ok (snd m)) (mutated_variables r)"
proof (rule mapO_all)
  show "mapO (pairO (\<lambda>w. rehydrate_value w 0)) (zip (wr_mutated_syms w) (wr_mutated_values w)) = Ok (mutated_variables r)"
    using assms by (auto simp: rehydrate_worker_response_def bindO_Ok split: if_splits)
qed (auto simp: pairO_Ok rehydrate_value_ok)

text \<open>
  Symbols inside expressions are not bounds-checked, though those of the tables are: the
  document below is accepted with a variable that no name of the document has. Reading it
  yields null.
\<close>

lemma expression_symbols_unchecked:
  "is_ok (rehydrate_reload_payload (empty_reload\<lparr>w_root_timer_actions :=
     [WEval \<lparr>wt_nodes = [WVariable 99], wt_args_pool = [], wt_root = 0\<rparr>]\<rparr>))"
  by (simp add: empty_reload_def rehydrate_reload_payload_def zip_len_def Let_def rehydrate_expr_tree_def
      rehydrate_pool_def alloc_def arena_new_def validate_references_def MAX_ARENA_NODES_def)

text \<open>
  An initial variable without an interned name, which a session in the same process drops,
  makes the worker refuse the whole document.
\<close>

lemma uninterned_variable_refused:
  assumes "rp_initial_variables p = [(name, v)]" "interner_get (rp_interner p) name = None"
    and "length (im_vec (rp_interner p)) < 2 ^ 32 - 1"
  shows "\<not> is_ok (rehydrate_reload_payload (wire_of_payload mo p))"
proof
  assume "is_ok (rehydrate_reload_payload (wire_of_payload mo p))"
  then obtain q where "rehydrate_reload_payload (wire_of_payload mo p) = Ok q"
    by (cases "rehydrate_reload_payload (wire_of_payload mo p)") auto
  with assms show False
    by (auto simp: rehydrate_reload_payload_def wire_of_payload_def Let_def bindO_Ok check_sym_def split: if_splits)
qed

end
