(* ===== verification/Mizu_Navigation.thy ===== *)
theory Mizu_Navigation
  imports Mizu_Text
begin

text \<open>
  The navigation policy of \<^verbatim>\<open>security/navigation\<close>: the single gate every navigation passes.
  Strings are byte strings; \<^verbatim>\<open>str::parse::<Ipv6Addr>\<close> of the standard library, which decides
  about a bracketed host, is modelled by the recursive-descent parser it documents.
\<close>

section \<open>Initiators and verdicts\<close>

datatype navigation_initiator =
    UserGestureInit
  | DocumentLogic
  | RedirectOf navigation_initiator
  | HistoryStep

datatype navigation_verdict = Allow string | Block string

fun redirect_of :: "navigation_initiator \<Rightarrow> navigation_initiator" where
  "redirect_of (RedirectOf inner) = RedirectOf inner"
| "redirect_of root = RedirectOf root"

fun has_user_agency :: "navigation_initiator \<Rightarrow> bool" where
  "has_user_agency UserGestureInit = True"
| "has_user_agency DocumentLogic = False"
| "has_user_agency (RedirectOf inner) = has_user_agency inner"
| "has_user_agency HistoryStep = True"

section \<open>Hosts\<close>

definition mizu_domain :: "string \<Rightarrow> string option" where
  "mizu_domain url =
     (case strip_prefix ''mizu://'' url of
        None \<Rightarrow> None
      | Some rest \<Rightarrow>
          let host = takeWhile (\<lambda>c. c \<notin> {CHR ''/'', CHR ''?'', CHR ''#''}) rest
          in if host = [] then None else Some host)"

subsection \<open>IPv6 literals\<close>

definition hex_value :: "char \<Rightarrow> nat option" where
  "hex_value c =
     (let n = of_char c :: nat in
      if 48 \<le> n \<and> n \<le> 57 then Some (n - 48)
      else if 97 \<le> n \<and> n \<le> 102 then Some (n - 87)
      else if 65 \<le> n \<and> n \<le> 70 then Some (n - 55)
      else None)"

text \<open>The digits of a number in the given radix at the front of the input.\<close>

definition digits_of :: "nat \<Rightarrow> string \<Rightarrow> string" where
  "digits_of radix s = takeWhile (\<lambda>c. case hex_value c of Some d \<Rightarrow> d < radix | None \<Rightarrow> False) s"

definition read_number :: "nat \<Rightarrow> nat \<Rightarrow> bool \<Rightarrow> nat \<Rightarrow> string \<Rightarrow> (nat \<times> string) option" where
  "read_number radix max_digits allow_zero_prefix limit s =
     (let ds = digits_of radix s;
          v = foldl (\<lambda>acc c. acc * radix + the (hex_value c)) 0 ds
      in if ds = [] \<or> length ds > max_digits \<or> v > limit then None
         else if \<not> allow_zero_prefix \<and> hd ds = CHR ''0'' \<and> length ds > 1 then None
         else Some (v, drop (length ds) s))"

definition read_separator :: "char \<Rightarrow> nat \<Rightarrow> (string \<Rightarrow> ('a \<times> string) option) \<Rightarrow> string \<Rightarrow> ('a \<times> string) option" where
  "read_separator sep index inner s =
     (if index = 0 then inner s
      else case s of c # rest \<Rightarrow> if c = sep then inner rest else None | [] \<Rightarrow> None)"

fun read_octets :: "nat \<Rightarrow> nat \<Rightarrow> string \<Rightarrow> (nat list \<times> string) option" where
  "read_octets 0 i s = Some ([], s)"
| "read_octets (Suc n) i s =
     (case read_separator CHR ''.'' i (read_number 10 3 False 255) s of
        None \<Rightarrow> None
      | Some (d, rest) \<Rightarrow>
          (case read_octets n (Suc i) rest of None \<Rightarrow> None | Some (ds, rest') \<Rightarrow> Some (d # ds, rest')))"

definition read_ipv4_addr :: "string \<Rightarrow> (nat list \<times> string) option" where
  "read_ipv4_addr s = read_octets 4 0 s"

text \<open>
  Up to \<open>n\<close> groups, the \<open>i\<close>-th one next: the groups, whether a trailing IPv4 address was read,
  and what is left.
\<close>

fun read_groups :: "nat \<Rightarrow> nat \<Rightarrow> string \<Rightarrow> nat list \<times> bool \<times> string" where
  "read_groups 0 i s = ([], False, s)"
| "read_groups (Suc n) i s =
     (case (if n \<ge> 1 then read_separator CHR '':'' i read_ipv4_addr s else None) of
        Some (ds, rest) \<Rightarrow> ([ds ! 0 * 256 + ds ! 1, ds ! 2 * 256 + ds ! 3], True, rest)
      | None \<Rightarrow>
          (case read_separator CHR '':'' i (read_number 16 4 True 65535) s of
             None \<Rightarrow> ([], False, s)
           | Some (g, rest) \<Rightarrow>
               (case read_groups n (Suc i) rest of (gs, v4, rest') \<Rightarrow> (g # gs, v4, rest'))))"

definition parse_ipv6 :: "string \<Rightarrow> nat list option" where
  "parse_ipv6 s =
     (case read_groups 8 0 s of (hd_groups, hd_v4, rest) \<Rightarrow>
        if length hd_groups = 8 then (if rest = [] then Some hd_groups else None)
        else if hd_v4 then None
        else case strip_prefix ''::'' rest of
          None \<Rightarrow> None
        | Some rest' \<Rightarrow>
            (case read_groups (8 - (length hd_groups + 1)) 0 rest' of (tl_groups, _, rest'') \<Rightarrow>
               if rest'' = []
               then Some (hd_groups @ replicate (8 - length hd_groups - length tl_groups) 0 @ tl_groups)
               else None))"

subsection \<open>Well-formed hosts\<close>

definition forbidden_host_byte :: "char \<Rightarrow> bool" where
  "forbidden_host_byte c \<longleftrightarrow>
     (of_char c :: nat) \<le> 32 \<or> (of_char c :: nat) = 127 \<or> c \<in> set ''#/<>?[]^|'' \<or> c = CHR 0x5C"

definition is_wellformed_mizu_host :: "string \<Rightarrow> bool" where
  "is_wellformed_mizu_host host =
     (if host = [] \<or> CHR ''@'' \<in> set host then False
      else case strip_prefix ''['' host of
        Some rest \<Rightarrow>
          if rest \<noteq> [] \<and> last rest = CHR '']'' \<and> butlast rest \<noteq> [] \<and> parse_ipv6 (butlast rest) \<noteq> None
          then \<not> list_ex forbidden_host_byte (butlast rest)
          else False
      | None \<Rightarrow>
          if CHR '':'' \<in> set host then False
          else \<not> list_ex forbidden_host_byte host)"

definition eq_ignore_ascii_case :: "string \<Rightarrow> string \<Rightarrow> bool" where
  "eq_ignore_ascii_case a b \<longleftrightarrow> map ascii_lower a = map ascii_lower b"

definition is_same_origin :: "string \<Rightarrow> string \<Rightarrow> bool" where
  "is_same_origin current_url target =
     (case (mizu_domain current_url, mizu_domain target) of
        (Some a, Some b) \<Rightarrow> is_wellformed_mizu_host a \<and> is_wellformed_mizu_host b \<and> eq_ignore_ascii_case a b
      | _ \<Rightarrow> False)"

section \<open>The policy\<close>

definition is_ctl_byte :: "char \<Rightarrow> bool" where
  "is_ctl_byte c \<longleftrightarrow> (of_char c :: nat) < 32 \<or> (of_char c :: nat) = 127"

definition check_mizu_target :: "string \<Rightarrow> string \<Rightarrow> navigation_initiator \<Rightarrow> navigation_verdict" where
  "check_mizu_target current_url target initiator =
     (case mizu_domain target of
        None \<Rightarrow> Block ''mizu:// URL has an empty domain''
      | Some target_host \<Rightarrow>
          if \<not> is_wellformed_mizu_host target_host
          then Block ''mizu:// URL must not carry credentials or an explicit port''
          else if is_same_origin current_url target then Allow target
          else if has_user_agency initiator then Allow target
          else Block ''cross-origin navigation without user gesture blocked'')"

definition check_scheme :: "string \<Rightarrow> string \<Rightarrow> navigation_initiator \<Rightarrow> navigation_verdict" where
  "check_scheme current_url target initiator =
     (if prefix ''http://'' target \<or> prefix ''https://'' target
      then Block ''http(s):// is not a navigable Mizu scheme''
      else if prefix ''file://'' target
      then (if prefix ''mizu://'' current_url then Block ''remote document may not navigate to file:// resource''
            else if prefix ''file://'' current_url then Allow target
            else Block ''navigation to file:// from unknown origin scheme blocked'')
      else if prefix ''mizu://'' target then check_mizu_target current_url target initiator
      else Block ''unrecognised scheme; navigation blocked'')"

definition check_navigation :: "string \<Rightarrow> string \<Rightarrow> navigation_initiator \<Rightarrow> navigation_verdict" where
  "check_navigation current_url target initiator =
     (if target = [] then Block ''empty navigation target''
      else if list_ex is_ctl_byte target then Block ''navigation target contains control characters''
      else if \<not> str_contains target ''://''
      then (if prefix ''file://'' current_url then Allow target
            else check_scheme current_url (''mizu://'' @ target) initiator)
      else check_scheme current_url target initiator)"

section \<open>Facts about origins\<close>

lemma same_origin_sym: "is_same_origin a b \<Longrightarrow> is_same_origin b a"
  by (auto simp: is_same_origin_def eq_ignore_ascii_case_def split: option.splits)

lemma same_origin_trans: "is_same_origin a b \<Longrightarrow> is_same_origin b c \<Longrightarrow> is_same_origin a c"
  by (auto simp: is_same_origin_def eq_ignore_ascii_case_def split: option.splits)

lemma wellformed_no_userinfo:
  "is_wellformed_mizu_host h \<Longrightarrow> CHR ''@'' \<notin> set h \<and> (CHR '':'' \<in> set h \<longrightarrow> hd h = CHR ''['' \<and> last h = CHR '']'')"
  by (auto simp: is_wellformed_mizu_host_def split: if_splits option.splits)

fun redirect_depth :: "navigation_initiator \<Rightarrow> nat" where
  "redirect_depth (RedirectOf i) = Suc (redirect_depth i)"
| "redirect_depth _ = 0"

lemma redirects_collapse:
  "has_user_agency ((redirect_of ^^ n) i) = has_user_agency i
   \<and> redirect_depth ((redirect_of ^^ n) i) \<le> max 1 (redirect_depth i)"
proof (induction n)
  case (Suc n)
  have "has_user_agency (redirect_of j) = has_user_agency j \<and> redirect_depth (redirect_of j) \<le> max 1 (redirect_depth j)" for j
    by (cases j) simp_all
  from this [of "(redirect_of ^^ n) i"] Suc show ?case by (simp add: max_def split: if_splits)
qed simp

section \<open>Properties\<close>

text \<open>
  (C32) What the policy lets through. Without user agency, whatever redirects the server strings
  together, an allowed navigation from a remote document stays on the document's own
  origin: the result is a \<^verbatim>\<open>mizu://\<close> URL whose host is well formed, carries no credentials
  and no port, and equals the current host up to case.
\<close>

theorem document_navigation_same_origin:
  assumes "check_navigation current target ((redirect_of ^^ n) i) = Allow url"
    and "\<not> has_user_agency i" "prefix ''mizu://'' current"
  shows "\<exists>h h'. mizu_domain url = Some h \<and> mizu_domain current = Some h' \<and> eq_ignore_ascii_case h' h
     \<and> is_wellformed_mizu_host h \<and> CHR ''@'' \<notin> set h \<and> (CHR '':'' \<in> set h \<longrightarrow> hd h = CHR ''['' \<and> last h = CHR '']'')
     \<and> \<not> list_ex is_ctl_byte target"
proof -
  let ?i = "(redirect_of ^^ n) i"
  have ag: "\<not> has_user_agency ?i" using assms(2) redirects_collapse by simp
  have nf: "\<not> prefix ''file://'' current" using assms(3) by (auto simp: prefix_def)
  have sc: "\<exists>h h'. mizu_domain url = Some h \<and> mizu_domain current = Some h' \<and> eq_ignore_ascii_case h' h \<and> is_wellformed_mizu_host h"
    if "check_scheme current t ?i = Allow url" for t
    using that ag assms(3) nf
    by (auto simp: check_scheme_def check_mizu_target_def is_same_origin_def split: if_splits option.splits)
  have "\<exists>t. check_scheme current t ?i = Allow url" "\<not> list_ex is_ctl_byte target"
    using assms(1) nf by (auto simp: check_navigation_def split: if_splits)
  then obtain h h' where h: "mizu_domain url = Some h" "mizu_domain current = Some h'" "eq_ignore_ascii_case h' h"
    "is_wellformed_mizu_host h"
    using sc by blast
  then show ?thesis
    using wellformed_no_userinfo [OF h(4)] \<open>\<not> list_ex is_ctl_byte target\<close> by blast
qed

theorem document_navigation_same_origin_witness:
  "\<exists>h. mizu_domain ''mizu://Host/b'' = Some h \<and> CHR ''@'' \<notin> set h"
proof -
  have "check_navigation ''mizu://host/a'' ''mizu://Host/b'' ((redirect_of ^^ 2) DocumentLogic) = Allow ''mizu://Host/b''"
    by code_simp
  from document_navigation_same_origin [OF this] show ?thesis by auto
qed

text \<open>
  The policy is total over schemes and fails closed. It never allows an \<^verbatim>\<open>http(s)\<close> target; a
  \<^verbatim>\<open>file://\<close> target is allowed only from a \<^verbatim>\<open>file://\<close> document; and from a document that is
  neither local nor remote nothing is allowed without user agency.
\<close>

theorem navigation_scheme_gate:
  assumes "check_navigation current target i = Allow url"
  shows "\<not> prefix ''http://'' url \<and> \<not> prefix ''https://'' url
     \<and> (prefix ''file://'' url \<longrightarrow> prefix ''file://'' current)
     \<and> (prefix ''file://'' current \<or> prefix ''mizu://'' url \<and> (is_same_origin current url \<or> has_user_agency i))"
proof -
  have sc: "\<not> prefix ''http://'' url \<and> \<not> prefix ''https://'' url \<and> (prefix ''file://'' url \<longrightarrow> prefix ''file://'' current)
      \<and> (prefix ''file://'' current \<or> prefix ''mizu://'' url \<and> (is_same_origin current url \<or> has_user_agency i))"
    if "check_scheme current t i = Allow url" for t
    using that by (auto simp: check_scheme_def check_mizu_target_def split: if_splits option.splits)
  have rel: "\<not> prefix ''http://'' target" "\<not> prefix ''https://'' target" if "\<not> str_contains target ''://''"
    using that by (auto simp: str_contains_iff sublist_def prefix_def) (metis append_Cons append_Nil)+
  show ?thesis
    using assms sc rel by (auto simp: check_navigation_def split: if_splits)
qed

theorem navigation_scheme_gate_witness:
  "\<not> prefix ''http://'' ''mizu://h''"
proof -
  have "check_navigation ''about'' ''h'' UserGestureInit = Allow ''mizu://h''"
    by (simp add: check_navigation_def check_scheme_def check_mizu_target_def is_same_origin_def mizu_domain_def
        strip_prefix_def is_wellformed_mizu_host_def forbidden_host_byte_def is_ctl_byte_def Let_def)
  from navigation_scheme_gate [OF this] show ?thesis by blast
qed

end
