(* ===== verification/Mizu_Network.thy ===== *)
theory Mizu_Network
  imports Mizu_Navigation
begin

unbundle bit_operations_syntax

text \<open>
  Host classification and the authorization of resolved addresses of
  \<^verbatim>\<open>security/network\<close>. An IPv4 address is its four octets, an IPv6 address its eight
  segments, at their machine width. Parsing a host as an address literal goes through
  the \<^verbatim>\<open>url\<close> crate; it is the argument \<open>parse\<close> of the definitions, as it is in the source.
\<close>

datatype ipv4_addr = Ipv4 "8 word" "8 word" "8 word" "8 word"

datatype ipv6_addr =
  Ipv6 "16 word" "16 word" "16 word" "16 word" "16 word" "16 word" "16 word" "16 word"

datatype ip_addr = V4 ipv4_addr | V6 ipv6_addr

section \<open>The predicates of the standard library\<close>

fun v4_is_loopback :: "ipv4_addr \<Rightarrow> bool" where
  "v4_is_loopback (Ipv4 a b c d) \<longleftrightarrow> a = 127"

fun v4_is_unspecified :: "ipv4_addr \<Rightarrow> bool" where
  "v4_is_unspecified (Ipv4 a b c d) \<longleftrightarrow> a = 0 \<and> b = 0 \<and> c = 0 \<and> d = 0"

fun v4_is_private :: "ipv4_addr \<Rightarrow> bool" where
  "v4_is_private (Ipv4 a b c d) \<longleftrightarrow> a = 10 \<or> (a = 172 \<and> 16 \<le> b \<and> b \<le> 31) \<or> (a = 192 \<and> b = 168)"

fun v4_is_link_local :: "ipv4_addr \<Rightarrow> bool" where
  "v4_is_link_local (Ipv4 a b c d) \<longleftrightarrow> a = 169 \<and> b = 254"

fun v4_is_multicast :: "ipv4_addr \<Rightarrow> bool" where
  "v4_is_multicast (Ipv4 a b c d) \<longleftrightarrow> 224 \<le> a \<and> a \<le> 239"

fun v4_is_broadcast :: "ipv4_addr \<Rightarrow> bool" where
  "v4_is_broadcast (Ipv4 a b c d) \<longleftrightarrow> a = 255 \<and> b = 255 \<and> c = 255 \<and> d = 255"

fun v4_is_documentation :: "ipv4_addr \<Rightarrow> bool" where
  "v4_is_documentation (Ipv4 a b c d) \<longleftrightarrow>
     (a = 192 \<and> b = 0 \<and> c = 2) \<or> (a = 198 \<and> b = 51 \<and> c = 100) \<or> (a = 203 \<and> b = 0 \<and> c = 113)"

fun v6_is_unspecified :: "ipv6_addr \<Rightarrow> bool" where
  "v6_is_unspecified x \<longleftrightarrow> x = Ipv6 0 0 0 0 0 0 0 0"

fun v6_is_loopback :: "ipv6_addr \<Rightarrow> bool" where
  "v6_is_loopback x \<longleftrightarrow> x = Ipv6 0 0 0 0 0 0 0 1"

fun v6_is_multicast :: "ipv6_addr \<Rightarrow> bool" where
  "v6_is_multicast (Ipv6 s0 s1 s2 s3 s4 s5 s6 s7) \<longleftrightarrow> s0 AND 0xff00 = 0xff00"

text \<open>\<^verbatim>\<open>Ipv4Addr::new((a >> 8) as u8, (a & 0xff) as u8, (b >> 8) as u8, (b & 0xff) as u8)\<close>.\<close>

definition v4_of_segments :: "16 word \<Rightarrow> 16 word \<Rightarrow> ipv4_addr" where
  "v4_of_segments a b =
     Ipv4 (ucast (drop_bit 8 a)) (ucast (a AND 0xff)) (ucast (drop_bit 8 b)) (ucast (b AND 0xff))"

fun to_ipv4_mapped :: "ipv6_addr \<Rightarrow> ipv4_addr option" where
  "to_ipv4_mapped (Ipv6 s0 s1 s2 s3 s4 s5 s6 s7) =
     (if s0 = 0 \<and> s1 = 0 \<and> s2 = 0 \<and> s3 = 0 \<and> s4 = 0 \<and> s5 = 0xffff then Some (v4_of_segments s6 s7) else None)"

fun is_loopback :: "ip_addr \<Rightarrow> bool" where
  "is_loopback (V4 a) = v4_is_loopback a"
| "is_loopback (V6 a) = v6_is_loopback a"

section \<open>Routability\<close>

fun is_publicly_routable_v4 :: "ipv4_addr \<Rightarrow> bool" where
  "is_publicly_routable_v4 (Ipv4 a b c d) \<longleftrightarrow>
     \<not> (v4_is_unspecified (Ipv4 a b c d) \<or> v4_is_loopback (Ipv4 a b c d) \<or> v4_is_private (Ipv4 a b c d)
        \<or> v4_is_link_local (Ipv4 a b c d) \<or> v4_is_multicast (Ipv4 a b c d) \<or> v4_is_broadcast (Ipv4 a b c d)
        \<or> v4_is_documentation (Ipv4 a b c d)
        \<or> (a = 100 \<and> 64 \<le> b \<and> b < 128)
        \<or> (a = 192 \<and> b = 0 \<and> c = 0)
        \<or> (a = 198 \<and> (b = 18 \<or> b = 19))
        \<or> a \<ge> 240)"

fun embedded_ipv4 :: "ipv6_addr \<Rightarrow> ipv4_addr option" where
  "embedded_ipv4 (Ipv6 s0 s1 s2 s3 s4 s5 s6 s7) =
     (case to_ipv4_mapped (Ipv6 s0 s1 s2 s3 s4 s5 s6 s7) of
        Some v4 \<Rightarrow> Some v4
      | None \<Rightarrow>
          if s0 = 0 \<and> s1 = 0 \<and> s2 = 0 \<and> s3 = 0 \<and> s4 = 0 \<and> s5 = 0 \<and> s6 \<noteq> 0 then Some (v4_of_segments s6 s7)
          else if s0 = 0x2002 then Some (v4_of_segments s1 s2)
          else if s0 = 0x2001 \<and> s1 = 0 then Some (v4_of_segments (NOT s6) (NOT s7))
          else None)"

fun is_publicly_routable_v6 :: "ipv6_addr \<Rightarrow> bool" where
  "is_publicly_routable_v6 (Ipv6 s0 s1 s2 s3 s4 s5 s6 s7) =
     (case embedded_ipv4 (Ipv6 s0 s1 s2 s3 s4 s5 s6 s7) of
        Some v4 \<Rightarrow> is_publicly_routable_v4 v4
      | None \<Rightarrow>
          \<not> (v6_is_unspecified (Ipv6 s0 s1 s2 s3 s4 s5 s6 s7) \<or> v6_is_loopback (Ipv6 s0 s1 s2 s3 s4 s5 s6 s7)
             \<or> v6_is_multicast (Ipv6 s0 s1 s2 s3 s4 s5 s6 s7)
             \<or> s0 AND 0xfe00 = 0xfc00
             \<or> s0 AND 0xffc0 = 0xfe80
             \<or> (s0 = 0x2001 \<and> s1 = 0x0db8)
             \<or> (s0 = 0x0100 \<and> s1 = 0 \<and> s2 = 0 \<and> s3 = 0)))"

fun is_publicly_routable :: "ip_addr \<Rightarrow> bool" where
  "is_publicly_routable (V4 v4) = is_publicly_routable_v4 v4"
| "is_publicly_routable (V6 v6) = is_publicly_routable_v6 v6"

section \<open>Names\<close>

definition ends_with_ignore_ascii_case :: "string \<Rightarrow> string \<Rightarrow> bool" where
  "ends_with_ignore_ascii_case haystack sfx \<longleftrightarrow>
     length haystack \<ge> length sfx \<and> eq_ignore_ascii_case (drop (length haystack - length sfx) haystack) sfx"

definition is_local_host_with :: "string \<Rightarrow> (string \<Rightarrow> ip_addr option) \<Rightarrow> bool" where
  "is_local_host_with host parse \<longleftrightarrow>
     (if eq_ignore_ascii_case host ''localhost'' \<or> ends_with_ignore_ascii_case host ''.localhost'' then True
      else case parse host of Some addr \<Rightarrow> is_loopback addr | None \<Rightarrow> False)"

section \<open>Messages\<close>

fun show_v4 :: "ipv4_addr \<Rightarrow> string" where
  "show_v4 (Ipv4 a b c d) =
     show_nat (unat a) @ ''.'' @ show_nat (unat b) @ ''.'' @ show_nat (unat c) @ ''.'' @ show_nat (unat d)"

text \<open>The first longest run of zero segments, as its start and length.\<close>

fun zero_run :: "16 word list \<Rightarrow> nat \<Rightarrow> nat \<times> nat \<Rightarrow> nat \<times> nat \<Rightarrow> nat \<times> nat" where
  "zero_run [] i cur best = best"
| "zero_run (s # ss) i cur best =
     (if s = 0
      then let cur' = (if snd cur = 0 then (i, 1) else (fst cur, Suc (snd cur)))
           in zero_run ss (Suc i) cur' (if snd cur' > snd best then cur' else best)
      else zero_run ss (Suc i) (0, 0) best)"

fun join_hex :: "16 word list \<Rightarrow> string" where
  "join_hex [] = []"
| "join_hex [s] = show_hex (unat s)"
| "join_hex (s # ss) = show_hex (unat s) @ '':'' @ join_hex ss"

fun show_v6 :: "ipv6_addr \<Rightarrow> string" where
  "show_v6 (Ipv6 s0 s1 s2 s3 s4 s5 s6 s7) =
     (case to_ipv4_mapped (Ipv6 s0 s1 s2 s3 s4 s5 s6 s7) of
        Some v4 \<Rightarrow> ''::ffff:'' @ show_v4 v4
      | None \<Rightarrow>
          let ss = [s0, s1, s2, s3, s4, s5, s6, s7] in
          (case zero_run ss 0 (0, 0) (0, 0) of (start, len) \<Rightarrow>
             if len > 1 then join_hex (take start ss) @ ''::'' @ join_hex (drop (start + len) ss)
             else join_hex ss))"

fun show_ip :: "ip_addr \<Rightarrow> string" where
  "show_ip (V4 a) = show_v4 a"
| "show_ip (V6 a) = show_v6 a"

definition violation_literal_mismatch :: "string \<Rightarrow> ip_addr \<Rightarrow> string" where
  "violation_literal_mismatch host ip =
     ''address literal `'' @ host @ ''` resolved to a different address ('' @ show_ip ip @ '')''"

definition violation_literal_not_routable :: "string \<Rightarrow> string" where
  "violation_literal_not_routable host =
     ''address literal `'' @ host @ ''` is not publicly routable; a document-supplied target may not address a private, loopback, or link-local host''"

definition violation_loopback_name :: "string \<Rightarrow> ip_addr \<Rightarrow> string" where
  "violation_loopback_name host ip =
     ''loopback name `'' @ host @ ''` resolved to non-loopback address '' @ show_ip ip"

definition violation_rebinding :: "string \<Rightarrow> ip_addr \<Rightarrow> string" where
  "violation_rebinding host ip =
     ''DNS rebinding blocked: public name `'' @ host @ ''` resolved to non-routable address '' @ show_ip ip"

section \<open>The gate\<close>

definition authorize_resolved_address_with ::
  "string \<Rightarrow> ip_addr \<Rightarrow> bool \<Rightarrow> (string \<Rightarrow> ip_addr option) \<Rightarrow> unit outcome" where
  "authorize_resolved_address_with host ip allow_private_literal parse =
     (case parse host of
        Some literal \<Rightarrow>
          if literal \<noteq> ip then Err (SecurityViolation (violation_literal_mismatch host ip))
          else if allow_private_literal \<or> is_publicly_routable ip then Ok ()
          else Err (SecurityViolation (violation_literal_not_routable host))
      | None \<Rightarrow>
          if is_local_host_with host parse
          then (if is_loopback ip then Ok () else Err (SecurityViolation (violation_loopback_name host ip)))
          else if is_publicly_routable ip then Ok ()
          else Err (SecurityViolation (violation_rebinding host ip)))"

section \<open>Address blocks\<close>

text \<open>
  The reference: an IPv4 address as a number, a block as a prefix and its length, and the
  blocks a public name must not resolve to, as the registries list them.
\<close>

fun addr32 :: "ipv4_addr \<Rightarrow> nat" where
  "addr32 (Ipv4 a b c d) = unat a * 2 ^ 24 + unat b * 2 ^ 16 + unat c * 2 ^ 8 + unat d"

fun in_block :: "nat \<times> nat \<times> nat \<times> nat \<Rightarrow> nat \<Rightarrow> ipv4_addr \<Rightarrow> bool" where
  "in_block (a, b, c, d) len x \<longleftrightarrow>
     addr32 x div 2 ^ (32 - len) = (a * 2 ^ 24 + b * 2 ^ 16 + c * 2 ^ 8 + d) div 2 ^ (32 - len)"

definition BLOCKED :: "((nat \<times> nat \<times> nat \<times> nat) \<times> nat) list" where
  "BLOCKED =
     [((0, 0, 0, 0), 32), ((10, 0, 0, 0), 8), ((100, 64, 0, 0), 10), ((127, 0, 0, 0), 8), ((169, 254, 0, 0), 16),
      ((172, 16, 0, 0), 12), ((192, 0, 0, 0), 24), ((192, 0, 2, 0), 24), ((192, 168, 0, 0), 16), ((198, 18, 0, 0), 15),
      ((198, 51, 100, 0), 24), ((203, 0, 113, 0), 24), ((224, 0, 0, 0), 4), ((240, 0, 0, 0), 4)]"

text \<open>The octets of an address as bounded numbers, and its prefixes in terms of them.\<close>

lemma octet_less [simp]: "unat (a :: 8 word) < 256"
  using unsigned_less [of a] by simp

lemma octet_numeral:
  fixes a :: "8 word"
  shows "a = numeral k \<longleftrightarrow> unat a = unat (numeral k :: 8 word)" "a = 0 \<longleftrightarrow> unat a = 0"
    "numeral k \<le> a \<longleftrightarrow> unat (numeral k :: 8 word) \<le> unat a" "a \<le> numeral k \<longleftrightarrow> unat a \<le> unat (numeral k :: 8 word)"
    "a < numeral k \<longleftrightarrow> unat a < unat (numeral k :: 8 word)"
  by (auto simp: word_unat_eq_iff word_le_nat_alt word_less_nat_alt)

lemma div_snoc_digit:
  fixes q r :: nat
  assumes "r < 256"
  shows "(q * 256 + r) div (256 * n) = q div n"
  using assms by (simp add: div_mult2_eq)

lemma split_prefix:
  fixes a b :: nat
  assumes "0 < k" "256 = j * k"
  shows "(a * 256 + b) div k = a * j + b div k"
  unfolding assms(2) mult.assoc [symmetric] using assms(1) by simp

definition quad :: "nat \<Rightarrow> nat \<Rightarrow> nat \<Rightarrow> nat \<Rightarrow> nat" where
  "quad a b c d = ((a * 256 + b) * 256 + c) * 256 + d"

lemma in_block_quad:
  "in_block (m, n, p, q) len (Ipv4 a b c d) \<longleftrightarrow>
     quad (unat a) (unat b) (unat c) (unat d) div 2 ^ (32 - len) = quad m n p q div 2 ^ (32 - len)"
  by (simp add: quad_def mult.commute)

declare in_block.simps [simp del]

lemma quad_prefixes:
  assumes "b < 256" "c < 256" "d < 256"
  shows "quad a b c d div 256 = (a * 256 + b) * 256 + c" "quad a b c d div 65536 = a * 256 + b"
    "quad a b c d div 131072 = a * 128 + b div 2" "quad a b c d div 1048576 = a * 16 + b div 16"
    "quad a b c d div 4194304 = a * 4 + b div 64" "quad a b c d div 16777216 = a" "quad a b c d div 268435456 = a div 16"
proof -
  note d = assms [THEN div_snoc_digit]
  show "quad a b c d div 256 = (a * 256 + b) * 256 + c"
    unfolding quad_def using d(3) [of _ 1] by (simp only: mult_1_right div_by_1)
  have two: "quad a b c d div (256 * (256 * n)) = (a * 256 + b) div n" for n
    unfolding quad_def d by (rule refl)
  have three: "quad a b c d div (256 * (256 * (256 * n))) = a div n" for n
    unfolding quad_def d by (rule refl)
  show "quad a b c d div 65536 = a * 256 + b" using two [of 1] by simp
  show "quad a b c d div 131072 = a * 128 + b div 2" using two [of 2] split_prefix [of 2 128 a b] by simp
  show "quad a b c d div 1048576 = a * 16 + b div 16" using two [of 16] split_prefix [of 16 16 a b] by simp
  show "quad a b c d div 4194304 = a * 4 + b div 64" using two [of 64] split_prefix [of 64 4 a b] by simp
  show "quad a b c d div 16777216 = a" using three [of 1] by simp
  show "quad a b c d div 268435456 = a div 16" using three [of 16] by simp
qed

lemma pair_digits:
  fixes a b m n k :: nat
  assumes "b < k" "n < k"
  shows "a * k + b = m * k + n \<longleftrightarrow> a = m \<and> b = n"
proof
  assume eq: "a * k + b = m * k + n"
  have "a = (a * k + b) div k" "b = (a * k + b) mod k" using assms(1) by simp_all
  moreover have "m = (m * k + n) div k" "n = (m * k + n) mod k" using assms(2) by simp_all
  ultimately show "a = m \<and> b = n" unfolding eq by simp
qed simp

lemma octet_prefix:
  fixes b :: nat
  shows "b div 2 = 9 \<longleftrightarrow> b = 18 \<or> b = 19" "b div 16 = 1 \<longleftrightarrow> 16 \<le> b \<and> b \<le> 31" "b div 64 = 1 \<longleftrightarrow> 64 \<le> b \<and> b < 128"
    "b div 16 = 14 \<longleftrightarrow> 224 \<le> b \<and> b \<le> 239" "b div 16 = 15 \<longleftrightarrow> 240 \<le> b \<and> b < 256"
  by (auto simp: div_nat_eqI)

text \<open>A block at each of the prefix lengths in use, on the octets.\<close>

lemma in_block_octets:
  "n < 256 \<Longrightarrow> p < 256 \<Longrightarrow> in_block (m, n, p, 0) 24 (Ipv4 a b c d) \<longleftrightarrow> unat a = m \<and> unat b = n \<and> unat c = p"
  "n < 256 \<Longrightarrow> in_block (m, n, 0, 0) 16 (Ipv4 a b c d) \<longleftrightarrow> unat a = m \<and> unat b = n"
  "in_block (m, 0, 0, 0) 8 (Ipv4 a b c d) \<longleftrightarrow> unat a = m"
  "in_block (m, 18, 0, 0) 15 (Ipv4 a b c d) \<longleftrightarrow> unat a = m \<and> (unat b = 18 \<or> unat b = 19)"
  "in_block (m, 16, 0, 0) 12 (Ipv4 a b c d) \<longleftrightarrow> unat a = m \<and> 16 \<le> unat b \<and> unat b \<le> 31"
  "in_block (m, 64, 0, 0) 10 (Ipv4 a b c d) \<longleftrightarrow> unat a = m \<and> 64 \<le> unat b \<and> unat b < 128"
  "in_block (224, 0, 0, 0) 4 (Ipv4 a b c d) \<longleftrightarrow> 224 \<le> unat a \<and> unat a \<le> 239"
  "in_block (240, 0, 0, 0) 4 (Ipv4 a b c d) \<longleftrightarrow> 240 \<le> unat a"
  "in_block (0, 0, 0, 0) 32 (Ipv4 a b c d) \<longleftrightarrow> unat a = 0 \<and> unat b = 0 \<and> unat c = 0 \<and> unat d = 0"
proof -
  note lt = octet_less [of a] octet_less [of b] octet_less [of c] octet_less [of d]
  have "unat b div 2 < 128" "unat b div 16 < 16" "unat b div 64 < 4"
    using lt(2) by (simp_all add: less_mult_imp_div_less)
  note digits = this [THEN pair_digits]
  note simps = in_block_quad quad_prefixes lt
  show "in_block (m, n, p, 0) 24 (Ipv4 a b c d) \<longleftrightarrow> unat a = m \<and> unat b = n \<and> unat c = p" if "n < 256" "p < 256"
    using that pair_digits [OF lt(3) that(2), of "unat a * 256 + unat b" "m * 256 + n"] pair_digits [OF lt(2) that(1)]
    by (simp add: simps)
  show "in_block (m, n, 0, 0) 16 (Ipv4 a b c d) \<longleftrightarrow> unat a = m \<and> unat b = n" if "n < 256"
    using that by (simp add: simps pair_digits)
  show "in_block (m, 0, 0, 0) 8 (Ipv4 a b c d) \<longleftrightarrow> unat a = m" by (simp add: simps)
  show "in_block (m, 18, 0, 0) 15 (Ipv4 a b c d) \<longleftrightarrow> unat a = m \<and> (unat b = 18 \<or> unat b = 19)"
    using digits(1) [of 9 "unat a" m] by (simp add: simps octet_prefix octet_prefix [simplified])
  show "in_block (m, 16, 0, 0) 12 (Ipv4 a b c d) \<longleftrightarrow> unat a = m \<and> 16 \<le> unat b \<and> unat b \<le> 31"
    using digits(2) [of 1 "unat a" m] by (simp add: simps octet_prefix octet_prefix [simplified])
  show "in_block (m, 64, 0, 0) 10 (Ipv4 a b c d) \<longleftrightarrow> unat a = m \<and> 64 \<le> unat b \<and> unat b < 128"
    using digits(3) [of 1 "unat a" m] by (simp add: simps octet_prefix octet_prefix [simplified])
  show "in_block (224, 0, 0, 0) 4 (Ipv4 a b c d) \<longleftrightarrow> 224 \<le> unat a \<and> unat a \<le> 239"
    by (simp add: simps octet_prefix octet_prefix [simplified])
  show "in_block (240, 0, 0, 0) 4 (Ipv4 a b c d) \<longleftrightarrow> 240 \<le> unat a" by (simp add: simps octet_prefix octet_prefix [simplified])
  show "in_block (0, 0, 0, 0) 32 (Ipv4 a b c d) \<longleftrightarrow> unat a = 0 \<and> unat b = 0 \<and> unat c = 0 \<and> unat d = 0"
    by (auto simp: in_block_quad quad_def)
qed

lemma routable_v4_blocks:
  "is_publicly_routable_v4 x \<longleftrightarrow> (\<forall>(n, l) \<in> set BLOCKED. \<not> in_block n l x)"
proof (cases x)
  case (Ipv4 a b c d)
  have "\<not> is_publicly_routable_v4 x \<longleftrightarrow> (\<exists>(n, l) \<in> set BLOCKED. in_block n l x)"
    unfolding Ipv4 BLOCKED_def
    by (simp add: in_block_octets octet_numeral) (rule iffI; elim disjE conjE; simp)
  then show ?thesis by blast
qed

section \<open>Addresses inside addresses\<close>

text \<open>
  The IPv4 address a socket address reaches: itself, or the one an IPv6 address spells out as
  IPv4-mapped (RFC 4291), IPv4-compatible, 6to4 (RFC 3056) or Teredo (RFC 4380, complemented).
\<close>

definition seg :: "8 word \<Rightarrow> 8 word \<Rightarrow> 16 word" where
  "seg a b = push_bit 8 (ucast a) OR ucast b"

inductive spells :: "ip_addr \<Rightarrow> ipv4_addr \<Rightarrow> bool" where
  plain: "spells (V4 x) x"
| mapped: "spells (V6 (Ipv6 0 0 0 0 0 0xffff (seg a b) (seg c d))) (Ipv4 a b c d)"
| compatible: "seg a b \<noteq> 0 \<Longrightarrow> spells (V6 (Ipv6 0 0 0 0 0 0 (seg a b) (seg c d))) (Ipv4 a b c d)"
| six_to_four: "spells (V6 (Ipv6 0x2002 (seg a b) (seg c d) s3 s4 s5 s6 s7)) (Ipv4 a b c d)"
| teredo: "spells (V6 (Ipv6 0x2001 0 s2 s3 s4 s5 (NOT (seg a b)) (NOT (seg c d)))) (Ipv4 a b c d)"

lemma v4_of_seg [simp]: "v4_of_segments (seg a b) (seg c d) = Ipv4 a b c d"
proof -
  have hi: "ucast (drop_bit 8 (seg a b)) = a" for a b
    by (rule bit_word_eqI) (auto simp: seg_def bit_simps dest: bit_imp_le_length)
  have lo: "ucast (seg a b AND 0xff) = b" for a b
  proof -
    have mask: "(0xff :: 16 word) = mask 8" by (simp add: mask_eq_exp_minus_1)
    show ?thesis unfolding mask by (rule bit_word_eqI) (auto simp: seg_def bit_simps)
  qed
  show ?thesis by (simp add: v4_of_segments_def hi lo)
qed

lemma spells_routable:
  assumes "spells ip x" "is_publicly_routable ip"
  shows "is_publicly_routable_v4 x"
  using assms by (cases rule: spells.cases) (auto split: option.splits)

lemma local_name_of_name:
  "is_local_host_with host parse \<Longrightarrow> parse host = None \<Longrightarrow>
     eq_ignore_ascii_case host ''localhost'' \<or> ends_with_ignore_ascii_case host ''.localhost''"
  by (auto simp: is_local_host_with_def split: if_splits)

lemma authorized_routable:
  assumes "authorize_resolved_address_with host ip False parse = Ok ()"
    "\<not> is_local_host_with host parse \<or> parse host \<noteq> None"
  shows "is_publicly_routable ip"
  using assms by (auto simp: authorize_resolved_address_with_def split: option.splits if_splits)



text \<open>
  A loopback name connects to the machine itself and to nothing else, whether or not the
  target was typed by the user: any other answer of the resolver is a security violation that
  names the host and the address.
\<close>

lemma loopback_name_stays_local:
  assumes "eq_ignore_ascii_case host ''localhost'' \<or> ends_with_ignore_ascii_case host ''.localhost''" "parse host = None"
  shows "authorize_resolved_address_with host ip private parse =
     (if is_loopback ip then Ok () else Err (SecurityViolation (violation_loopback_name host ip)))"
  using assms by (simp add: authorize_resolved_address_with_def is_local_host_with_def)

text \<open>
  The NAT64 prefix \<^verbatim>\<open>64:ff9b::/96\<close> (RFC 6052) is not among the forms that are unwrapped: a
  public name that resolves to the NAT64 spelling of 127.0.0.1 or of the metadata service
  169.254.169.254 is authorized.
\<close>

lemma nat64_not_unwrapped:
  "embedded_ipv4 (Ipv6 0x64 0xff9b 0 0 0 0 (seg a b) (seg c d)) = None"
  "authorize_resolved_address_with ''a.dev'' (V6 (Ipv6 0x64 0xff9b 0 0 0 0 (seg 169 254) (seg 169 254))) False (\<lambda>_. None) = Ok ()"
  by (simp, code_simp)

end
