(* ===== verification/Mizu_Quota.thy ===== *)
theory Mizu_Quota
  imports Mizu_Network
begin

text \<open>
  The \<^verbatim>\<open>mizu://\<close> address of \<^verbatim>\<open>core/uri\<close> and the storage budget of \<^verbatim>\<open>security/quota.rs\<close>:
  the ledger of bytes per origin that every tab shares, and the policy of one page load.
  The \<^verbatim>\<open>url\<close> crate is the argument \<open>url_parse\<close>, which yields the components of an address
  or the text of its error, and \<open>parse_literal\<close>, the parse of a host as an address. The
  clock is an argument too: a reading is a number of nanoseconds. Sizes are machine words
  that only ever saturate, so they are numbers with the saturation written out.
\<close>

section \<open>Addresses\<close>

record url_parts =
  u_scheme :: string
  u_host :: "string option"
  u_username :: string
  u_password :: "string option"
  u_port :: "nat option"
  u_path :: string
  u_query :: "string option"

type_synonym url_parser = "string \<Rightarrow> string + url_parts"

record mizu_uri =
  uri_domain :: string
  uri_path :: string

definition uri_parse :: "url_parser \<Rightarrow> string \<Rightarrow> mizu_uri outcome" where
  "uri_parse url_parse uri =
     (if list_ex (\<lambda>b. (of_char b :: nat) < 0x20 \<or> (of_char b :: nat) = 0x7f) uri
      then Err (Network ''mizu:// URI contains control characters'')
      else case url_parse uri of
        Inl e \<Rightarrow> Err (Network (''invalid mizu:// URI: '' @ e))
      | Inr parsed \<Rightarrow>
          if u_scheme parsed \<noteq> ''mizu'' then Err (Network ''URI must use the mizu:// scheme'')
          else if u_host parsed = None \<or> u_host parsed = Some [] then Err (Network ''Empty domain in mizu:// URI'')
          else if u_username parsed \<noteq> [] \<or> u_password parsed \<noteq> None
          then Err (Network ''mizu:// domain must not contain credentials'')
          else if u_port parsed \<noteq> None then Err (Network ''mizu:// domain must not contain a port'')
          else Ok \<lparr>uri_domain = the (u_host parsed),
                   uri_path = (if u_path parsed = [] then ''/''
                               else case u_query parsed of
                                 Some q \<Rightarrow> u_path parsed @ ''?'' @ q
                               | None \<Rightarrow> u_path parsed)\<rparr>)"

section \<open>The ledger\<close>

definition STORAGE_QUOTA_BYTES_REMOTE :: nat where
  "STORAGE_QUOTA_BYTES_REMOTE = 512 * 1024"

definition STORAGE_QUOTA_BYTES_LOCAL_FILE :: nat where
  "STORAGE_QUOTA_BYTES_LOCAL_FILE = 1024 * 1024"

definition STORAGE_QUOTA_BYTES_LOCALHOST :: nat where
  "STORAGE_QUOTA_BYTES_LOCALHOST = 10 * 1024 * 1024"

definition STORAGE_RATE_LIMIT_WRITES_PER_SEC :: nat where
  "STORAGE_RATE_LIMIT_WRITES_PER_SEC = 10"

type_synonym usage_ledger = "string \<rightharpoonup> nat"

definition bytes_used :: "usage_ledger \<Rightarrow> string \<Rightarrow> nat" where
  "bytes_used ledger origin_key = (case ledger origin_key of Some n \<Rightarrow> n | None \<Rightarrow> 0)"

definition with_total :: "usage_ledger \<Rightarrow> string \<Rightarrow> (nat \<Rightarrow> 'r \<times> nat) \<Rightarrow> 'r \<times> usage_ledger" where
  "with_total ledger origin_key decide =
     (case decide (bytes_used ledger origin_key) of (r, t) \<Rightarrow> (r, ledger(origin_key \<mapsto> t)))"

section \<open>The policy of a page load\<close>

record capability_policy =
  origin_key :: string
  quota_bytes :: nat
  write_count_this_second :: nat
  window_start :: nat

definition policy_new ::
  "url_parser \<Rightarrow> (string \<Rightarrow> ip_addr option) \<Rightarrow> nat \<Rightarrow> string \<Rightarrow> string \<Rightarrow> capability_policy" where
  "policy_new url_parse parse_literal now chrome_url key =
     \<lparr>origin_key = key,
      quota_bytes =
        (if prefix ''file://'' chrome_url then STORAGE_QUOTA_BYTES_LOCAL_FILE
         else case uri_parse url_parse chrome_url of
           Ok uri \<Rightarrow>
             if is_local_host_with (uri_domain uri) parse_literal then STORAGE_QUOTA_BYTES_LOCALHOST
             else STORAGE_QUOTA_BYTES_REMOTE
         | Fail _ \<Rightarrow> STORAGE_QUOTA_BYTES_REMOTE),
      write_count_this_second = 0,
      window_start = now\<rparr>"

definition bytes_stored :: "usage_ledger \<Rightarrow> capability_policy \<Rightarrow> nat" where
  "bytes_stored ledger p = bytes_used ledger (origin_key p)"

definition rate_limit_message :: string where
  "rate_limit_message =
     ''storage rate limit exceeded: max '' @ show_nat STORAGE_RATE_LIMIT_WRITES_PER_SEC @ '' writes/s''"

definition quota_message :: "nat \<Rightarrow> nat \<Rightarrow> string" where
  "quota_message new_total quota = ''storage quota exceeded: '' @ show_nat new_total @ '' / '' @ show_nat quota @ '' bytes''"

text \<open>The decision: the verdict and the write count, and the running total.\<close>

definition check_write_budget :: "nat \<Rightarrow> nat \<Rightarrow> nat \<Rightarrow> bool \<Rightarrow> nat \<Rightarrow> (unit outcome \<times> nat) \<times> nat" where
  "check_write_budget used quota writes window_expired byte_count =
     (let count = (if window_expired then 0 else writes) in
      if count \<ge> STORAGE_RATE_LIMIT_WRITES_PER_SEC
      then ((Err (SecurityViolation rate_limit_message), count), used)
      else let new_total = sat_add used byte_count in
        if new_total > quota
        then ((Err (SecurityViolation (quota_message new_total quota)), count), used)
        else ((Ok (), count + 1), new_total))"

text \<open>
  The clock is read twice: \<open>now\<close> decides whether the window is over, \<open>now'\<close> starts the next.
\<close>

definition check_storage_write ::
  "nat \<Rightarrow> nat \<Rightarrow> usage_ledger \<Rightarrow> capability_policy \<Rightarrow> nat \<Rightarrow> unit outcome \<times> usage_ledger \<times> capability_policy" where
  "check_storage_write now now' ledger p byte_count =
     (let window_expired = (now - window_start p) div 1000000000 \<ge> 1;
          start = (if window_expired then now' else window_start p)
      in case with_total ledger (origin_key p)
                (\<lambda>used. check_write_budget used (quota_bytes p) (write_count_this_second p) window_expired byte_count)
         of ((res, count), ledger') \<Rightarrow>
              (res, ledger', p\<lparr>write_count_this_second := count, window_start := start\<rparr>))"

section \<open>Tabs over one ledger\<close>

text \<open>
  What happens to the budgets over the life of a window: a tab navigates and gets a fresh
  policy (\<^verbatim>\<open>capability_policy_for\<close>), or its document asks to store. The system keeps the
  log of what was accepted: the origin charged, the tab, the time and the size.
\<close>

datatype quota_event =
    Opens nat string string nat
  | Stores nat nat nat nat

record accepted_write =
  aw_key :: string
  aw_bytes :: nat

record quota_system =
  sys_ledger :: usage_ledger
  sys_tabs :: "nat \<rightharpoonup> capability_policy"
  sys_log :: "accepted_write list"

definition system_new :: quota_system where
  "system_new = \<lparr>sys_ledger = Map.empty, sys_tabs = Map.empty, sys_log = []\<rparr>"

fun quota_step :: "url_parser \<Rightarrow> (string \<Rightarrow> ip_addr option) \<Rightarrow> quota_event \<Rightarrow> quota_system \<Rightarrow> quota_system" where
  "quota_step up pl (Opens tab url key now) s =
     s\<lparr>sys_tabs := (sys_tabs s)(tab \<mapsto> policy_new up pl now url key)\<rparr>"
| "quota_step up pl (Stores tab n now now') s =
     (case sys_tabs s tab of
        None \<Rightarrow> s
      | Some p \<Rightarrow>
          (case check_storage_write now now' (sys_ledger s) p n of (res, ledger', p') \<Rightarrow>
             s\<lparr>sys_ledger := ledger', sys_tabs := (sys_tabs s)(tab \<mapsto> p'),
               sys_log := (if is_ok res then sys_log s @ [\<lparr>aw_key = origin_key p, aw_bytes = n\<rparr>] else sys_log s)\<rparr>))"

definition quota_run ::
  "url_parser \<Rightarrow> (string \<Rightarrow> ip_addr option) \<Rightarrow> quota_event list \<Rightarrow> quota_system \<Rightarrow> quota_system" where
  "quota_run up pl es s = fold (quota_step up pl) es s"

text \<open>The writes of one page load, in order, with the verdict of each.\<close>

fun store_run ::
  "(nat \<times> nat \<times> nat) list \<Rightarrow> usage_ledger \<Rightarrow> capability_policy \<Rightarrow> unit outcome list \<times> usage_ledger \<times> capability_policy" where
  "store_run [] ledger p = ([], ledger, p)"
| "store_run ((n, now, now') # ws) ledger p =
     (case check_storage_write now now' ledger p n of (res, ledger', p') \<Rightarrow>
        (case store_run ws ledger' p' of (rs, rest) \<Rightarrow> (res # rs, rest)))"

section \<open>The decision\<close>

lemmas quota_consts = STORAGE_QUOTA_BYTES_REMOTE_def STORAGE_QUOTA_BYTES_LOCAL_FILE_def
  STORAGE_QUOTA_BYTES_LOCALHOST_def STORAGE_RATE_LIMIT_WRITES_PER_SEC_def u64_max_def

lemma bytes_used_upd [simp]: "bytes_used (l(k \<mapsto> n)) j = (if j = k then n else bytes_used l j)"
  by (simp add: bytes_used_def)

definition expired :: "nat \<Rightarrow> capability_policy \<Rightarrow> bool" where
  "expired now p \<longleftrightarrow> now \<ge> window_start p + 1000000000"

text \<open>Whether a write has a place left in its window, and whether it fits into the quota.\<close>

definition in_rate :: "nat \<Rightarrow> capability_policy \<Rightarrow> bool" where
  "in_rate now p \<longleftrightarrow> expired now p \<or> write_count_this_second p < STORAGE_RATE_LIMIT_WRITES_PER_SEC"

definition fits :: "usage_ledger \<Rightarrow> capability_policy \<Rightarrow> nat \<Rightarrow> bool" where
  "fits l p n \<longleftrightarrow> bytes_stored l p + n \<le> quota_bytes p"

definition policy_ok :: "capability_policy \<Rightarrow> bool" where
  "policy_ok p \<longleftrightarrow> quota_bytes p < u64_max \<and> write_count_this_second p \<le> STORAGE_RATE_LIMIT_WRITES_PER_SEC"

lemma policy_new_ok [simp]: "policy_ok (policy_new up pl now url key)"
  by (auto simp: policy_ok_def policy_new_def quota_consts split: outcome.splits)

lemma quota_lt_sat_add: "q < u64_max \<Longrightarrow> q < sat_add a b \<longleftrightarrow> \<not> a + b \<le> q"
  by (auto simp: sat_add_def)

lemma window_div: "(now - window_start p) div 1000000000 \<ge> 1 \<longleftrightarrow> expired now p"
  unfolding expired_def using div_greater_zero_iff [of "now - window_start p" 1000000000] by auto

lemma check_storage_write_eq:
  assumes "policy_ok p"
  shows "check_storage_write now now' l p n =
    (let count = (if expired now p then 0 else write_count_this_second p);
         p' = p\<lparr>write_count_this_second := count, window_start := (if expired now p then now' else window_start p)\<rparr>;
         used = bytes_stored l p
     in if \<not> in_rate now p
        then (Err (SecurityViolation rate_limit_message), l(origin_key p \<mapsto> used), p')
        else if \<not> fits l p n
        then (Err (SecurityViolation (quota_message (sat_add used n) (quota_bytes p))), l(origin_key p \<mapsto> used), p')
        else (Ok (), l(origin_key p \<mapsto> used + n), p'\<lparr>write_count_this_second := count + 1\<rparr>))"
proof -
  have quota: "quota_bytes p < u64_max" using assms by (simp add: policy_ok_def)
  have fit: "quota_bytes p < sat_add (bytes_stored l p) n \<longleftrightarrow> \<not> fits l p n"
    unfolding fits_def by (rule quota_lt_sat_add [OF quota])
  have sum: "sat_add (bytes_stored l p) n = bytes_stored l p + n" if "fits l p n"
    using that quota unfolding fits_def by (simp add: sat_add_def)
  have pos: "0 < STORAGE_RATE_LIMIT_WRITES_PER_SEC" by (simp add: quota_consts)
  show ?thesis
    unfolding check_storage_write_def window_div with_total_def check_write_budget_def bytes_stored_def [symmetric]
    using pos fit sum by (cases "fits l p n") (auto simp: in_rate_def Let_def)
qed

lemma check_storage_write_cases:
  assumes ok: "policy_ok p" and run: "check_storage_write now now' l p n = (res, l', p')"
  shows "is_ok res \<longleftrightarrow> in_rate now p \<and> fits l p n"
    and "bytes_used l' k = bytes_used l k + (if is_ok res \<and> k = origin_key p then n else 0)"
    and "policy_ok p'" "origin_key p' = origin_key p" "quota_bytes p' = quota_bytes p"
    and "window_start p' = (if expired now p then now' else window_start p)"
    and "write_count_this_second p' =
           (if expired now p then 0 else write_count_this_second p) + (if is_ok res then 1 else 0)"
proof -
  note eq = run [unfolded check_storage_write_eq [OF ok]]
  show "is_ok res \<longleftrightarrow> in_rate now p \<and> fits l p n" using eq by (auto simp: Let_def split: if_splits)
  show "bytes_used l' k = bytes_used l k + (if is_ok res \<and> k = origin_key p then n else 0)"
    using eq by (auto simp: Let_def bytes_stored_def split: if_splits)
  show "policy_ok p'"
    using eq ok by (auto simp: Let_def policy_ok_def in_rate_def quota_consts split: if_splits)
  show "origin_key p' = origin_key p" "quota_bytes p' = quota_bytes p"
    "window_start p' = (if expired now p then now' else window_start p)"
    "write_count_this_second p' =
       (if expired now p then 0 else write_count_this_second p) + (if is_ok res then 1 else 0)"
    using eq by (auto simp: Let_def split: if_splits)
qed

section \<open>The life of a window\<close>

definition charged :: "string \<Rightarrow> accepted_write list \<Rightarrow> nat" where
  "charged k log = sum_list (map aw_bytes (filter (\<lambda>w. aw_key w = k) log))"

lemma charged_simps [simp]:
  "charged k [] = 0"
  "charged k (log @ [w]) = charged k log + (if aw_key w = k then aw_bytes w else 0)"
  by (simp_all add: charged_def)

text \<open>
  The invariant: every policy is sound, the ledger is the sum of what was accepted, and the
  total of an origin is within \<open>Q\<close> if \<open>Q\<close> bounds the quota of every page load of it.
\<close>

definition quota_inv :: "(string \<Rightarrow> nat) \<Rightarrow> quota_system \<Rightarrow> bool" where
  "quota_inv Q s \<longleftrightarrow>
     (\<forall>p \<in> ran (sys_tabs s). policy_ok p \<and> quota_bytes p \<le> Q (origin_key p))
     \<and> (\<forall>k. bytes_used (sys_ledger s) k = charged k (sys_log s) \<and> charged k (sys_log s) \<le> Q k)"

fun opens_within :: "url_parser \<Rightarrow> (string \<Rightarrow> ip_addr option) \<Rightarrow> (string \<Rightarrow> nat) \<Rightarrow> quota_event \<Rightarrow> bool" where
  "opens_within up pl Q (Opens tab url key now) \<longleftrightarrow> quota_bytes (policy_new up pl now url key) \<le> Q key"
| "opens_within up pl Q (Stores tab n now now') \<longleftrightarrow> True"

lemma quota_inv_new [simp]: "quota_inv Q system_new"
  by (simp add: quota_inv_def system_new_def bytes_used_def)

lemma ran_upd_cases: "x \<in> ran (m(k \<mapsto> v)) \<Longrightarrow> x = v \<or> x \<in> ran m"
  by (auto simp: ran_def split: if_splits)

lemma quota_step_inv:
  assumes inv: "quota_inv Q s" and within: "opens_within up pl Q e"
  shows "quota_inv Q (quota_step up pl e s)"
proof (cases e)
  case (Opens tab url key now)
  have "policy_ok p \<and> quota_bytes p \<le> Q (origin_key p)" if "p \<in> ran ((sys_tabs s)(tab \<mapsto> policy_new up pl now url key))" for p
    using ran_upd_cases [OF that] inv within Opens by (auto simp: quota_inv_def policy_new_def [THEN arg_cong [of _ _ origin_key]])
  then show ?thesis using inv Opens by (auto simp: quota_inv_def)
next
  case (Stores tab n now now')
  show ?thesis
  proof (cases "sys_tabs s tab")
    case None
    then show ?thesis using inv Stores by simp
  next
    case (Some p)
    obtain res l' p' where run: "check_storage_write now now' (sys_ledger s) p n = (res, l', p')" by (rule prod_cases3)
    have p: "policy_ok p" "quota_bytes p \<le> Q (origin_key p)" using inv Some by (auto simp: quota_inv_def ran_def)
    note facts = check_storage_write_cases [OF p(1) run]
    have "policy_ok q \<and> quota_bytes q \<le> Q (origin_key q)" if "q \<in> ran ((sys_tabs s)(tab \<mapsto> p'))" for q
      using ran_upd_cases [OF that] inv p facts(3-5) by (auto simp: quota_inv_def)
    moreover have "bytes_used l' k \<le> Q k" for k
      using inv p facts(1) facts(2) [of k] by (auto simp: quota_inv_def fits_def bytes_stored_def)
    moreover have "charged k (if is_ok res then sys_log s @ [\<lparr>aw_key = origin_key p, aw_bytes = n\<rparr>] else sys_log s) = bytes_used l' k" for k
      using inv facts(2) [of k] by (auto simp: quota_inv_def)
    ultimately show ?thesis using Stores Some run by (simp add: quota_inv_def)
  qed
qed

lemma quota_run_inv: "quota_inv Q s \<Longrightarrow> list_all (opens_within up pl Q) es \<Longrightarrow> quota_inv Q (quota_run up pl es s)"
  unfolding quota_run_def by (induction es arbitrary: s) (auto intro: quota_step_inv)

text \<open>
  (C30) The quota belongs to the origin and not to the page: over any sequence of navigations
  and writes in any number of tabs, whatever is opened, closed over or reloaded in between,
  the bytes accepted for an origin in total stay within a bound \<open>Q\<close> on the quota of its pages,
  and the ledger holds exactly that total. A document gains nothing by navigating or by
  opening the same origin in a second tab.
\<close>

theorem quota_bounds_origin_total:
  assumes "list_all (opens_within up pl Q) es"
  defines "s \<equiv> quota_run up pl es system_new"
  shows "charged k (sys_log s) \<le> Q k \<and> bytes_used (sys_ledger s) k = charged k (sys_log s)"
  using quota_run_inv [OF quota_inv_new assms(1)] unfolding s_def quota_inv_def by simp

definition demo_url :: url_parser where
  "demo_url u = Inr \<lparr>u_scheme = ''mizu'', u_host = Some ''a.dev'', u_username = [], u_password = None, u_port = None,
                      u_path = ''/'', u_query = None\<rparr>"

lemma demo_policy:
  "policy_new demo_url (\<lambda>_. None) now ''mizu://a.dev/'' ''k'' =
     \<lparr>origin_key = ''k'', quota_bytes = 524288, write_count_this_second = 0, window_start = now\<rparr>"
proof -
  have "uri_parse demo_url ''mizu://a.dev/'' = Ok \<lparr>uri_domain = ''a.dev'', uri_path = ''/''\<rparr>" by code_simp
  moreover have "\<not> is_local_host_with ''a.dev'' (\<lambda>_. None)" by code_simp
  ultimately show ?thesis by (simp add: policy_new_def quota_consts)
qed

theorem quota_bounds_origin_total_witness:
  "(let es = [Opens 0 ''mizu://a.dev/'' ''k'' 0, Stores 0 400000 1 1, Opens 0 ''mizu://a.dev/'' ''k'' 2,
              Opens 1 ''mizu://a.dev/'' ''k'' 2, Stores 0 100000 3 3, Stores 1 100000 3 3];
        s = quota_run demo_url (\<lambda>_. None) es system_new
    in charged ''k'' (sys_log s) = 500000 \<and> charged ''k'' (sys_log s) \<le> 524288 \<and> bytes_used (sys_ledger s) ''k'' = 500000)"
proof -
  let ?es = "[Opens 0 ''mizu://a.dev/'' ''k'' 0, Stores 0 400000 1 1, Opens 0 ''mizu://a.dev/'' ''k'' 2,
              Opens 1 ''mizu://a.dev/'' ''k'' 2, Stores 0 100000 3 3, Stores 1 100000 3 3]"
  have "list_all (opens_within demo_url (\<lambda>_. None) (\<lambda>_. 524288)) ?es" by (simp add: demo_policy)
  note bound = quota_bounds_origin_total [OF this, of "''k''"]
  have "charged ''k'' (sys_log (quota_run demo_url (\<lambda>_. None) ?es system_new)) = 500000"
    by (simp add: quota_run_def system_new_def demo_policy check_storage_write_def with_total_def check_write_budget_def
        bytes_used_def sat_add_def charged_def quota_consts Let_def)
  with bound show ?thesis by (simp add: Let_def)
qed

section \<open>A page load\<close>

lemma store_run_within_window:
  assumes "policy_ok p" "\<forall>(n, now, now') \<in> set ws. \<not> expired now p" "store_run ws l p = (rs, l', p')"
  shows "length (filter is_ok rs) + write_count_this_second p \<le> STORAGE_RATE_LIMIT_WRITES_PER_SEC"
  using assms
proof (induction ws arbitrary: l p rs)
  case Nil
  then show ?case by (simp add: policy_ok_def)
next
  case (Cons w ws)
  obtain n now now' where w: "w = (n, now, now')" by (rule prod_cases3)
  obtain res l1 p1 where run: "check_storage_write now now' l p n = (res, l1, p1)" by (rule prod_cases3)
  obtain rs1 where rs: "rs = res # rs1" "store_run ws l1 p1 = (rs1, l', p')"
    using Cons.prems(3) w run by (auto split: prod.splits)
  note facts = check_storage_write_cases [OF Cons.prems(1) run]
  have live: "\<not> expired now p" using Cons.prems(2) w by simp
  then have "\<forall>(n, now, now') \<in> set ws. \<not> expired now p1"
    using Cons.prems(2) facts(6) by (auto simp: expired_def)
  with Cons.IH [OF facts(3) _ rs(2)] have "length (filter is_ok rs1) + write_count_this_second p1 \<le> STORAGE_RATE_LIMIT_WRITES_PER_SEC"
    by blast
  then show ?case using facts(7) live rs(1) by (auto split: if_splits)
qed

text \<open>Writes a second apart, each within what is left of the quota.\<close>

fun spaced :: "nat \<Rightarrow> (nat \<times> nat \<times> nat) list \<Rightarrow> bool" where
  "spaced t [] \<longleftrightarrow> True"
| "spaced t ((n, now, now') # ws) \<longleftrightarrow> t + 1000000000 \<le> now \<and> now \<le> now' \<and> spaced now' ws"

lemma store_run_spaced:
  assumes "policy_ok p" "spaced (window_start p) ws" "bytes_stored l p + sum_list (map fst ws) \<le> quota_bytes p"
    "store_run ws l p = (rs, l', p')"
  shows "list_all is_ok rs \<and> length rs = length ws \<and> bytes_stored l' p' = bytes_stored l p + sum_list (map fst ws)"
  using assms
proof (induction ws arbitrary: l p rs)
  case Nil
  then show ?case by simp
next
  case (Cons w ws)
  obtain n now now' where w: "w = (n, now, now')" by (rule prod_cases3)
  obtain res l1 p1 where run: "check_storage_write now now' l p n = (res, l1, p1)" by (rule prod_cases3)
  obtain rs1 where rs: "rs = res # rs1" "store_run ws l1 p1 = (rs1, l', p')"
    using Cons.prems(4) w run by (auto split: prod.splits)
  note facts = check_storage_write_cases [OF Cons.prems(1) run]
  have exp: "expired now p" "spaced now' ws" using Cons.prems(2) w by (auto simp: expired_def)
  have ok: "is_ok res" using facts(1) exp Cons.prems(3) w by (simp add: in_rate_def fits_def)
  have used: "bytes_stored l1 p1 = bytes_stored l p + n" using facts(2,4) ok by (simp add: bytes_stored_def)
  have "list_all is_ok rs1 \<and> length rs1 = length ws \<and> bytes_stored l' p' = bytes_stored l1 p1 + sum_list (map fst ws)"
  proof (rule Cons.IH [OF facts(3) _ _ rs(2)])
    show "spaced (window_start p1) ws" using facts(6) exp by simp
    show "bytes_stored l1 p1 + sum_list (map fst ws) \<le> quota_bytes p1" using used facts(5) Cons.prems(3) w by simp
  qed
  then show ?case using rs ok used w by simp
qed

text \<open>
  The rate limit is a hard ceiling: of the writes a page asks for before its current
  one-second window is over, at most ten are accepted, less what was already accepted in it.
\<close>

theorem window_write_limit:
  assumes "policy_ok p" "list_all (\<lambda>(n, now, now'). \<not> expired now p) ws"
  shows "length (filter is_ok (fst (store_run ws l p))) \<le> STORAGE_RATE_LIMIT_WRITES_PER_SEC - write_count_this_second p"
  using store_run_within_window [OF assms(1)] assms(2) by (cases "store_run ws l p") (fastforce simp: list_all_iff)

text \<open>A page of the demonstration origin.\<close>

definition demo_page :: capability_policy where
  "demo_page = policy_new demo_url (\<lambda>_. None) 0 ''mizu://a.dev/'' ''k''"

lemmas demo_run = demo_page_def demo_policy check_storage_write_def with_total_def check_write_budget_def bytes_used_def
  sat_add_def quota_consts

theorem window_write_limit_witness:
  "(let p = demo_page\<lparr>write_count_this_second := 9\<rparr>; rs = fst (store_run [(1, 5, 5), (2, 6, 6), (3, 7, 7)] Map.empty p)
    in map is_ok rs = [True, False, False] \<and> length (filter is_ok rs) \<le> 1)"
proof -
  let ?p = "demo_page\<lparr>write_count_this_second := 9\<rparr>"
  let ?ws = "[(1, 5, 5), (2, 6, 6), (3, 7, 7)] :: (nat \<times> nat \<times> nat) list"
  have "policy_ok ?p" "list_all (\<lambda>(n, now, now'). \<not> expired now ?p) ?ws"
    by (simp_all add: demo_page_def demo_policy expired_def policy_ok_def quota_consts)
  from window_write_limit [OF this, of Map.empty] have "length (filter is_ok (fst (store_run ?ws Map.empty ?p))) \<le> 1"
    by (simp add: quota_consts)
  moreover have "map is_ok (fst (store_run ?ws Map.empty ?p)) = [True, False, False]" by (simp add: demo_run)
  ultimately show ?thesis by (simp add: Let_def)
qed

text \<open>
  A document that stays within its budget is never refused: writes at least a second
  apart whose sizes together fit into what is left of the origin's quota are all accepted, and
  the total grows by exactly their sum.
\<close>

theorem spaced_writes_accepted:
  assumes "policy_ok p" "spaced (window_start p) ws" "bytes_stored l p + sum_list (map fst ws) \<le> quota_bytes p"
  shows "case store_run ws l p of (rs, l', p') \<Rightarrow>
     rs = replicate (length ws) (Ok ()) \<and> bytes_stored l' p' = bytes_stored l p + sum_list (map fst ws)"
proof -
  obtain rs l' p' where run: "store_run ws l p = (rs, l', p')" by (rule prod_cases3)
  have unit: "x = Ok ()" if "is_ok x" for x :: "unit outcome" using that by (cases x) simp_all
  have "rs = replicate (length ws) (Ok ())" if "list_all is_ok rs" "length rs = length ws"
    using that by (intro replicate_eqI) (auto simp: list_all_iff intro: unit)
  with run store_run_spaced [OF assms run] show ?thesis by simp
qed

theorem spaced_writes_accepted_witness:
  "fst (store_run [(500000, 1000000000, 1000000001), (24000, 2000000001, 2000000001)] Map.empty demo_page) = [Ok (), Ok ()]"
proof -
  have "case store_run [(500000, 1000000000, 1000000001), (24000, 2000000001, 2000000001)] Map.empty demo_page of (rs, l', p') \<Rightarrow>
     rs = [Ok (), Ok ()] \<and> bytes_stored l' p' = 524000"
    using spaced_writes_accepted [of demo_page "[(500000, 1000000000, 1000000001), (24000, 2000000001, 2000000001)]" Map.empty]
    by (simp add: demo_page_def demo_policy policy_ok_def quota_consts bytes_stored_def bytes_used_def)
  then show ?thesis by (simp split: prod.splits)
qed

text \<open>
  The window is fixed and not sliding: it only restarts with the first write after its end, so
  twenty writes are accepted within a nanosecond around the boundary.
\<close>

lemma check_storage_write_one:
  assumes "policy_ok p" "in_rate t p" "fits l p 1"
  shows "check_storage_write t t' l p 1 =
    (Ok (), l(origin_key p \<mapsto> Suc (bytes_stored l p)),
     p\<lparr>write_count_this_second := (if expired t p then 1 else Suc (write_count_this_second p)),
       window_start := (if expired t p then t' else window_start p)\<rparr>)"
  using assms by (simp add: check_storage_write_eq Let_def)

lemma store_run_burst:
  assumes "policy_ok p" "\<not> expired t p" "write_count_this_second p + m \<le> STORAGE_RATE_LIMIT_WRITES_PER_SEC"
    "bytes_stored l p + m \<le> quota_bytes p"
  shows "\<exists>l'. store_run (replicate m (1, t, t') @ ws) l p =
            (case store_run ws l' (p\<lparr>write_count_this_second := write_count_this_second p + m\<rparr>) of
               (rs, rest) \<Rightarrow> (replicate m (Ok ()) @ rs, rest))
          \<and> bytes_stored l' p = bytes_stored l p + m"
  using assms
proof (induction m arbitrary: l p)
  case 0
  then show ?case by (auto split: prod.splits)
next
  case (Suc m)
  let ?p = "p\<lparr>write_count_this_second := Suc (write_count_this_second p)\<rparr>"
  let ?l = "l(origin_key p \<mapsto> Suc (bytes_stored l p))"
  have run: "check_storage_write t t' l p 1 = (Ok (), ?l, ?p)"
    using check_storage_write_one [of p t l t'] Suc.prems by (simp add: in_rate_def fits_def)
  have "policy_ok ?p" "\<not> expired t ?p" "write_count_this_second ?p + m \<le> STORAGE_RATE_LIMIT_WRITES_PER_SEC"
    "bytes_stored ?l ?p + m \<le> quota_bytes ?p"
    using Suc.prems by (auto simp: policy_ok_def expired_def bytes_stored_def)
  from Suc.IH [OF this] obtain l' where ih: "store_run (replicate m (1, t, t') @ ws) ?l ?p =
      (case store_run ws l' (?p\<lparr>write_count_this_second := write_count_this_second ?p + m\<rparr>) of
         (rs, rest) \<Rightarrow> (replicate m (Ok ()) @ rs, rest))"
    and used: "bytes_stored l' ?p = bytes_stored ?l ?p + m" by blast
  have "bytes_stored l' p = bytes_stored l p + Suc m" using used by (simp add: bytes_stored_def)
  moreover have "store_run (replicate (Suc m) (1, t, t') @ ws) l p =
      (case store_run ws l' (p\<lparr>write_count_this_second := write_count_this_second p + Suc m\<rparr>) of
         (rs, rest) \<Rightarrow> (replicate (Suc m) (Ok ()) @ rs, rest))"
    using run ih by (simp split: prod.splits)
  ultimately show ?case by blast
qed

lemma twenty_writes_at_boundary:
  "fst (store_run (replicate 10 (1, 999999999, 999999999) @ (1, 1000000000, 1000000000) # replicate 9 (1, 1000000000, 1000000000))
      Map.empty demo_page) = replicate 10 (Ok ()) @ Ok () # replicate 9 (Ok ())"
proof -
  let ?late = "replicate 9 (1, 1000000000, 1000000000) :: (nat \<times> nat \<times> nat) list"
  let ?p = "demo_page\<lparr>write_count_this_second := 10\<rparr>" and ?q = "demo_page\<lparr>write_count_this_second := 1, window_start := 1000000000\<rparr>"
  note page = demo_page_def demo_policy policy_ok_def quota_consts bytes_stored_def bytes_used_def expired_def in_rate_def fits_def
  obtain l where first: "store_run (replicate 10 (1, 999999999, 999999999) @ (1, 1000000000, 1000000000) # ?late) Map.empty demo_page =
      (case store_run ((1, 1000000000, 1000000000) # ?late) l ?p of (rs, rest) \<Rightarrow> (replicate 10 (Ok ()) @ rs, rest))"
    and used: "bytes_stored l demo_page = 10"
    using store_run_burst [of demo_page 999999999 10 Map.empty 999999999 "(1, 1000000000, 1000000000) # ?late"]
    by (auto simp: page)
  let ?l = "l(''k'' \<mapsto> Suc (bytes_stored l ?p))"
  have next_write: "check_storage_write 1000000000 1000000000 l ?p 1 = (Ok (), ?l, ?q)"
    using check_storage_write_one [of ?p 1000000000 l 1000000000] used by (simp add: page)
  obtain l2 where "store_run (?late @ []) ?l ?q = (replicate 9 (Ok ()), l2, ?q\<lparr>write_count_this_second := 10\<rparr>)"
    using store_run_burst [of ?q 1000000000 9 ?l 1000000000 "[]"] used by (auto simp: page)
  then show ?thesis using first next_write by simp
qed

end
