(* ===== verification/Mizu_Broker.thy ===== *)
theory Mizu_Broker
  imports Mizu_Roundtrip Mizu_Quota
begin

text \<open>
  The browser side of a sandboxed worker and the worker's own loop: the broker's gate
  (\<^verbatim>\<open>render/security/broker.rs\<close>), the message loop of \<^verbatim>\<open>crates/worker\<close>, the synchronous host
  (\<^verbatim>\<open>worker_host/mod.rs\<close>) and the asynchronous bridge (\<^verbatim>\<open>worker_host/bridge.rs\<close>) in which a
  router thread queues events while a reader thread judges replies. The two threads share one
  mutex, so a run of the bridge is an interleaving of their critical sections; the worker is
  anything that produces frames.
\<close>

section \<open>The gate\<close>

datatype event_agency = UserGestureAgency | DocumentDriven

fun agency_of :: "ui_event \<Rightarrow> event_agency" where
  "agency_of (UiClick _) = UserGestureAgency"
| "agency_of (UiSubmitForm _ _) = UserGestureAgency"
| "agency_of (UiRootTimer _) = DocumentDriven"
| "agency_of (UiUpdateVariable _ _) = DocumentDriven"
| "agency_of (UiReload _) = DocumentDriven"
| "agency_of UiCloseTab = DocumentDriven"

definition is_user_gesture :: "event_agency \<Rightarrow> bool" where
  "is_user_gesture a \<longleftrightarrow> a = UserGestureAgency"

datatype action_origin = TrustedThread | SandboxedIpcWorker

definition lookup_endpoint :: "url_registry \<Rightarrow> nat \<Rightarrow> url_endpoint outcome" where
  "lookup_endpoint registry endpoint_symbol =
     ok_or (registry endpoint_symbol)
       (SecurityViolation (''sandboxed worker referenced endpoint alias '' @ show_nat endpoint_symbol
          @ '', which is not declared in this document's urls block''))"

fun show_agency :: "event_agency \<Rightarrow> string" where
  "show_agency UserGestureAgency = ''UserGesture''"
| "show_agency DocumentDriven = ''DocumentDriven''"

definition authorize_action ::
  "runtime_action \<Rightarrow> action_origin \<Rightarrow> string \<Rightarrow> url_registry \<Rightarrow> event_agency \<Rightarrow> runtime_action outcome" where
  "authorize_action act origin dmn registry agency =
     (if origin = TrustedThread then Ok act
      else case act of
        RResolvedCall _ url _ _ _ _ \<Rightarrow>
          Err (SecurityViolation (''sandboxed worker sent a pre-resolved network call to `'' @ url
            @ ''`; only NetworkCall (broker-resolved against the compile-time UrlRegistry) is accepted from an untrusted worker''))
      | RDownloadMedia url \<Rightarrow>
          Err (SecurityViolation (''sandboxed worker sent a pre-resolved media download for `'' @ url
            @ ''`; only DownloadAlias (broker-resolved against the compile-time UrlRegistry) is accepted from an untrusted worker''))
      | RNetworkCall mth endpoint_symbol payload path_param target_variable fmt headers \<Rightarrow>
          bindO (lookup_endpoint registry endpoint_symbol) (\<lambda>endpoint.
          bindO (resolve_endpoint_url dmn endpoint path_param) (\<lambda>url.
            Ok (RResolvedCall (method_as_str mth) url payload target_variable fmt headers)))
      | RDownloadAlias endpoint_symbol \<Rightarrow>
          bindO (lookup_endpoint registry endpoint_symbol) (\<lambda>endpoint. Ok (RDownloadMedia (raw_target endpoint)))
      | RNavigate url \<Rightarrow>
          if is_user_gesture agency then Ok (RNavigate url)
          else Err (SecurityViolation (''sandboxed worker requested Navigate to `'' @ url
            @ ''` without gate G1: the event the broker sent was '' @ show_agency agency
            @ '', not a Click or SubmitForm user gesture''))
      | other \<Rightarrow> Ok other)"

section \<open>The worker's message loop\<close>

definition EXIT_CLEAN :: nat where
  "EXIT_CLEAN = 0"

definition worker_reply ::
  "(mval \<Rightarrow> mval \<Rightarrow> bool) \<Rightarrow> wire_event \<Rightarrow> tab_session \<Rightarrow> wire_envelope outcome \<times> tab_session" where
  "worker_reply peq event s =
     (case rehydrate_ui_event event of
        Ok core_event \<Rightarrow>
          (case apply_event peq core_event s of
             (Ok None, s') \<Rightarrow> (Ok EnvNoOp, s')
           | (Ok (Some response), s') \<Rightarrow> (Ok (EnvOk (wire_of_response response)), s')
           | (Fail (Error e), s') \<Rightarrow> (Ok (EnvErr (wire_of_error e)), s')
           | (Fail f, s') \<Rightarrow> (Fail f, s'))
      | Fail (Error e) \<Rightarrow> (Ok (EnvErr (WEInternal (display_error e))), s)
      | Fail f \<Rightarrow> (Fail f, s))"

text \<open>The frames that arrive until the broker closes the channel, and the exit code.\<close>

fun worker_loop ::
  "(mval \<Rightarrow> mval \<Rightarrow> bool) \<Rightarrow> wire_event list \<Rightarrow> tab_session \<Rightarrow> wire_envelope list \<times> nat outcome" where
  "worker_loop peq [] s = ([], Ok EXIT_CLEAN)"
| "worker_loop peq (event # events) s =
     (if event = WCloseTab then ([], Ok EXIT_CLEAN)
      else case worker_reply peq event s of
        (Ok envelope, s') \<Rightarrow> (case worker_loop peq events s' of (out, code) \<Rightarrow> (envelope # out, code))
      | (Fail f, s') \<Rightarrow> ([], Fail f))"

definition worker_main :: "(mval \<Rightarrow> mval \<Rightarrow> bool) \<Rightarrow> wire_event list \<Rightarrow> wire_envelope list \<times> nat outcome" where
  "worker_main peq events = worker_loop peq events (defer_alias_resolution session_new)"

section \<open>Judging a reply\<close>

text \<open>\<^verbatim>\<open>{:?}\<close> of a worker's error.\<close>

fun debug_worker_error :: "wire_worker_error \<Rightarrow> string" where
  "debug_worker_error WETimeout = ''Timeout''"
| "debug_worker_error (WESecurityViolation msg) = ''SecurityViolation('' @ debug_string msg @ '')''"
| "debug_worker_error (WEExecutionError msg) = ''ExecutionError('' @ debug_string msg @ '')''"
| "debug_worker_error (WEInternal msg) = ''Internal('' @ debug_string msg @ '')''"

definition crash_protocol :: "string \<Rightarrow> mizu_error" where
  "crash_protocol msg = IpcError msg"

fun fault_text :: "fault \<Rightarrow> string" where
  "fault_text (Error e) = display_error e"
| "fault_text _ = []"

fun authorize_all :: "runtime_action list \<Rightarrow> event_agency \<Rightarrow> url_registry \<Rightarrow> string \<Rightarrow> runtime_action list" where
  "authorize_all [] agency registry dmn = []"
| "authorize_all (act # acts) agency registry dmn =
     (case authorize_action act SandboxedIpcWorker dmn registry agency of
        Ok a \<Rightarrow> a # authorize_all acts agency registry dmn
      | Fail _ \<Rightarrow> authorize_all acts agency registry dmn)"

record tab_policy =
  tp_pending :: "event_agency list"
  tp_registry :: url_registry
  tp_domain :: string

definition policy_empty :: tab_policy where
  "policy_empty = \<lparr>tp_pending = [], tp_registry = Map.empty, tp_domain = []\<rparr>"

text \<open>What the router does under the lock before it sends an event on.\<close>

definition queue_event :: "ui_event \<Rightarrow> tab_policy \<Rightarrow> tab_policy" where
  "queue_event event p =
     (let q = p\<lparr>tp_pending := tp_pending p @ [agency_of event]\<rparr>
      in case event of
           UiReload payload \<Rightarrow> q\<lparr>tp_registry := rp_url_registry payload, tp_domain := rp_document_domain payload\<rparr>
         | _ \<Rightarrow> q)"

text \<open>
  One turn of the reader: the message for the window if there is one, whether the reader goes
  on, and the policy.
\<close>

definition read_reply ::
  "wire_envelope \<Rightarrow> tab_policy \<Rightarrow> worker_response outcome option \<times> bool \<times> tab_policy" where
  "read_reply envelope p =
     (case tp_pending p of
        [] \<Rightarrow> (Some (Err (crash_protocol ''worker sent a reply with no event outstanding'')), False, p)
      | agency # rest \<Rightarrow>
          let p' = p\<lparr>tp_pending := rest\<rparr> in
          (case envelope of
             EnvNoOp \<Rightarrow> (None, True, p')
           | EnvErr e \<Rightarrow> (Some (Err (ExecutionError (debug_worker_error e))), True, p')
           | EnvHello _ \<Rightarrow>
               (Some (Err (crash_protocol ''worker replayed the Hello handshake frame mid-session'')), True, p')
           | EnvOk wire \<Rightarrow>
               (case rehydrate_worker_response wire of
                  Fail e \<Rightarrow> (Some (Err (crash_protocol (''malformed worker response: '' @ fault_text e))), True, p')
                | Ok response \<Rightarrow>
                    (Some (Ok (response\<lparr>runtime_actions := authorize_all (runtime_actions response) agency (tp_registry p) (tp_domain p),
                                        gesture := is_user_gesture agency\<rparr>)), True, p'))))"

section \<open>The bridge of one tab\<close>

text \<open>
  A step is a critical section of one of the threads: the router queues an event, or the reader
  takes a frame, whatever the worker made of it. The state also records the events queued and
  the number of frames read.
\<close>

datatype bridge_step = Queue ui_event | Frame wire_envelope

record bridge =
  br_policy :: tab_policy
  br_reading :: bool
  br_delivered :: "(nat \<times> worker_response outcome) list"
  br_events :: "ui_event list"
  br_frames :: nat

definition bridge_new :: bridge where
  "bridge_new = \<lparr>br_policy = policy_empty, br_reading = True, br_delivered = [], br_events = [], br_frames = 0\<rparr>"

fun bridge_do :: "bridge_step \<Rightarrow> bridge \<Rightarrow> bridge" where
  "bridge_do (Queue ev) b = b\<lparr>br_policy := queue_event ev (br_policy b), br_events := br_events b @ [ev]\<rparr>"
| "bridge_do (Frame envelope) b =
     (if \<not> br_reading b then b
      else case read_reply envelope (br_policy b) of (msg, go_on, p) \<Rightarrow>
        b\<lparr>br_policy := p, br_reading := go_on, br_frames := Suc (br_frames b),
          br_delivered := (case msg of Some m \<Rightarrow> br_delivered b @ [(br_frames b, m)] | None \<Rightarrow> br_delivered b)\<rparr>)"

definition bridge_run :: "bridge_step list \<Rightarrow> bridge" where
  "bridge_run steps = fold bridge_do steps bridge_new"

section \<open>The synchronous host\<close>

record authorized_response =
  ar_response :: worker_response
  ar_authorized :: "runtime_action list"
  ar_rejected :: "fault list"

fun split_authorized :: "runtime_action list \<Rightarrow> event_agency \<Rightarrow> url_registry \<Rightarrow> string \<Rightarrow> runtime_action list \<times> fault list" where
  "split_authorized [] agency registry dmn = ([], [])"
| "split_authorized (act # acts) agency registry dmn =
     (case split_authorized acts agency registry dmn of (ok, bad) \<Rightarrow>
        case authorize_action act SandboxedIpcWorker dmn registry agency of
          Ok a \<Rightarrow> (a # ok, bad)
        | Fail e \<Rightarrow> (ok, e # bad))"

text \<open>The part of \<^verbatim>\<open>dispatch_event\<close> after the round trip; \<open>Fail\<close> is a crash of the tab.\<close>

definition host_reply ::
  "ui_event \<Rightarrow> wire_envelope \<Rightarrow> url_registry \<Rightarrow> string \<Rightarrow> authorized_response option outcome" where
  "host_reply event envelope registry dmn =
     (if event = UiCloseTab then Ok None
      else case envelope of
        EnvNoOp \<Rightarrow> Ok None
      | EnvErr e \<Rightarrow>
          Ok (Some \<lparr>ar_response = \<lparr>mutated_variables = [], runtime_actions = [], gesture = False\<rparr>, ar_authorized = [],
                    ar_rejected = [Error (ExecutionError (debug_worker_error e))]\<rparr>)
      | EnvHello _ \<Rightarrow> Err (crash_protocol ''worker replayed the Hello handshake frame mid-session'')
      | EnvOk wire \<Rightarrow>
          (case rehydrate_worker_response wire of
             Fail e \<Rightarrow> Err (crash_protocol (''malformed worker response: '' @ fault_text e))
           | Ok response \<Rightarrow>
               (case split_authorized (runtime_actions response) (agency_of event) registry dmn of (ok, bad) \<Rightarrow>
                  Ok (Some \<lparr>ar_response = response, ar_authorized = ok, ar_rejected = bad\<rparr>))))"

section \<open>What the gate lets through\<close>

text \<open>
  An action the browser may carry out for a document with these endpoints, on an event of this
  agency: a call or a download only to a declared endpoint, a navigation only for a gesture,
  and nothing that still has to be resolved.
\<close>

fun admissible :: "url_registry \<Rightarrow> string \<Rightarrow> event_agency \<Rightarrow> runtime_action \<Rightarrow> bool" where
  "admissible reg dmn ag (RResolvedCall m url p tv f hs) \<longleftrightarrow>
     (\<exists>y ep pp. reg y = Some ep \<and> resolve_endpoint_url dmn ep pp = Ok url)"
| "admissible reg dmn ag (RDownloadMedia url) \<longleftrightarrow> (\<exists>y ep. reg y = Some ep \<and> url = raw_target ep)"
| "admissible reg dmn ag (RNavigate url) \<longleftrightarrow> ag = UserGestureAgency"
| "admissible reg dmn ag (RNetworkCall m y p pp tv f hs) \<longleftrightarrow> False"
| "admissible reg dmn ag (RDownloadAlias y) \<longleftrightarrow> False"
| "admissible reg dmn ag _ \<longleftrightarrow> True"

lemma lookup_endpoint_Ok: "lookup_endpoint reg y = Ok ep \<longleftrightarrow> reg y = Some ep"
  by (cases "reg y") (auto simp: lookup_endpoint_def)

lemma authorize_admissible: "authorize_action a SandboxedIpcWorker dmn reg ag = Ok b \<Longrightarrow> admissible reg dmn ag b"
  by (cases a) (auto simp: authorize_action_def bindO_Ok lookup_endpoint_Ok is_user_gesture_def split: if_splits, blast+)

lemma authorize_all_admissible: "list_all (admissible reg dmn ag) (authorize_all acts ag reg dmn)"
  by (induction acts) (auto split: outcome.splits dest: authorize_admissible)

lemma split_authorized_all: "fst (split_authorized acts ag reg dmn) = authorize_all acts ag reg dmn"
  by (induction acts) (auto split: outcome.splits prod.splits)

text \<open>The endpoints of the document loaded last.\<close>

definition last_reload :: "ui_event list \<Rightarrow> url_registry \<times> string" where
  "last_reload evs = fold (\<lambda>ev acc. case ev of UiReload p \<Rightarrow> (rp_url_registry p, rp_document_domain p) | _ \<Rightarrow> acc) evs (Map.empty, [])"

lemma last_reload_snoc:
  "last_reload (evs @ [ev]) = (case ev of UiReload p \<Rightarrow> (rp_url_registry p, rp_document_domain p) | _ \<Rightarrow> last_reload evs)"
  by (cases ev) (simp_all add: last_reload_def)

text \<open>
  Frame \<open>k\<close> was judged for event \<open>k\<close>, with the endpoints as of the first \<open>n\<close> events.
\<close>

definition judged :: "ui_event list \<Rightarrow> nat \<Rightarrow> worker_response \<Rightarrow> bool" where
  "judged evs k r \<longleftrightarrow> k < length evs \<and> gesture r = is_user_gesture (agency_of (evs ! k))
     \<and> (\<exists>n. k < n \<and> n \<le> length evs
          \<and> list_all (admissible (fst (last_reload (take n evs))) (snd (last_reload (take n evs))) (agency_of (evs ! k)))
              (runtime_actions r))"

definition bridge_inv :: "bridge \<Rightarrow> bool" where
  "bridge_inv b \<longleftrightarrow>
     (br_reading b \<longrightarrow> br_frames b \<le> length (br_events b)
        \<and> tp_pending (br_policy b) = map agency_of (drop (br_frames b) (br_events b)))
     \<and> (tp_registry (br_policy b), tp_domain (br_policy b)) = last_reload (br_events b)
     \<and> sorted_wrt (<) (map fst (br_delivered b)) \<and> (\<forall>k \<in> fst ` set (br_delivered b). k < br_frames b)
     \<and> (\<forall>k r. (k, Ok r) \<in> set (br_delivered b) \<longrightarrow> judged (br_events b) k r)"

lemma judged_append: "judged evs k r \<Longrightarrow> judged (evs @ es) k r"
  unfolding judged_def by (fastforce simp: nth_append)

lemma bridge_new_inv: "bridge_inv bridge_new"
  by (simp add: bridge_inv_def bridge_new_def policy_empty_def last_reload_def)

lemma queue_inv: "bridge_inv b \<Longrightarrow> bridge_inv (bridge_do (Queue ev) b)"
  by (auto simp: bridge_inv_def queue_event_def last_reload_snoc Let_def intro: judged_append split: ui_event.splits)

lemma read_reply_Ok:
  assumes "read_reply envelope p = (Some (Ok r), go_on, p')"
  obtains agency rest where "tp_pending p = agency # rest" "gesture r = is_user_gesture agency" "go_on"
    "p' = p\<lparr>tp_pending := rest\<rparr>" "list_all (admissible (tp_registry p) (tp_domain p) agency) (runtime_actions r)"
  using assms
  by (auto simp: read_reply_def Let_def authorize_all_admissible split: list.splits wire_envelope.splits outcome.splits)

lemma read_reply_policy:
  "read_reply envelope p = (msg, True, p') \<Longrightarrow> tp_pending p \<noteq> [] \<and> p' = p\<lparr>tp_pending := tl (tp_pending p)\<rparr>"
  "read_reply envelope p = (msg, False, p') \<Longrightarrow> p' = p"
  by (auto simp: read_reply_def Let_def split: list.splits wire_envelope.splits outcome.splits)

lemma frame_inv:
  assumes inv: "bridge_inv b"
  shows "bridge_inv (bridge_do (Frame envelope) b)"
proof (cases "br_reading b")
  case False
  then show ?thesis using inv by simp
next
  case True
  let ?p = "br_policy b" and ?k = "br_frames b" and ?evs = "br_events b"
  obtain msg go_on p' where r: "read_reply envelope ?p = (msg, go_on, p')" by (rule prod_cases3)
  have pend: "?k \<le> length ?evs" "tp_pending ?p = map agency_of (drop ?k ?evs)" using inv True by (simp_all add: bridge_inv_def)
  have reg: "tp_registry p' = tp_registry ?p" "tp_domain p' = tp_domain ?p"
    using r read_reply_policy by (cases go_on; fastforce)+
  have new: "judged ?evs ?k r'" if m: "msg = Some (Ok r')" for r'
  proof -
    obtain agency rest where a: "tp_pending ?p = agency # rest" "gesture r' = is_user_gesture agency"
        "list_all (admissible (tp_registry ?p) (tp_domain ?p) agency) (runtime_actions r')"
      using read_reply_Ok [OF r [unfolded m]] by metis
    have "?k < length ?evs" "agency = agency_of (?evs ! ?k)"
      using a(1) pend by (auto dest: nth_via_drop intro: ccontr)
    moreover have "last_reload ?evs = (tp_registry ?p, tp_domain ?p)" using inv by (simp add: bridge_inv_def)
    ultimately show ?thesis
      using a(2,3) unfolding judged_def by (intro conjI exI [of _ "length ?evs"]) auto
  qed
  have "go_on \<longrightarrow> Suc ?k \<le> length ?evs \<and> tp_pending p' = map agency_of (drop (Suc ?k) ?evs)"
    using r read_reply_policy(1) [of envelope ?p msg p'] pend by (cases "?k < length ?evs") (auto simp: drop_Suc tl_drop [symmetric] map_tl)
  then show ?thesis
    using inv True r reg new
    by (auto simp: bridge_inv_def sorted_wrt_append less_Suc_eq split: option.splits)
qed

lemma bridge_run_inv: "bridge_inv (bridge_run steps)"
proof -
  have "bridge_inv b \<Longrightarrow> bridge_inv (fold bridge_do steps b)" for b
  proof (induction steps arbitrary: b)
    case (Cons st steps)
    then show ?case by (cases st) (auto simp del: bridge_do.simps intro: queue_inv frame_inv)
  qed simp
  then show ?thesis unfolding bridge_run_def using bridge_new_inv by blast
qed

section \<open>Properties\<close>

text \<open>
  (C2) A compromised worker is contained: over every interleaving of the router and the reader,
  with frames of any content at any time, a response that reaches the window as frame \<open>k\<close> was
  judged with the agency of the \<open>k\<close>-th event the browser itself sent. It claims a gesture only
  if that event was a click or a form submission, navigates only then, and calls or downloads
  only what a document declares that the browser queued last at some time before the reply
  was read.
\<close>

theorem compromised_worker_contained:
  assumes "(k, Ok r) \<in> set (br_delivered (bridge_run steps))"
  shows "judged (br_events (bridge_run steps)) k r"
  using bridge_run_inv [of steps] assms by (simp add: bridge_inv_def)

definition forged_reply :: wire_envelope where
  "forged_reply = EnvOk \<lparr>wr_mutated_syms = [], wr_mutated_values = [],
     wr_runtime_actions = [WRNavigate ''mizu://evil.dev/'', WRResolvedCall ''GET'' ''mizu://evil.dev/'' None 0 WJson [] [], WRStoreLocal ''k'' WNull],
     wr_gesture = True\<rparr>"

lemma forged_reply_run:
  "br_delivered (bridge_run [Queue (UiRootTimer 0), Frame forged_reply]) =
     [(0, Ok \<lparr>mutated_variables = [], runtime_actions = [RStoreLocal ''k'' VNull], gesture = False\<rparr>)]"
  by (simp add: bridge_run_def bridge_new_def policy_empty_def queue_event_def read_reply_def forged_reply_def Let_def
      rehydrate_worker_response_def rehydrate_headers_def rehydrate_value.simps authorize_action_def is_user_gesture_def
      MAX_VALUE_DEPTH_def)

theorem compromised_worker_contained_witness:
  "judged (br_events (bridge_run [Queue (UiRootTimer 0), Frame forged_reply])) 0
     \<lparr>mutated_variables = [], runtime_actions = [RStoreLocal ''k'' VNull], gesture = False\<rparr>"
  by (rule compromised_worker_contained) (simp add: forged_reply_run)

text \<open>
  (C38) Gestures cannot be replayed: however many frames a worker sends, no more responses are
  accepted as carrying a user's gesture than there were clicks and submissions.
\<close>

theorem gestures_not_replayed:
  "length (filter (\<lambda>(k, m). \<exists>r. m = Ok r \<and> gesture r) (br_delivered (bridge_run steps)))
     \<le> length (filter (\<lambda>ev. agency_of ev = UserGestureAgency) (br_events (bridge_run steps)))"
proof -
  let ?b = "bridge_run steps"
  let ?del = "filter (\<lambda>(k, m). \<exists>r. m = Ok r \<and> gesture r) (br_delivered ?b)"
  let ?ks = "{k. k < length (br_events ?b) \<and> agency_of (br_events ?b ! k) = UserGestureAgency}"
  have inv: "bridge_inv ?b" by (rule bridge_run_inv)
  have sub: "set (map fst ?del) \<subseteq> ?ks"
    using inv by (auto simp: bridge_inv_def judged_def is_user_gesture_def)
  have dist: "distinct (map fst ?del)"
    using inv by (simp add: bridge_inv_def strict_sorted_iff distinct_map_filter)
  have "length ?del = length (map fst ?del)" by simp
  also have "\<dots> = card (set (map fst ?del))" by (rule distinct_card [OF dist, symmetric])
  also have "\<dots> \<le> card ?ks" by (rule card_mono [OF _ sub]) simp
  also have "\<dots> = length (filter (\<lambda>ev. agency_of ev = UserGestureAgency) (br_events ?b))"
    by (simp add: length_filter_conv_card)
  finally show ?thesis .
qed

fun queued_by_evaluator :: "runtime_action \<Rightarrow> bool" where
  "queued_by_evaluator (RResolvedCall _ _ _ _ _ _) \<longleftrightarrow> False"
| "queued_by_evaluator (RDownloadMedia _) \<longleftrightarrow> False"
| "queued_by_evaluator _ \<longleftrightarrow> True"

fun is_navigation :: "runtime_action \<Rightarrow> bool" where
  "is_navigation (RNavigate _) \<longleftrightarrow> True"
| "is_navigation _ \<longleftrightarrow> False"

lemma authorize_matches_resolve:
  assumes "\<not> defer_alias s" "queued_by_evaluator a" "ag = UserGestureAgency \<or> \<not> is_navigation a"
  shows "(case authorize_action a SandboxedIpcWorker (document_domain s) (url_registry s) ag of Ok b \<Rightarrow> filter (\<lambda>c. c \<noteq> RNone) [b] | Fail _ \<Rightarrow> [])
     = filter (\<lambda>c. c \<noteq> RNone) [fst (resolve_one_action s a)]"
  using assms
  by (cases a) (auto simp: authorize_action_def resolve_one_action_def lookup_endpoint_def is_user_gesture_def
      split: option.splits outcome.splits)

text \<open>
  (C28) Both architectures do the same: for the actions a document's evaluator can queue, the
  broker approves exactly what the session in the browser's own process resolves, on every
  event with a gesture and on every other as long as no navigation is among them. The
  placeholders of refused actions aside, the lists are equal.
\<close>

theorem broker_agrees_with_session:
  assumes "\<not> defer_alias s" "list_all queued_by_evaluator acts" "ag = UserGestureAgency \<or> \<not> list_ex is_navigation acts"
  shows "filter (\<lambda>a. a \<noteq> RNone) (authorize_all acts ag (url_registry s) (document_domain s))
     = filter (\<lambda>a. a \<noteq> RNone) (map (\<lambda>a. fst (resolve_one_action s a)) acts)"
  using assms(2,3)
proof (induction acts)
  case (Cons a acts)
  then show ?case
    using authorize_matches_resolve [OF assms(1), of a ag]
    by (cases "authorize_action a SandboxedIpcWorker (document_domain s) (url_registry s) ag") (auto split: if_splits)
qed simp

theorem broker_agrees_with_session_witness:
  "(let s = session_new\<lparr>url_registry := [4 \<mapsto> \<lparr>ep_kind = Api, raw_target = ''/items''\<rparr>], document_domain := ''a.dev''\<rparr>;
        acts = [RNetworkCall Get 4 None None 0 FJson [], RNetworkCall Get 5 None None 0 FJson [], RStoreLocal ''k'' VNull]
    in filter (\<lambda>a. a \<noteq> RNone) (authorize_all acts DocumentDriven (url_registry s) (document_domain s))
         = filter (\<lambda>a. a \<noteq> RNone) (map (\<lambda>a. fst (resolve_one_action s a)) acts))"
  unfolding Let_def by (rule broker_agrees_with_session) (simp_all add: session_new_def)

text \<open>
  A navigation the document's logic asks for without a gesture never reaches the navigation
  policy through the broker, not even within the origin, where the policy allows it.
\<close>

lemma document_navigation_refused:
  "authorize_all [RNavigate ''mizu://a.dev/next''] DocumentDriven reg dmn = []"
  "check_navigation ''mizu://a.dev/'' ''mizu://a.dev/next'' DocumentLogic = Allow ''mizu://a.dev/next''"
  by (simp add: authorize_action_def is_user_gesture_def, code_simp)

section \<open>Refusals are errors\<close>

text \<open>A computation that may be refused but cannot panic.\<close>

definition tidy :: "'a outcome \<Rightarrow> bool" where
  "tidy m \<longleftrightarrow> (\<forall>e. m = Fail e \<longrightarrow> clean e)"

lemma tidy_basic [simp]: "tidy (Ok v)" "tidy (perr msg)" "tidy (ok_or x err)"
  by (auto simp: tidy_def perr_def ok_or_def split: option.splits)

lemma tidy_bind: "tidy m \<Longrightarrow> (\<And>v. m = Ok v \<Longrightarrow> tidy (f v)) \<Longrightarrow> tidy (bindO m f)"
  by (cases m) (auto simp: tidy_def)

lemma tidy_mapO: "(\<And>x. tidy (f x)) \<Longrightarrow> tidy (mapO f xs)"
  by (induction xs) (auto intro!: tidy_bind)

lemma tidy_pairO: "(\<And>x. tidy (f x)) \<Longrightarrow> tidy (pairO f p)"
  by (auto simp: pairO_def intro!: tidy_bind)

lemma tidy_optO: "(\<And>x. tidy (f x)) \<Longrightarrow> tidy (optO f x)"
  by (cases x) (auto intro!: tidy_bind)

lemmas tidy_intros = tidy_bind tidy_mapO tidy_pairO tidy_optO

lemma tidy_value: "tidy (rehydrate_value w d)" "tidy (rehydrate_items ws d)" "tidy (rehydrate_fields fs d)"
proof (induction w d and ws d and fs d rule: rehydrate_value_rehydrate_items_rehydrate_fields.induct)
  case (1 w d)
  then show ?case by (auto simp: rehydrate_value.simps [of w d] intro!: tidy_bind split: wire_value.splits)
qed (auto intro!: tidy_bind)

lemma tidy_type: "tidy (rehydrate_value_type w d)" "tidy (rehydrate_type_fields ns ts d)"
proof (induction w d and ns ts d rule: rehydrate_value_type_rehydrate_type_fields.induct)
  case (1 w d)
  then show ?case by (auto simp: rehydrate_value_type.simps [of w d] intro!: tidy_bind split: wire_type.splits)
qed (auto intro!: tidy_bind)

lemma tidy_validate: "tidy (validate_references ar)"
proof -
  have ref: "tidy (check_ref n i what at)" for n i what at by (simp add: check_ref_def tidy_def)
  have node: "tidy (check_node n k at e)" for n k at e by (cases e) (auto intro!: tidy_bind ref simp: tidy_def [of "Err _"])
  have "tidy (check_nodes n k at es)" for n k at es by (induction es arbitrary: at) (auto intro!: tidy_bind node)
  moreover have "tidy (check_pool n at ids)" for n at ids by (induction ids arbitrary: at) (auto simp: tidy_def)
  ultimately show ?thesis by (auto simp: validate_references_def Let_def intro!: tidy_bind)
qed

lemma tidy_tree: "tidy (rehydrate_expr_tree w)"
proof -
  have "tidy (rehydrate_pool ids)" for ids
    by (auto simp: rehydrate_pool_def push_args_def tidy_def arena_new_def perr_def split: if_splits)
  moreover have expr: "tidy (rehydrate_expr e)" for e by (cases e) (auto intro!: tidy_bind tidy_value)
  moreover have "tidy (rehydrate_nodes i ws ar)" for i ws ar
    by (induction ws arbitrary: i ar) (auto intro!: tidy_bind expr split: prod.splits)
  ultimately show ?thesis by (auto simp: rehydrate_expr_tree_def Let_def intro!: tidy_bind tidy_validate)
qed

lemma tidy_action: "tidy (rehydrate_action w)"
  by (cases w) (auto intro!: tidy_intros tidy_tree)

lemma tidy_function: "tidy (rehydrate_mizu_function w)"
  by (auto simp: rehydrate_mizu_function_def intro!: tidy_intros tidy_tree tidy_type)

lemma tidy_binding: "tidy (rehydrate_computed_binding w)"
  by (auto simp: rehydrate_computed_binding_def intro!: tidy_bind tidy_tree)

lemma tidy_payload: "tidy (rehydrate_reload_payload w)"
  unfolding rehydrate_reload_payload_def Let_def zip_len_def check_sym_def
  by (intro tidy_bind tidy_mapO; auto intro!: tidy_intros tidy_action tidy_function tidy_binding tidy_value split: prod.splits)

lemma tidy_event: "tidy (rehydrate_ui_event w)"
  by (cases w) (auto intro!: tidy_intros tidy_value tidy_payload)

section \<open>The protocol\<close>

definition frame_ordered :: "wire_event \<Rightarrow> bool" where
  "frame_ordered w \<longleftrightarrow> (\<forall>ev. rehydrate_ui_event w = Ok ev \<longrightarrow> event_ordered ev)"

lemma worker_reply_ok:
  assumes "reaches peq s" "frame_ordered w"
  obtains envelope s' where "worker_reply peq w s = (Ok envelope, s')" "reaches peq s'"
proof (cases "rehydrate_ui_event w")
  case (Ok ev)
  obtain r s' where r: "apply_event peq ev s = (r, s')" by fastforce
  have wf: "event_wf ev" using Ok assms(2) rehydrate_event_wf by (auto simp: frame_ordered_def)
  have "reaches peq s'" using reaches.event [OF assms(1) wf r] .
  moreover have "\<forall>e. r = Fail e \<longrightarrow> clean e" using apply_event_safe [OF reaches_inv [OF assms(1)] wf r] by (auto split: outcome.splits)
  ultimately show ?thesis
    using that Ok r by (cases r; cases "case r of Ok x \<Rightarrow> x | Fail _ \<Rightarrow> None") (auto simp: worker_reply_def clean_def)
next
  case (Fail e)
  then show ?thesis using that [OF _ assms(1)] tidy_event [of w] by (auto simp: worker_reply_def tidy_def clean_def)
qed

lemma worker_loop_answers:
  assumes "reaches peq s" "list_all frame_ordered ws"
  shows "\<exists>out. worker_loop peq ws s = (out, Ok EXIT_CLEAN) \<and> length out = length (takeWhile (\<lambda>w. w \<noteq> WCloseTab) ws)"
  using assms
proof (induction ws arbitrary: s)
  case (Cons w ws)
  obtain envelope s' where r: "worker_reply peq w s = (Ok envelope, s')" "reaches peq s'"
    using worker_reply_ok [of peq s w] Cons.prems by auto
  obtain out where "worker_loop peq ws s' = (out, Ok EXIT_CLEAN)" "length out = length (takeWhile (\<lambda>w. w \<noteq> WCloseTab) ws)"
    using Cons.IH [OF r(2)] Cons.prems by auto
  with r(1) show ?case by simp
qed simp



text \<open>
  A reply can be judged by the wrong document: the registry is that of the last document
  queued, not that of the document whose event is answered. A click in the first document is
  still on its way when the second one is queued, and the call it asks for, to alias 0 of its
  own document, is sent to alias 0 of the other.
\<close>

definition document_of :: "string \<Rightarrow> string \<Rightarrow> reload_payload" where
  "document_of dmn target =
     \<lparr>rp_logic_fns = [], rp_click_actions = Map.empty, rp_submit_actions = Map.empty, rp_root_timer_actions = [],
      rp_interner = interner_new, rp_initial_variables = [],
      rp_url_registry = [0 \<mapsto> \<lparr>ep_kind = Api, raw_target = target\<rparr>], rp_document_domain = dmn, rp_computed_bindings = []\<rparr>"

definition reply_with :: "wire_runtime_action list \<Rightarrow> wire_envelope" where
  "reply_with acts = EnvOk \<lparr>wr_mutated_syms = [], wr_mutated_values = [], wr_runtime_actions = acts, wr_gesture = False\<rparr>"

lemma reply_judged_by_next_document:
  "br_delivered (bridge_run [Queue (UiReload (document_of ''bank.dev'' ''/pay'')), Queue (UiClick 1),
       Queue (UiReload (document_of ''evil.dev'' ''/collect'')),
       Frame (reply_with []), Frame (reply_with [WRNetworkCall WPost 0 (Some (WStr ''secret'')) None 3 WJson [] []])])
   = [(0, Ok \<lparr>mutated_variables = [], runtime_actions = [], gesture = False\<rparr>),
      (1, Ok \<lparr>mutated_variables = [],
              runtime_actions = [RResolvedCall ''POST'' ''mizu://evil.dev/collect'' (Some (VString ''secret'')) 3 FJson []],
              gesture = True\<rparr>)]"
  by (simp add: bridge_run_def bridge_new_def policy_empty_def queue_event_def read_reply_def reply_with_def document_of_def Let_def
      rehydrate_worker_response_def rehydrate_headers_def rehydrate_value.simps authorize_action_def is_user_gesture_def
      MAX_VALUE_DEPTH_def lookup_endpoint_def resolve_endpoint_url_def endpoint_base_def)

end
