(* ===== verification/Mizu_History.thy ===== *)
theory Mizu_History
  imports Mizu_Prelude
begin

text \<open>
  The back and forward stacks of a tab (\<^verbatim>\<open>render/window/history/stack.rs\<close>). The abstract view
  is a zipper: the pages before the current one, the current page, and the pages after it, of
  which the stacks keep the newest \<open>MAX_HISTORY_ENTRIES\<close> on either side.
\<close>

text \<open>A scroll offset is only ever stored and restored; it is its bits.\<close>

record history_entry =
  he_url :: string
  he_scroll_y :: "32 word"

definition MAX_HISTORY_ENTRIES :: nat where
  "MAX_HISTORY_ENTRIES = 100"

record history_stack =
  hs_back :: "history_entry list"
  hs_forward :: "history_entry list"

definition history_new :: history_stack where
  "history_new = \<lparr>hs_back = [], hs_forward = []\<rparr>"

definition push_capped :: "history_entry list \<Rightarrow> history_entry \<Rightarrow> history_entry list" where
  "push_capped stack entry =
     (let pushed = stack @ [entry] in if length pushed > MAX_HISTORY_ENTRIES then tl pushed else pushed)"

definition can_go_back :: "history_stack \<Rightarrow> bool" where
  "can_go_back h \<longleftrightarrow> hs_back h \<noteq> []"

definition can_go_forward :: "history_stack \<Rightarrow> bool" where
  "can_go_forward h \<longleftrightarrow> hs_forward h \<noteq> []"

definition record_navigation :: "history_entry \<Rightarrow> history_stack \<Rightarrow> history_stack" where
  "record_navigation leaving h = \<lparr>hs_back = push_capped (hs_back h) leaving, hs_forward = []\<rparr>"

definition go_back :: "history_entry \<Rightarrow> history_stack \<Rightarrow> history_entry option \<times> history_stack" where
  "go_back leaving h =
     (if hs_back h = [] then (None, h)
      else (Some (last (hs_back h)), \<lparr>hs_back = butlast (hs_back h), hs_forward = push_capped (hs_forward h) leaving\<rparr>))"

definition go_forward :: "history_entry \<Rightarrow> history_stack \<Rightarrow> history_entry option \<times> history_stack" where
  "go_forward leaving h =
     (if hs_forward h = [] then (None, h)
      else (Some (last (hs_forward h)), \<lparr>hs_back = push_capped (hs_back h) leaving, hs_forward = butlast (hs_forward h)\<rparr>))"

section \<open>The zipper\<close>

text \<open>
  The pages of a tab: those before the current one with the nearest first, the current one,
  and those after it with the nearest first.
\<close>

record zipper =
  z_before :: "history_entry list"
  z_here :: history_entry
  z_after :: "history_entry list"

datatype history_step = Visit history_entry | Back | Forward

text \<open>
  The reference: visiting forgets what is ahead, going back or forward moves the cursor, and
  nothing is ever forgotten otherwise.
\<close>

fun zip_step :: "history_step \<Rightarrow> zipper \<Rightarrow> zipper" where
  "zip_step (Visit e) z = \<lparr>z_before = z_here z # z_before z, z_here = e, z_after = []\<rparr>"
| "zip_step Back z =
     (case z_before z of [] \<Rightarrow> z | e # es \<Rightarrow> \<lparr>z_before = es, z_here = e, z_after = z_here z # z_after z\<rparr>)"
| "zip_step Forward z =
     (case z_after z of [] \<Rightarrow> z | e # es \<Rightarrow> \<lparr>z_before = z_here z # z_before z, z_here = e, z_after = es\<rparr>)"

text \<open>A tab as the code keeps it: the page shown and the stacks.\<close>

fun history_do :: "history_step \<Rightarrow> history_entry \<times> history_stack \<Rightarrow> history_entry \<times> history_stack" where
  "history_do (Visit e) (here, h) = (e, record_navigation here h)"
| "history_do Back (here, h) = (case go_back here h of (Some e, h') \<Rightarrow> (e, h') | (None, h') \<Rightarrow> (here, h'))"
| "history_do Forward (here, h) = (case go_forward here h of (Some e, h') \<Rightarrow> (e, h') | (None, h') \<Rightarrow> (here, h'))"

definition abs_history :: "history_entry \<times> history_stack \<Rightarrow> zipper" where
  "abs_history t = \<lparr>z_before = rev (hs_back (snd t)), z_here = fst t, z_after = rev (hs_forward (snd t))\<rparr>"

text \<open>The zipper with both sides cut to what the stacks can hold.\<close>

definition cut :: "zipper \<Rightarrow> zipper" where
  "cut z = \<lparr>z_before = take MAX_HISTORY_ENTRIES (z_before z), z_here = z_here z, z_after = take MAX_HISTORY_ENTRIES (z_after z)\<rparr>"

definition capped :: "history_stack \<Rightarrow> bool" where
  "capped h \<longleftrightarrow> length (hs_back h) \<le> MAX_HISTORY_ENTRIES \<and> length (hs_forward h) \<le> MAX_HISTORY_ENTRIES"

lemma max_pos: "0 < MAX_HISTORY_ENTRIES"
  by (simp add: MAX_HISTORY_ENTRIES_def)

lemma length_push_capped: "length s \<le> MAX_HISTORY_ENTRIES \<Longrightarrow> length (push_capped s e) \<le> MAX_HISTORY_ENTRIES"
  by (auto simp: push_capped_def Let_def)

lemma rev_push_capped:
  assumes "length s \<le> MAX_HISTORY_ENTRIES"
  shows "rev (push_capped s e) = take MAX_HISTORY_ENTRIES (e # rev s)"
proof (cases "length s = MAX_HISTORY_ENTRIES")
  case True
  then obtain x xs where s: "s = x # xs" using max_pos by (cases s) auto
  with True show ?thesis by (auto simp: push_capped_def Let_def take_Cons')
next
  case False
  then have "Suc (length s) \<le> MAX_HISTORY_ENTRIES" using assms by simp
  then show ?thesis by (simp add: push_capped_def Let_def)
qed

lemma capped_do: "capped (snd t) \<Longrightarrow> capped (snd (history_do st t))"
  by (cases st; cases t) (auto simp: capped_def record_navigation_def go_back_def go_forward_def length_push_capped
      split: option.splits prod.splits)

lemma history_do_refines:
  assumes "capped (snd t)"
  shows "abs_history (history_do st t) = cut (zip_step st (abs_history t))"
proof (cases t)
  case (Pair here h)
  have len: "length (hs_back h) \<le> MAX_HISTORY_ENTRIES" "length (hs_forward h) \<le> MAX_HISTORY_ENTRIES"
    using assms Pair by (simp_all add: capped_def)
  note push = len [THEN rev_push_capped]
  show ?thesis
  proof (cases st)
    case (Visit e)
    then show ?thesis using Pair by (simp add: abs_history_def record_navigation_def cut_def push)
  next
    case Back
    then show ?thesis
      using Pair len by (cases "hs_back h" rule: rev_cases) (simp_all add: abs_history_def go_back_def cut_def push)
  next
    case Forward
    then show ?thesis
      using Pair len by (cases "hs_forward h" rule: rev_cases) (simp_all add: abs_history_def go_forward_def cut_def push)
  qed
qed

section \<open>Properties\<close>

definition history_run :: "history_step list \<Rightarrow> history_entry \<times> history_stack \<Rightarrow> history_entry \<times> history_stack" where
  "history_run = fold history_do"

lemma capped_run: "capped (snd t) \<Longrightarrow> capped (snd (history_run steps t))"
  unfolding history_run_def by (induction steps arbitrary: t) (simp_all add: capped_do)

text \<open>
  (C35) The stacks are a browser's history: from a fresh tab, after any sequence of visits and
  steps, every further step does what it does on the zipper of all pages, as far as
  \<open>MAX_HISTORY_ENTRIES\<close> on either side reach; and neither stack ever grows beyond that.
\<close>

theorem history_refines_zipper:
  "let t = history_run steps (start, history_new)
   in abs_history (history_do st t) = cut (zip_step st (abs_history t)) \<and> capped (snd t)"
proof -
  have "capped (snd (history_run steps (start, history_new)))"
    by (rule capped_run) (simp add: capped_def history_new_def)
  then show ?thesis by (simp add: Let_def history_do_refines)
qed

text \<open>
  Back undoes a visit and Forward undoes Back, page and scroll position included, for as
  long as the forward stack has room.
\<close>

theorem back_forward_inverse:
  assumes "capped h" "length (hs_forward h) < MAX_HISTORY_ENTRIES" "can_go_back h"
  shows "history_do Forward (history_do Back (here, h)) = (here, h)"
  using assms max_pos
  by (cases "hs_back h" rule: rev_cases)
    (auto simp: go_back_def go_forward_def push_capped_def Let_def can_go_back_def capped_def)

theorem back_forward_inverse_witness:
  "(let a = \<lparr>he_url = ''mizu://a'', he_scroll_y = 7\<rparr>; b = \<lparr>he_url = ''mizu://b'', he_scroll_y = 0\<rparr>;
        h = \<lparr>hs_back = [a], hs_forward = []\<rparr>
    in history_do Forward (history_do Back (b, h)) = (b, h))"
  unfolding Let_def by (rule back_forward_inverse) (simp_all add: capped_def can_go_back_def MAX_HISTORY_ENTRIES_def)

end
