(* ===== verification/Mizu_Tab.thy ===== *)
theory Mizu_Tab
  imports Mizu_Broker Mizu_History
begin

text \<open>
  What a tab does with a navigation: the choke point every navigation passes, its history
  steps and the redirect budget (\<^verbatim>\<open>render/window/navigate.rs\<close>), and the file sandbox
  (\<^verbatim>\<open>security/sandbox.rs\<close>).

  The file system and the platform's path syntax are the record \<open>fs\<close> of functions: the
  components of a path and its text, its parent, joining, \<^verbatim>\<open>canonicalize\<close> and
  \<^verbatim>\<open>read_to_string\<close>. Effects outside the tab are returned as a list.
\<close>

section \<open>The file sandbox\<close>

datatype component = Prefix string | RootDir | CurDir | ParentDir | Normal string

record file_system =
  fs_components :: "string \<Rightarrow> component list"
  fs_text :: "component list \<Rightarrow> string"
  fs_parent :: "string \<Rightarrow> string option"
  fs_join :: "string \<Rightarrow> string \<Rightarrow> string"
  fs_canonicalize :: "string \<Rightarrow> string option"
  fs_read :: "string \<Rightarrow> string option"

text \<open>
  \<^verbatim>\<open>PathBuf::pop\<close> on a path of components: nothing to pop when it is empty or ends in the root
  or a prefix. A \<^verbatim>\<open>RootDir\<close> only follows a prefix or starts a path, so pushing a component
  appends it.
\<close>

fun poppable :: "component list \<Rightarrow> bool" where
  "poppable [] \<longleftrightarrow> False"
| "poppable cs \<longleftrightarrow> (case last cs of RootDir \<Rightarrow> False | Prefix _ \<Rightarrow> False | _ \<Rightarrow> True)"

fun normalize_loop :: "component list \<Rightarrow> component list \<Rightarrow> component list" where
  "normalize_loop [] out = out"
| "normalize_loop (ParentDir # cs) out = (if poppable out then normalize_loop cs (butlast out) else [])"
| "normalize_loop (CurDir # cs) out = normalize_loop cs out"
| "normalize_loop (c # cs) out = normalize_loop cs (out @ [c])"

definition normalize_path_components :: "component list \<Rightarrow> component list" where
  "normalize_path_components cs = normalize_loop cs []"

definition strip_verbatim_prefix :: "string \<Rightarrow> string" where
  "strip_verbatim_prefix s = (case strip_prefix [CHR 0x5C, CHR 0x5C, CHR ''?'', CHR 0x5C] s of Some rest \<Rightarrow> rest | None \<Rightarrow> s)"

definition canon_path :: "file_system \<Rightarrow> string \<Rightarrow> string" where
  "canon_path fs p =
     strip_verbatim_prefix
       (case fs_canonicalize fs p of
          Some c \<Rightarrow> c
        | None \<Rightarrow> fs_text fs (normalize_path_components (fs_components fs p)))"

definition file_sandbox_contains :: "file_system \<Rightarrow> string \<Rightarrow> string \<Rightarrow> bool" where
  "file_sandbox_contains fs sandbox_base target \<longleftrightarrow>
     canon_path fs sandbox_base \<noteq> [] \<and> canon_path fs target \<noteq> []
     \<and> prefix (fs_components fs (canon_path fs sandbox_base)) (fs_components fs (canon_path fs target))"

section \<open>Resolving a target\<close>

definition base_dir_of :: "file_system \<Rightarrow> string \<Rightarrow> string" where
  "base_dir_of fs current_url =
     (let current = (case strip_prefix ''file:///'' current_url of Some c \<Rightarrow> c | None \<Rightarrow> current_url)
      in case fs_parent fs current of Some d \<Rightarrow> d | None \<Rightarrow> ''.'')"

definition resolve_navigate_url :: "file_system \<Rightarrow> string \<Rightarrow> string \<Rightarrow> string option" where
  "resolve_navigate_url fs current_url target =
     (if prefix ''mizu://'' current_url \<and> prefix ''file://'' target then None
      else if \<not> str_contains target ''://'' \<and> prefix ''file://'' current_url
      then let base_dir = base_dir_of fs current_url; resolved = fs_join fs base_dir target in
        (if \<not> file_sandbox_contains fs base_dir resolved then None
         else let canonical = (case fs_canonicalize fs resolved of Some c \<Rightarrow> c | None \<Rightarrow> resolved)
           in Some (''file:///'' @ map (\<lambda>c. if c = CHR 0x5C then CHR ''/'' else c) canonical))
      else if prefix ''file://'' current_url \<and> prefix ''file://'' target
      then let target_path = (case strip_prefix ''file:///'' target of Some p \<Rightarrow> p
                 | None \<Rightarrow> (case strip_prefix ''file://'' target of Some p \<Rightarrow> p | None \<Rightarrow> target))
        in (if \<not> file_sandbox_contains fs (base_dir_of fs current_url) target_path then None else Some target)
      else if \<not> str_contains target ''://'' then Some (''mizu://'' @ target)
      else Some target)"

section \<open>The tab\<close>

record tab_state =
  committed_url :: string
  tab_policy_of :: capability_policy
  redirect_count :: nat
  tab_history :: history_stack
  root_scroll_offset_y :: "32 word"
  pending_scroll_restore :: "32 word option"
  loading :: bool

datatype effect =
    SendNavigate string navigation_initiator
  | LoadDocument string string
  | LogBlocked string string
  | SendUpdate string string

record window_ctx =
  wc_fs :: file_system
  wc_url_parse :: url_parser
  wc_parse_literal :: "string \<Rightarrow> ip_addr option"
  wc_storage_key :: "string \<Rightarrow> string"
  wc_now :: nat
  wc_max_redirects :: nat

text \<open>
  The commit of a document, as far as it concerns the origin: the committed address, the
  policy built from it, the redirect budget. The rest loads the document.
\<close>

definition commit_document :: "window_ctx \<Rightarrow> string \<Rightarrow> string \<Rightarrow> tab_state \<Rightarrow> tab_state \<times> effect list" where
  "commit_document ctx url source tab =
     (tab\<lparr>committed_url := url,
          tab_policy_of := policy_new (wc_url_parse ctx) (wc_parse_literal ctx) (wc_now ctx) url (wc_storage_key ctx url),
          redirect_count := 0, loading := False\<rparr>,
      [LoadDocument url source])"

definition is_history_step :: "navigation_initiator \<Rightarrow> bool" where
  "is_history_step i \<longleftrightarrow> i = HistoryStep"

fun is_redirect :: "navigation_initiator \<Rightarrow> bool" where
  "is_redirect (RedirectOf _) \<longleftrightarrow> True"
| "is_redirect _ \<longleftrightarrow> False"

text \<open>The branch of an allowed target.\<close>

definition navigate_allowed :: "window_ctx \<Rightarrow> string \<Rightarrow> navigation_initiator \<Rightarrow> tab_state \<Rightarrow> tab_state \<times> effect list" where
  "navigate_allowed ctx target initiator tab =
     (let t1 = (if is_redirect initiator then tab else tab\<lparr>redirect_count := 0\<rparr>);
          t2 = (if is_history_step initiator \<or> is_redirect initiator then t1
                else t1\<lparr>tab_history := record_navigation
                         \<lparr>he_url = committed_url tab, he_scroll_y = root_scroll_offset_y tab\<rparr> (tab_history t1)\<rparr>)
      in if prefix ''file://'' target
         then (case strip_prefix ''file:///'' target of
                 None \<Rightarrow> (t2, [])
               | Some path \<Rightarrow>
                   (case fs_read (wc_fs ctx) path of
                      None \<Rightarrow> (t2, [])
                    | Some content \<Rightarrow> commit_document ctx target content t2))
         else if prefix ''mizu://'' target then (t2\<lparr>loading := True\<rparr>, [SendNavigate target initiator])
         else (t2, []))"

definition navigate_to_url :: "window_ctx \<Rightarrow> string \<Rightarrow> navigation_initiator \<Rightarrow> tab_state \<Rightarrow> tab_state \<times> effect list" where
  "navigate_to_url ctx url initiator tab =
     (let t0 = (if is_history_step initiator then tab else tab\<lparr>pending_scroll_restore := None\<rparr>);
          current_url = committed_url tab
      in if url = ''about:blank''
         then commit_document ctx url (''layout'' @ [CHR 0x0A] @ ''  doc'' @ [CHR 0x0A]) t0
         else let sandboxed = ((\<not> str_contains url ''://'' \<and> prefix ''file://'' current_url)
                              \<or> (prefix ''file://'' url \<and> prefix ''file://'' current_url))
         in case (if sandboxed then resolve_navigate_url (wc_fs ctx) current_url url else Some url) of
              None \<Rightarrow>
                (t0\<lparr>loading := False\<rparr>,
                 [LogBlocked url (if \<not> str_contains url ''://'' then ''relative path escapes file:// sandbox''
                                  else ''file:// target escapes sandbox'')])
            | Some resolved_url \<Rightarrow>
                (case check_navigation current_url resolved_url initiator of
                   Allow target \<Rightarrow> navigate_allowed ctx target initiator t0
                 | Block reason \<Rightarrow>
                     (t0\<lparr>loading := False, pending_scroll_restore := None\<rparr>, [LogBlocked resolved_url reason])))"

definition navigate_back :: "window_ctx \<Rightarrow> tab_state \<Rightarrow> tab_state \<times> effect list" where
  "navigate_back ctx tab =
     (case go_back \<lparr>he_url = committed_url tab, he_scroll_y = root_scroll_offset_y tab\<rparr> (tab_history tab) of
        (None, _) \<Rightarrow> (tab, [])
      | (Some target, h) \<Rightarrow>
          navigate_to_url ctx (he_url target) HistoryStep (tab\<lparr>tab_history := h, pending_scroll_restore := Some (he_scroll_y target)\<rparr>))"

definition navigate_forward :: "window_ctx \<Rightarrow> tab_state \<Rightarrow> tab_state \<times> effect list" where
  "navigate_forward ctx tab =
     (case go_forward \<lparr>he_url = committed_url tab, he_scroll_y = root_scroll_offset_y tab\<rparr> (tab_history tab) of
        (None, _) \<Rightarrow> (tab, [])
      | (Some target, h) \<Rightarrow>
          navigate_to_url ctx (he_url target) HistoryStep (tab\<lparr>tab_history := h, pending_scroll_restore := Some (he_scroll_y target)\<rparr>))"

section \<open>Answers of the network\<close>

definition register_redirect :: "window_ctx \<Rightarrow> tab_state \<Rightarrow> bool \<times> tab_state" where
  "register_redirect ctx tab =
     (let n = redirect_count tab + 1 in (n \<le> wc_max_redirects ctx, tab\<lparr>redirect_count := n\<rparr>))"

datatype nav_result =
    NavigateSuccess string string
  | NavigationRedirect string navigation_initiator
  | NetworkFailed string

fun process_navigation_result :: "window_ctx \<Rightarrow> nav_result \<Rightarrow> tab_state \<Rightarrow> tab_state \<times> effect list" where
  "process_navigation_result ctx (NavigateSuccess url source) tab = commit_document ctx url source tab"
| "process_navigation_result ctx (NavigationRedirect new_url initiator) tab =
     (case register_redirect ctx tab of (may_proceed, t) \<Rightarrow>
        if may_proceed then navigate_to_url ctx new_url (redirect_of initiator) t
        else (t\<lparr>loading := False\<rparr>, [SendUpdate ''stato_navigazione'' ''Errore: troppi redirect'']))"
| "process_navigation_result ctx (NetworkFailed e) tab =
     (tab\<lparr>loading := False\<rparr>, [SendUpdate ''stato_navigazione'' (''Errore: '' @ e)])"

section \<open>The choke point\<close>

text \<open>
  What a navigation may do to a tab: either the origin stays as it is and nothing is loaded, or
  a document is loaded and the origin and its policy become that document's. A request that is
  sent was allowed from the committed origin, with the agency it had.
\<close>

definition follows_policy :: "window_ctx \<Rightarrow> tab_state \<Rightarrow> navigation_initiator \<Rightarrow> tab_state \<times> effect list \<Rightarrow> bool" where
  "follows_policy ctx tab i res \<longleftrightarrow>
     (case res of (tab', es) \<Rightarrow>
        (if \<exists>u src. LoadDocument u src \<in> set es
         then (\<exists>src. es = [LoadDocument (committed_url tab') src])
           \<and> tab_policy_of tab' = policy_new (wc_url_parse ctx) (wc_parse_literal ctx) (wc_now ctx) (committed_url tab')
                                     (wc_storage_key ctx (committed_url tab'))
         else committed_url tab' = committed_url tab \<and> tab_policy_of tab' = tab_policy_of tab)
        \<and> (\<forall>u j. SendNavigate u j \<in> set es \<longrightarrow> j = i \<and> (\<exists>r. check_navigation (committed_url tab) r i = Allow u)))"

lemma success_follows: "follows_policy ctx tab i (commit_document ctx url src t)"
  by (auto simp: follows_policy_def commit_document_def)

lemma stay_follows:
  assumes "committed_url t = committed_url tab" "tab_policy_of t = tab_policy_of tab"
    and "es = [] \<or> (\<exists>a b. es = [LogBlocked a b]) \<or> (\<exists>u r. es = [SendNavigate u i] \<and> check_navigation (committed_url tab) r i = Allow u)"
  shows "follows_policy ctx tab i (t, es)"
  using assms by (auto simp: follows_policy_def)

lemma allowed_follows:
  assumes "committed_url t = committed_url tab" "tab_policy_of t = tab_policy_of tab"
    and "check_navigation (committed_url tab) r i = Allow target"
  shows "follows_policy ctx tab i (navigate_allowed ctx target i t)"
proof -
  define t2 where "t2 = (let t1 = (if is_redirect i then t else t\<lparr>redirect_count := 0\<rparr>) in
      if is_history_step i \<or> is_redirect i then t1
      else t1\<lparr>tab_history := record_navigation \<lparr>he_url = committed_url t, he_scroll_y = root_scroll_offset_y t\<rparr> (tab_history t1)\<rparr>)"
  have t2: "committed_url (t2\<lparr>loading := b\<rparr>) = committed_url tab" "tab_policy_of (t2\<lparr>loading := b\<rparr>) = tab_policy_of tab"
      "committed_url t2 = committed_url tab" "tab_policy_of t2 = tab_policy_of tab" for b
    using assms(1,2) by (simp_all add: t2_def Let_def)
  have "navigate_allowed ctx target i t =
     (if prefix ''file://'' target
      then (case strip_prefix ''file:///'' target of
              None \<Rightarrow> (t2, [])
            | Some path \<Rightarrow>
                (case fs_read (wc_fs ctx) path of None \<Rightarrow> (t2, []) | Some content \<Rightarrow> commit_document ctx target content t2))
      else if prefix ''mizu://'' target then (t2\<lparr>loading := True\<rparr>, [SendNavigate target i])
      else (t2, []))"
    unfolding navigate_allowed_def t2_def Let_def by (rule refl)
  then show ?thesis
    using assms(3) by (auto intro!: stay_follows success_follows t2 simp del: strip_prefix_Some split: option.splits)
qed

lemma navigate_follows: "follows_policy ctx tab i (navigate_to_url ctx url i tab)"
proof (cases "url = ''about:blank''")
  case True
  then show ?thesis by (simp add: navigate_to_url_def Let_def success_follows)
next
  case False
  then show ?thesis
    unfolding navigate_to_url_def Let_def
    by (auto split: option.splits navigation_verdict.splits intro!: allowed_follows stay_follows)
qed

section \<open>Redirects\<close>

lemma redirect_of_redirects: "is_redirect (redirect_of i)" "has_user_agency (redirect_of i) = has_user_agency i"
  by (cases i; simp)+

lemma redirect_navigation_counts:
  assumes "is_redirect i" "navigate_to_url ctx url i tab = (tab', es)" "\<forall>u src. LoadDocument u src \<notin> set es"
  shows "redirect_count tab' = redirect_count tab \<and> length (filter (\<lambda>e. \<exists>u j. e = SendNavigate u j) es) \<le> 1"
  using assms
  by (auto simp: navigate_to_url_def navigate_allowed_def commit_document_def is_history_step_def Let_def
      split: if_splits option.splits navigation_verdict.splits)

fun follow_redirects :: "window_ctx \<Rightarrow> (string \<times> navigation_initiator) list \<Rightarrow> tab_state \<Rightarrow> tab_state \<times> effect list" where
  "follow_redirects ctx [] tab = (tab, [])"
| "follow_redirects ctx ((url, i) # hops) tab =
     (case process_navigation_result ctx (NavigationRedirect url i) tab of (t, es) \<Rightarrow>
        (case follow_redirects ctx hops t of (t', es') \<Rightarrow> (t', es @ es')))"

abbreviation sends :: "effect list \<Rightarrow> nat" where
  "sends es \<equiv> length (filter (\<lambda>e. \<exists>u j. e = SendNavigate u j) es)"

lemma redirect_hop:
  assumes "process_navigation_result ctx (NavigationRedirect url i) tab = (t, es)" "\<forall>u src. LoadDocument u src \<notin> set es"
  shows "redirect_count t = Suc (redirect_count tab) \<and> sends es \<le> (if redirect_count tab < wc_max_redirects ctx then 1 else 0)"
  using assms redirect_navigation_counts [OF redirect_of_redirects(1), of ctx url i "tab\<lparr>redirect_count := Suc (redirect_count tab)\<rparr>" t es]
  by (auto simp: register_redirect_def Let_def split: if_splits)

lemma redirects_bounded:
  assumes "follow_redirects ctx hops tab = (t, es)" "\<forall>u src. LoadDocument u src \<notin> set es"
  shows "sends es \<le> wc_max_redirects ctx - redirect_count tab"
  using assms
proof (induction hops arbitrary: tab es)
  case (Cons hop hops)
  obtain url i where hop: "hop = (url, i)" by (cases hop)
  obtain t1 es1 t2 es2 where r: "process_navigation_result ctx (NavigationRedirect url i) tab = (t1, es1)"
      "follow_redirects ctx hops t1 = (t2, es2)"
    by fastforce
  then have es: "es = es1 @ es2" "t = t2" using Cons.prems(1) hop by simp_all
  have "sends es2 \<le> wc_max_redirects ctx - redirect_count t1" using Cons.IH r(2) Cons.prems(2) es by auto
  moreover have "redirect_count t1 = Suc (redirect_count tab)" "sends es1 \<le> (if redirect_count tab < wc_max_redirects ctx then 1 else 0)"
    using redirect_hop [OF r(1)] Cons.prems(2) es by auto
  ultimately show ?case using es by (auto split: if_splits)
qed simp

section \<open>Properties\<close>



definition no_files :: file_system where
  "no_files = \<lparr>fs_components = (\<lambda>_. []), fs_text = (\<lambda>_. []), fs_parent = (\<lambda>_. None), fs_join = (\<lambda>a b. a @ ''/'' @ b),
               fs_canonicalize = (\<lambda>_. None), fs_read = (\<lambda>_. None)\<rparr>"

definition demo_ctx :: window_ctx where
  "demo_ctx = \<lparr>wc_fs = no_files, wc_url_parse = demo_url, wc_parse_literal = (\<lambda>_. None), wc_storage_key = (\<lambda>u. u),
               wc_now = 0, wc_max_redirects = 1\<rparr>"

definition demo_tab :: "string \<Rightarrow> tab_state" where
  "demo_tab url = \<lparr>committed_url = url, tab_policy_of = demo_page, redirect_count = 0, tab_history = history_new,
                   root_scroll_offset_y = 0, pending_scroll_restore = None, loading = False\<rparr>"

lemma demo_redirects:
  "snd (follow_redirects demo_ctx [(''mizu://b.dev/1'', UserGestureInit), (''mizu://b.dev/2'', UserGestureInit)] (demo_tab ''mizu://a.dev/''))
     = [SendNavigate ''mizu://b.dev/1'' (RedirectOf UserGestureInit), SendUpdate ''stato_navigazione'' ''Errore: troppi redirect'']"
proof -
  have "check_navigation ''mizu://a.dev/'' ''mizu://b.dev/1'' (RedirectOf UserGestureInit) = Allow ''mizu://b.dev/1''" by code_simp
  then show ?thesis
    by (simp add: demo_ctx_def demo_tab_def register_redirect_def navigate_to_url_def navigate_allowed_def is_history_step_def Let_def)
qed


text \<open>
  Going back from a remote page to a local one fails and forgets it: the history has moved
  before the policy refuses a remote document's way to a file, so the local page is gone from
  the back stack, and the page still shown is ahead of itself.
\<close>

lemma back_to_local_page_lost:
  assumes "tab_history tab = \<lparr>hs_back = [\<lparr>he_url = ''file:///home/notes.mizu'', he_scroll_y = 0\<rparr>], hs_forward = []\<rparr>"
    and "committed_url tab = ''mizu://a.dev/''"
  shows "fst (navigate_back ctx tab) = tab\<lparr>tab_history := \<lparr>hs_back = [],
           hs_forward = [\<lparr>he_url = ''mizu://a.dev/'', he_scroll_y = root_scroll_offset_y tab\<rparr>]\<rparr>,
           loading := False, pending_scroll_restore := None\<rparr>"
    and "snd (navigate_back ctx tab) = [LogBlocked ''file:///home/notes.mizu'' ''remote document may not navigate to file:// resource'']"
proof -
  have c: "check_navigation ''mizu://a.dev/'' ''file:///home/notes.mizu'' HistoryStep =
      Block ''remote document may not navigate to file:// resource''" by code_simp
  show "fst (navigate_back ctx tab) = tab\<lparr>tab_history := \<lparr>hs_back = [],
           hs_forward = [\<lparr>he_url = ''mizu://a.dev/'', he_scroll_y = root_scroll_offset_y tab\<rparr>]\<rparr>,
           loading := False, pending_scroll_restore := None\<rparr>"
    "snd (navigate_back ctx tab) = [LogBlocked ''file:///home/notes.mizu'' ''remote document may not navigate to file:// resource'']"
    using assms c
    by (simp_all add: navigate_back_def go_back_def push_capped_def MAX_HISTORY_ENTRIES_def navigate_to_url_def is_history_step_def Let_def)
qed

end
