(* ===== verification/Mizu_Capability.thy ===== *)
theory Mizu_Capability
  imports Mizu_Tab
begin

text \<open>
  The execution of a document's actions by the browser (\<^verbatim>\<open>render/security/mod.rs\<close>) and the drain
  of worker responses that hands each action to the navigation choke point, to the clipboard
  gate or to the executor (\<^verbatim>\<open>render/window/event_loop/idle.rs\<close>).
\<close>

section \<open>Sizes and domains\<close>

fun estimate_value_bytes :: "mval \<Rightarrow> nat" and estimate_field_bytes :: "record_field \<Rightarrow> nat" where
  "estimate_value_bytes (VString s) = length s"
| "estimate_value_bytes (VInt _) = 8"
| "estimate_value_bytes (VDecimal _) = 8"
| "estimate_value_bytes (VBool _) = 1"
| "estimate_value_bytes VNull = 4"
| "estimate_value_bytes (VList items) = sum_list (map estimate_value_bytes items)"
| "estimate_value_bytes (VRecord fs) = sum_list (map estimate_field_bytes fs)"
| "estimate_value_bytes (VFileHandle handle) = length (fh_filename handle)"
| "estimate_field_bytes (RecordField key h v) = length key + estimate_value_bytes v"

definition get_raw_domain :: "file_system \<Rightarrow> string \<Rightarrow> string" where
  "get_raw_domain fs url =
     (case strip_prefix ''mizu://'' url of
        Some rest \<Rightarrow> takeWhile (\<lambda>c. c \<notin> {CHR ''/'', CHR ''?'', CHR ''#''}) rest
      | None \<Rightarrow>
          (case strip_prefix ''file://'' url of
             Some path \<Rightarrow>
               let raw = dropWhile (\<lambda>c. c = CHR ''/'') path
               in ''file_'' @ (case fs_canonicalize fs raw of Some c \<Rightarrow> c | None \<Rightarrow> raw)
           | None \<Rightarrow> ''unknown''))"

section \<open>The executor\<close>

datatype network_cmd =
    Fetch nat string string string bool "mval option" payload_format "(string \<times> mval) list"
  | FetchImage nat string bool "string option"
  | NetworkRequest nat network_method nat "mval option" "string option" symbol payload_format "(string \<times> mval) list"
  | StorageStore string string mval

datatype capability_outcome = Dispatched | Blocked string

text \<open>
  The two channels, where a send on a closed one is dropped, the ledger, and the policy the
  executor is called with.
\<close>

record executor =
  ex_network_open :: bool
  ex_network :: "network_cmd list"
  ex_logic_open :: bool
  ex_logic :: "(nat \<times> ui_event) list"
  ex_ledger :: usage_ledger
  ex_policy :: capability_policy

definition send_network :: "network_cmd \<Rightarrow> executor \<Rightarrow> executor" where
  "send_network cmd x = (if ex_network_open x then x\<lparr>ex_network := ex_network x @ [cmd]\<rparr> else x)"

definition send_logic :: "nat \<Rightarrow> ui_event \<Rightarrow> executor \<Rightarrow> executor" where
  "send_logic tab ev x = (if ex_logic_open x then x\<lparr>ex_logic := ex_logic x @ [(tab, ev)]\<rparr> else x)"

record exec_ctx =
  xc_window :: window_ctx
  xc_interner :: string_interner
  xc_tab :: nat
  xc_url :: string
  xc_now' :: nat
  xc_time_ms :: nat

definition target_is_remote_mizu :: "exec_ctx \<Rightarrow> string \<Rightarrow> bool" where
  "target_is_remote_mizu c url \<longleftrightarrow>
     prefix ''mizu://'' url
     \<and> (case uri_parse (wc_url_parse (xc_window c)) url of
          Ok u \<Rightarrow> \<not> is_local_host_with (uri_domain u) (wc_parse_literal (xc_window c))
        | Fail _ \<Rightarrow> True)"

definition execute_resolved_call ::
  "exec_ctx \<Rightarrow> string \<Rightarrow> string \<Rightarrow> mval option \<Rightarrow> symbol \<Rightarrow> payload_format \<Rightarrow> (string \<times> mval) list \<Rightarrow> executor
     \<Rightarrow> capability_outcome \<times> executor" where
  "execute_resolved_call c mth url payload target_variable fmt headers x =
     (if prefix ''file://'' (xc_url c) \<and> target_is_remote_mizu c url
      then (Blocked (''file:// origin blocked from outbound call to remote host '' @ url), x)
      else case resolve (xc_interner c) target_variable of
        None \<Rightarrow> (Blocked ''internal error: unresolvable target variable'', x)
      | Some target_var \<Rightarrow>
          (Dispatched, send_network (Fetch (xc_tab c) mth url target_var (prefix ''mizu://'' (xc_url c)) payload fmt headers) x))"

definition execute_store_local :: "exec_ctx \<Rightarrow> string \<Rightarrow> mval \<Rightarrow> executor \<Rightarrow> capability_outcome \<times> executor" where
  "execute_store_local c key v x =
     (case check_storage_write (wc_now (xc_window c)) (xc_now' c) (ex_ledger x) (ex_policy x) (estimate_value_bytes v) of
        (res, ledger, p) \<Rightarrow>
          let x' = x\<lparr>ex_ledger := ledger, ex_policy := p\<rparr> in
          (case res of
             Fail e \<Rightarrow> (Blocked (fault_text e), x')
           | Ok _ \<Rightarrow> (Dispatched, send_network (StorageStore (get_raw_domain (wc_fs (xc_window c)) (xc_url c)) key v) x')))"

definition execute_download_media :: "exec_ctx \<Rightarrow> string \<Rightarrow> executor \<Rightarrow> capability_outcome \<times> executor" where
  "execute_download_media c url x =
     (if prefix ''file://'' (xc_url c) \<and> target_is_remote_mizu c url
      then (Blocked (''file:// origin blocked from downloading remote media '' @ url), x)
      else (Dispatched, send_network
              (FetchImage (xc_tab c) url (prefix ''mizu://'' (xc_url c))
                 (if prefix ''file://'' (xc_url c)
                  then (case strip_prefix ''file:///'' (xc_url c) of
                          Some p \<Rightarrow> fs_parent (wc_fs (xc_window c)) p
                        | None \<Rightarrow> None)
                  else None)) x))"

fun execute_capability_action :: "exec_ctx \<Rightarrow> runtime_action \<Rightarrow> executor \<Rightarrow> capability_outcome \<times> executor" where
  "execute_capability_action c RNone x = (Dispatched, x)"
| "execute_capability_action c (RResolvedCall mth url payload target_variable fmt headers) x =
     execute_resolved_call c mth url payload target_variable fmt headers x"
| "execute_capability_action c (RStoreLocal key v) x = execute_store_local c key v x"
| "execute_capability_action c (RCopyToClipboard _) x = (Blocked ''clipboard action bypassed the gesture gate'', x)"
| "execute_capability_action c (RGetSystemTime target_variable) x =
     (case resolve (xc_interner c) target_variable of
        Some name \<Rightarrow> (Dispatched, send_logic (xc_tab c) (UiUpdateVariable name (VInt (as_i64 (xc_time_ms c)))) x)
      | None \<Rightarrow> (Dispatched, x))"
| "execute_capability_action c (RNavigate _) x = (Blocked ''navigation action bypassed the navigation choke point'', x)"
| "execute_capability_action c (RNetworkCall mth y payload path_param target_variable fmt headers) x =
     (Dispatched, send_network (NetworkRequest (xc_tab c) mth y payload path_param target_variable fmt headers) x)"
| "execute_capability_action c (RDownloadMedia url) x = execute_download_media c url x"
| "execute_capability_action c (RDownloadAlias _) x = (Blocked ''unresolved download alias'', x)"

section \<open>The drain\<close>

text \<open>
  The clipboard gate; \<open>text_of\<close> extracts the text of the document's node.
\<close>

definition apply_clipboard_action :: "(string \<Rightarrow> string outcome) \<Rightarrow> string \<Rightarrow> bool \<Rightarrow> string outcome" where
  "apply_clipboard_action text_of node_id has_user_gesture =
     (if \<not> has_user_gesture then Err (SecurityViolation ''copy_to_clipboard requires a user gesture (click)'')
      else text_of node_id)"

text \<open>The tab, the executor's channels, the text last written to the clipboard, and the effects of navigations.\<close>

record browser =
  bw_tab :: tab_state
  bw_exec :: executor
  bw_clipboard :: "string option"
  bw_effects :: "effect list"

definition dispatch_action ::
  "exec_ctx \<Rightarrow> (string \<Rightarrow> string outcome) \<Rightarrow> bool \<Rightarrow> runtime_action \<Rightarrow> browser \<Rightarrow> browser" where
  "dispatch_action c text_of batch_gesture act b =
     (case act of
        RNavigate url \<Rightarrow>
          (case navigate_to_url (xc_window c) url (if batch_gesture then UserGestureInit else DocumentLogic)
                  ((bw_tab b)\<lparr>loading := True\<rparr>) of
             (tab, es) \<Rightarrow> b\<lparr>bw_tab := tab, bw_effects := bw_effects b @ es\<rparr>)
      | RCopyToClipboard node_id \<Rightarrow>
          (case apply_clipboard_action text_of node_id batch_gesture of
             Ok text \<Rightarrow> b\<lparr>bw_clipboard := Some text\<rparr>
           | Fail _ \<Rightarrow> b)
      | other \<Rightarrow>
          (case execute_capability_action (c\<lparr>xc_url := committed_url (bw_tab b)\<rparr>) other
                  ((bw_exec b)\<lparr>ex_policy := tab_policy_of (bw_tab b)\<rparr>) of
             (_, x) \<Rightarrow> b\<lparr>bw_exec := x, bw_tab := (bw_tab b)\<lparr>tab_policy_of := ex_policy x\<rparr>\<rparr>))"

definition drain_actions :: "exec_ctx \<Rightarrow> (string \<Rightarrow> string outcome) \<Rightarrow> worker_response \<Rightarrow> browser \<Rightarrow> browser" where
  "drain_actions c text_of r b = fold (dispatch_action c text_of (gesture r)) (runtime_actions r) b"

section \<open>What an action sends\<close>

text \<open>A command that asks for the address, or none.\<close>

fun cmd_url :: "network_cmd \<Rightarrow> string option" where
  "cmd_url (Fetch _ _ url _ _ _ _ _) = Some url"
| "cmd_url (FetchImage _ url _ _) = Some url"
| "cmd_url _ = None"

fun cmd_bytes :: "network_cmd \<Rightarrow> nat" where
  "cmd_bytes (StorageStore _ _ v) = estimate_value_bytes v"
| "cmd_bytes _ = 0"

lemma execute_sends:
  assumes "execute_capability_action c a x = (res, x')"
  obtains new where "ex_network x' = ex_network x @ new" "length new \<le> 1"
    and "\<And>cmd url. cmd \<in> set new \<Longrightarrow> cmd_url cmd = Some url \<Longrightarrow>
           \<not> (prefix ''file://'' (xc_url c) \<and> target_is_remote_mizu c url)
           \<and> ((\<exists>m p tv f hs. a = RResolvedCall m url p tv f hs) \<or> a = RDownloadMedia url)"
    and "\<And>cmd. cmd \<in> set new \<Longrightarrow> cmd_url cmd = None \<Longrightarrow>
           (\<exists>m y p pp tv f hs. a = RNetworkCall m y p pp tv f hs) \<or> (\<exists>k v. a = RStoreLocal k v)"
    and "ex_network_open x' = ex_network_open x"
proof -
  have "\<exists>new. ex_network x' = ex_network x @ new \<and> length new \<le> 1 \<and> ex_network_open x' = ex_network_open x
    \<and> (\<forall>cmd \<in> set new. \<forall>url. cmd_url cmd = Some url \<longrightarrow>
           \<not> (prefix ''file://'' (xc_url c) \<and> target_is_remote_mizu c url)
           \<and> ((\<exists>m p tv f hs. a = RResolvedCall m url p tv f hs) \<or> a = RDownloadMedia url))
    \<and> (\<forall>cmd \<in> set new. cmd_url cmd = None \<longrightarrow>
           (\<exists>m y p pp tv f hs. a = RNetworkCall m y p pp tv f hs) \<or> (\<exists>k v. a = RStoreLocal k v))"
    using assms
    by (cases a) (auto simp: execute_resolved_call_def execute_store_local_def execute_download_media_def send_network_def
        send_logic_def Let_def split: if_splits option.splits outcome.splits prod.splits)
  then show thesis using that by blast
qed


definition local_url :: url_parser where
  "local_url u = Inr \<lparr>u_scheme = ''mizu'', u_host = Some ''localhost'', u_username = [], u_password = None, u_port = None,
                       u_path = ''/'', u_query = None\<rparr>"

definition local_page :: exec_ctx where
  "local_page = \<lparr>xc_window = demo_ctx\<lparr>wc_url_parse := local_url\<rparr>, xc_interner = \<lparr>im_map = [''v'' \<mapsto> 0], im_vec = [''v'']\<rparr>,
                 xc_tab = 1, xc_url = ''file:///a.mizu'', xc_now' = 0, xc_time_ms = 0\<rparr>"

definition idle_executor :: executor where
  "idle_executor = \<lparr>ex_network_open = True, ex_network = [], ex_logic_open = True, ex_logic = [], ex_ledger = Map.empty,
                    ex_policy = demo_page\<rparr>"


section \<open>Storage is paid for\<close>

definition execute_all :: "exec_ctx \<Rightarrow> runtime_action list \<Rightarrow> executor \<Rightarrow> executor" where
  "execute_all c acts x = fold (\<lambda>a x. snd (execute_capability_action c a x)) acts x"

abbreviation sent_bytes :: "executor \<Rightarrow> nat" where
  "sent_bytes x \<equiv> sum_list (map cmd_bytes (ex_network x))"

definition paid :: "executor \<Rightarrow> executor \<Rightarrow> bool" where
  "paid x x' \<longleftrightarrow> policy_ok (ex_policy x') \<and> origin_key (ex_policy x') = origin_key (ex_policy x)
     \<and> quota_bytes (ex_policy x') = quota_bytes (ex_policy x) \<and> ex_network_open x' = ex_network_open x
     \<and> sent_bytes x' - sent_bytes x \<le> bytes_stored (ex_ledger x') (ex_policy x) - bytes_stored (ex_ledger x) (ex_policy x)
     \<and> sent_bytes x \<le> sent_bytes x' \<and> bytes_stored (ex_ledger x) (ex_policy x) \<le> bytes_stored (ex_ledger x') (ex_policy x)
     \<and> (bytes_stored (ex_ledger x) (ex_policy x) \<le> quota_bytes (ex_policy x) \<longrightarrow>
          bytes_stored (ex_ledger x') (ex_policy x) \<le> quota_bytes (ex_policy x))"

lemma paid_refl: "policy_ok (ex_policy x) \<Longrightarrow> paid x x"
  by (simp add: paid_def)

lemma paid_trans: "paid x y \<Longrightarrow> paid y z \<Longrightarrow> paid x z"
  by (auto simp: paid_def bytes_stored_def)

lemma paid_send: "policy_ok (ex_policy x) \<Longrightarrow> cmd_bytes cmd = 0 \<Longrightarrow> paid x (send_network cmd x)"
  by (simp add: paid_def send_network_def)

lemma paid_logic: "policy_ok (ex_policy x) \<Longrightarrow> paid x (send_logic tab ev x)"
  by (simp add: paid_def send_logic_def)

lemma paid_store:
  assumes "policy_ok (ex_policy x)"
  shows "paid x (snd (execute_store_local c key v x))"
proof -
  obtain res l p where run: "check_storage_write (wc_now (xc_window c)) (xc_now' c) (ex_ledger x) (ex_policy x) (estimate_value_bytes v)
      = (res, l, p)" by (rule prod_cases3)
  note facts = check_storage_write_cases [OF assms run]
  show ?thesis
    using run facts(1,3,4,5) facts(2) [of "origin_key (ex_policy x)"]
    by (cases res) (auto simp: execute_store_local_def paid_def send_network_def Let_def bytes_stored_def fits_def)
qed

lemma paid_execute:
  assumes "policy_ok (ex_policy x)"
  shows "paid x (snd (execute_capability_action c a x))"
proof (cases a)
  case (RStoreLocal key v)
  then show ?thesis using paid_store [OF assms] by simp
qed (use assms in \<open>auto simp: execute_resolved_call_def execute_download_media_def intro!: paid_refl paid_send paid_logic split: option.splits\<close>)

lemma paid_all: "policy_ok (ex_policy x) \<Longrightarrow> paid x (execute_all c acts x)"
proof (induction acts arbitrary: x)
  case (Cons a acts)
  have p: "paid x (snd (execute_capability_action c a x))" using Cons.prems by (rule paid_execute)
  then have "policy_ok (ex_policy (snd (execute_capability_action c a x)))" by (simp add: paid_def)
  from paid_trans [OF p Cons.IH [OF this]] show ?case by (simp add: execute_all_def)
qed (simp add: execute_all_def paid_refl)



section \<open>From a hostile frame to the network\<close>

text \<open>An address the document with these endpoints may be fetched from.\<close>

definition declared :: "url_registry \<Rightarrow> string \<Rightarrow> string \<Rightarrow> bool" where
  "declared reg dmn url \<longleftrightarrow>
     (\<exists>y ep. reg y = Some ep \<and> (url = raw_target ep \<or> (\<exists>pp. resolve_endpoint_url dmn ep pp = Ok url)))"

text \<open>
  What a batch without a gesture leaves as it was, and what it may add to the network's queue.
\<close>

definition quiet :: "url_registry \<Rightarrow> string \<Rightarrow> browser \<Rightarrow> browser \<Rightarrow> bool" where
  "quiet reg dmn b b' \<longleftrightarrow>
     bw_effects b' = bw_effects b \<and> bw_clipboard b' = bw_clipboard b \<and> committed_url (bw_tab b') = committed_url (bw_tab b)
     \<and> (\<exists>new. ex_network (bw_exec b') = ex_network (bw_exec b) @ new
          \<and> (\<forall>cmd \<in> set new. case cmd_url cmd of Some url \<Rightarrow> declared reg dmn url | None \<Rightarrow> True))"

lemma quiet_refl: "quiet reg dmn b b"
  by (simp add: quiet_def)

lemma quiet_trans: "quiet reg dmn a b \<Longrightarrow> quiet reg dmn b c \<Longrightarrow> quiet reg dmn a c"
  unfolding quiet_def by (auto simp: Ball_def)

lemma quiet_action:
  assumes "admissible reg dmn DocumentDriven a"
  shows "quiet reg dmn b (dispatch_action c text_of False a b)"
proof -
  let ?c = "c\<lparr>xc_url := committed_url (bw_tab b)\<rparr>" and ?x = "(bw_exec b)\<lparr>ex_policy := tab_policy_of (bw_tab b)\<rparr>"
  obtain res x' where r: "execute_capability_action ?c a ?x = (res, x')" by fastforce
  obtain new where new: "ex_network x' = ex_network ?x @ new"
    and urls: "\<And>cmd url. cmd \<in> set new \<Longrightarrow> cmd_url cmd = Some url \<Longrightarrow>
           (\<exists>m p tv f hs. a = RResolvedCall m url p tv f hs) \<or> a = RDownloadMedia url"
    using execute_sends [OF r] by metis
  have "case cmd_url cmd of Some url \<Rightarrow> declared reg dmn url | None \<Rightarrow> True" if "cmd \<in> set new" for cmd
    using urls [OF that] assms by (fastforce simp: declared_def split: option.splits)
  then show ?thesis
    using assms r new
    by (cases a) (auto simp: dispatch_action_def quiet_def apply_clipboard_action_def split: prod.splits)
qed

lemma quiet_batch:
  "list_all (admissible reg dmn DocumentDriven) acts \<Longrightarrow> quiet reg dmn b (fold (dispatch_action c text_of False) acts b)"
  by (induction acts arbitrary: b) (auto intro: quiet_refl quiet_trans quiet_action)

text \<open>
  (C3) End to end, without a gesture nothing leaves the document's bounds: however the
  worker behaves and however its frames interleave with the browser's events, a response
  that answers a timer, a network answer or a load changes neither the tab's address nor the
  clipboard, starts no navigation, and fetches only addresses declared by the document that
  was the last one queued when the response was read.
\<close>

theorem no_gesture_no_escape:
  assumes "(k, Ok r) \<in> set (br_delivered (bridge_run steps))" "agency_of (br_events (bridge_run steps) ! k) = DocumentDriven"
  shows "\<exists>n \<le> length (br_events (bridge_run steps)).
     case last_reload (take n (br_events (bridge_run steps))) of (reg, dmn) \<Rightarrow> quiet reg dmn b (drain_actions c text_of r b)"
proof -
  have "judged (br_events (bridge_run steps)) k r" using bridge_run_inv [of steps] assms(1) by (simp add: bridge_inv_def)
  then obtain n where "n \<le> length (br_events (bridge_run steps))" "\<not> gesture r"
    "list_all (admissible (fst (last_reload (take n (br_events (bridge_run steps))))) (snd (last_reload (take n (br_events (bridge_run steps)))))
       DocumentDriven) (runtime_actions r)"
    using assms(2) by (auto simp: judged_def is_user_gesture_def)
  then show ?thesis
    using quiet_batch by (intro exI [of _ n]) (auto simp: drain_actions_def split: prod.splits)
qed

theorem no_gesture_no_escape_witness:
  "\<exists>n \<le> 1. case last_reload (take n [UiRootTimer 0]) of (reg, dmn) \<Rightarrow>
     quiet reg dmn \<lparr>bw_tab = demo_tab ''mizu://a.dev/'', bw_exec = idle_executor, bw_clipboard = None, bw_effects = []\<rparr>
       (drain_actions local_page (\<lambda>_. Ok ''text'') \<lparr>mutated_variables = [], runtime_actions = [RStoreLocal ''k'' VNull], gesture = False\<rparr>
         \<lparr>bw_tab = demo_tab ''mizu://a.dev/'', bw_exec = idle_executor, bw_clipboard = None, bw_effects = []\<rparr>)"
proof -
  let ?steps = "[Queue (UiRootTimer 0), Frame forged_reply]"
  have ev: "br_events (bridge_run ?steps) = [UiRootTimer 0]"
    by (simp add: bridge_run_def bridge_new_def forged_reply_def split: prod.splits)
  show ?thesis
    using no_gesture_no_escape [of 0 _ ?steps, unfolded forged_reply_run ev] by simp
qed

end
