(* ===== verification/Mizu_Frame.thy ===== *)
theory Mizu_Frame
  imports Mizu_Broker
begin

text \<open>
  The byte stream between broker and worker: length-prefixed frames
  (\<^verbatim>\<open>crates/ipc/src/transport/frame.rs\<close>), the typed channel over them
  (\<^verbatim>\<open>transport/channel.rs\<close>), the handshake (\<^verbatim>\<open>process/mod.rs\<close>), the worker's loop down to the
  bytes (\<^verbatim>\<open>crates/worker/src/main.rs\<close>) and what the host makes of a broken channel
  (\<^verbatim>\<open>worker_host/mod.rs\<close>).

  A reader is the bytes still to come and what follows them, the end of the stream or an
  operating-system error; a writer is what has been written and whether writing fails. The
  archive format (rkyv) is a pair of functions \<open>enc\<close> and \<open>dec\<close>.
\<close>

unbundle bit_operations_syntax

type_synonym u8 = "8 word"

section \<open>Streams\<close>

datatype io_error = UnexpectedEof | OtherIo string

datatype ipc_error =
    Transport string
  | FrameTooLarge u32 u32
  | Validation string
  | Shm string
  | WorkerDied "int option"
  | Protocol string
  | Sandbox string

record reader =
  rd_bytes :: "u8 list"
  rd_fault :: "string option"

record writer =
  wr_bytes :: "u8 list"
  wr_fault :: "string option"

definition read_exact :: "nat \<Rightarrow> reader \<Rightarrow> (io_error + u8 list) \<times> reader" where
  "read_exact n r =
     (if n \<le> length (rd_bytes r) then (Inr (take n (rd_bytes r)), r\<lparr>rd_bytes := drop n (rd_bytes r)\<rparr>)
      else (Inl (case rd_fault r of None \<Rightarrow> UnexpectedEof | Some e \<Rightarrow> OtherIo e), r\<lparr>rd_bytes := []\<rparr>))"

definition write_all :: "u8 list \<Rightarrow> writer \<Rightarrow> (ipc_error + unit) \<times> writer" where
  "write_all bs w = (case wr_fault w of None \<Rightarrow> (Inr (), w\<lparr>wr_bytes := wr_bytes w @ bs\<rparr>) | Some e \<Rightarrow> (Inl (Transport e), w))"

section \<open>Frames\<close>

definition MAX_FRAME_BYTES :: u32 where
  "MAX_FRAME_BYTES = 64 * 1024 * 1024"

definition to_le_bytes :: "u32 \<Rightarrow> u8 list" where
  "to_le_bytes n = [ucast n, ucast (drop_bit 8 n), ucast (drop_bit 16 n), ucast (drop_bit 24 n)]"

fun from_le_bytes :: "u8 list \<Rightarrow> u32" where
  "from_le_bytes [] = 0"
| "from_le_bytes (b # bs) = ucast b OR push_bit 8 (from_le_bytes bs)"

definition write_frame :: "u8 list \<Rightarrow> writer \<Rightarrow> (ipc_error + unit) \<times> writer" where
  "write_frame body w =
     (if length body < 2 ^ 32 \<and> word_of_nat (length body) \<le> MAX_FRAME_BYTES
      then case write_all (to_le_bytes (word_of_nat (length body))) w of
             (Inl e, w1) \<Rightarrow> (Inl e, w1)
           | (Inr _, w1) \<Rightarrow> write_all body w1
      else (Inl (FrameTooLarge (word_of_nat (length body)) MAX_FRAME_BYTES), w))"

definition read_frame :: "reader \<Rightarrow> (ipc_error + u8 list) \<times> reader" where
  "read_frame r =
     (case read_exact 4 r of
        (Inl UnexpectedEof, r1) \<Rightarrow> (Inl (WorkerDied None), r1)
      | (Inl (OtherIo e), r1) \<Rightarrow> (Inl (Transport e), r1)
      | (Inr len_buf, r1) \<Rightarrow>
          let len = from_le_bytes len_buf in
          if len > MAX_FRAME_BYTES then (Inl (FrameTooLarge len MAX_FRAME_BYTES), r1)
          else case read_exact (unat len) r1 of
                 (Inl UnexpectedEof, r2) \<Rightarrow> (Inl (WorkerDied None), r2)
               | (Inl (OtherIo e), r2) \<Rightarrow> (Inl (Transport e), r2)
               | (Inr body, r2) \<Rightarrow> (Inr body, r2))"

section \<open>The typed channel\<close>

definition send :: "('m \<Rightarrow> string + u8 list) \<Rightarrow> 'm \<Rightarrow> writer \<Rightarrow> (ipc_error + unit) \<times> writer" where
  "send enc msg w =
     (case enc msg of
        Inl e \<Rightarrow> (Inl (Validation e), w)
      | Inr bytes \<Rightarrow> write_frame bytes w)"

definition recv :: "(u8 list \<Rightarrow> string + 'm) \<Rightarrow> reader \<Rightarrow> (ipc_error + 'm) \<times> reader" where
  "recv dec r =
     (case read_frame r of
        (Inl e, r1) \<Rightarrow> (Inl e, r1)
      | (Inr bytes, r1) \<Rightarrow>
          (case dec bytes of
             Inl e \<Rightarrow> (Inl (Validation e), r1)
           | Inr m \<Rightarrow> (Inr m, r1)))"

lemma read_exact_Inr:
  "read_exact n r = (Inr bs, r') \<longleftrightarrow>
     n \<le> length (rd_bytes r) \<and> bs = take n (rd_bytes r) \<and> r' = r\<lparr>rd_bytes := drop n (rd_bytes r)\<rparr>"
  by (auto simp: read_exact_def)

lemma read_frame_Inr:
  assumes "read_frame r = (Inr body, r')"
  shows "length (rd_bytes r') < length (rd_bytes r)"
  using assms
  by (auto simp: read_frame_def Let_def read_exact_def split: if_splits option.splits io_error.splits)

lemma recv_Inr: "recv dec r = (Inr m, r') \<Longrightarrow> length (rd_bytes r') < length (rd_bytes r)"
  by (auto simp: recv_def dest: read_frame_Inr split: prod.splits sum.splits)

text \<open>A peer that receives until the channel fails.\<close>

function recv_all :: "(u8 list \<Rightarrow> string + 'm) \<Rightarrow> reader \<Rightarrow> 'm list \<times> ipc_error" where
  "recv_all dec r =
     (case recv dec r of
        (Inl e, r') \<Rightarrow> ([], e)
      | (Inr m, r') \<Rightarrow> (case recv_all dec r' of (ms, e) \<Rightarrow> (m # ms, e)))"
  by auto
termination
  by (relation "measure (\<lambda>(dec, r). length (rd_bytes r))") (auto dest: recv_Inr [OF sym])

declare recv_all.simps [simp del]

fun send_all :: "('m \<Rightarrow> string + u8 list) \<Rightarrow> 'm list \<Rightarrow> writer \<Rightarrow> (ipc_error + unit) \<times> writer" where
  "send_all enc [] w = (Inr (), w)"
| "send_all enc (m # ms) w =
     (case send enc m w of
        (Inl e, w1) \<Rightarrow> (Inl e, w1)
      | (Inr _, w1) \<Rightarrow> send_all enc ms w1)"

section \<open>The handshake\<close>

text \<open>
  The worker's first frame and the broker's judgement of it; \<open>dbg\<close> is the derived \<^verbatim>\<open>Debug\<close> text
  of an envelope.
\<close>

definition connect_to_broker :: "(wire_envelope \<Rightarrow> string + u8 list) \<Rightarrow> string \<Rightarrow> writer \<Rightarrow> (ipc_error + unit) \<times> writer" where
  "connect_to_broker enc token w = send enc (EnvHello token) w"

definition accept_worker ::
  "(u8 list \<Rightarrow> string + wire_envelope) \<Rightarrow> (wire_envelope \<Rightarrow> string) \<Rightarrow> string \<Rightarrow> reader \<Rightarrow> (ipc_error + unit) \<times> reader" where
  "accept_worker dec dbg token r =
     (case recv dec r of
        (Inr (EnvHello got), r1) \<Rightarrow>
          if got = token then (Inr (), r1)
          else (Inl (Protocol (''worker handshake token mismatch; a foreign process won the ''
                  @ ''rendezvous race and was rejected'')), r1)
      | (Inr other, r1) \<Rightarrow> (Inl (Protocol (''expected Hello as the first worker frame, got '' @ dbg other)), r1)
      | (Inl e, r1) \<Rightarrow> (Inl e, r1))"

section \<open>The worker down to the bytes\<close>

definition EXIT_TRANSPORT :: nat where
  "EXIT_TRANSPORT = 4"

fun exit_code_for_recv_failure :: "ipc_error \<Rightarrow> nat" where
  "exit_code_for_recv_failure (WorkerDied _) = EXIT_CLEAN"
| "exit_code_for_recv_failure _ = EXIT_TRANSPORT"

function worker_run ::
  "(u8 list \<Rightarrow> string + wire_event) \<Rightarrow> (wire_envelope \<Rightarrow> string + u8 list) \<Rightarrow> (mval \<Rightarrow> mval \<Rightarrow> bool) \<Rightarrow>
   reader \<Rightarrow> writer \<Rightarrow> tab_session \<Rightarrow> nat outcome \<times> writer" where
  "worker_run dec enc peq r w s =
     (case recv dec r of
        (Inl e, r1) \<Rightarrow> (Ok (exit_code_for_recv_failure e), w)
      | (Inr event, r1) \<Rightarrow>
          if event = WCloseTab then (Ok EXIT_CLEAN, w)
          else case worker_reply peq event s of
            (Fail f, s1) \<Rightarrow> (Fail f, w)
          | (Ok envelope, s1) \<Rightarrow>
              (case send enc envelope w of
                 (Inl e, w1) \<Rightarrow> (Ok (exit_code_for_recv_failure e), w1)
               | (Inr _, w1) \<Rightarrow> worker_run dec enc peq r1 w1 s1))"
  by auto
termination
  by (relation "measure (\<lambda>(dec, enc, peq, r, w, s). length (rd_bytes r))") (auto dest: recv_Inr [OF sym])

declare worker_run.simps [simp del]

text \<open>The process: a panic of the evaluation thread is an exit code too.\<close>

definition worker_process ::
  "(u8 list \<Rightarrow> string + wire_event) \<Rightarrow> (wire_envelope \<Rightarrow> string + u8 list) \<Rightarrow> (mval \<Rightarrow> mval \<Rightarrow> bool) \<Rightarrow>
   reader \<Rightarrow> writer \<Rightarrow> nat \<times> writer" where
  "worker_process dec enc peq r w =
     (case worker_run dec enc peq r w (defer_alias_resolution session_new) of
        (Ok code, w1) \<Rightarrow> (code, w1)
      | (Fail _, w1) \<Rightarrow> (EXIT_TRANSPORT, w1))"

section \<open>What the host makes of a broken channel\<close>

text \<open>\<open>txt\<close> is the platform's \<^verbatim>\<open>Debug\<close> text of the status.\<close>

datatype exit_status = Exited int | Signaled nat

datatype tab_crash = CleanExit | SandboxViolation string | Crashed string | ProtocolCrash string

fun into_mizu_error :: "tab_crash \<Rightarrow> mizu_error" where
  "into_mizu_error CleanExit = IpcError ''worker exited normally''"
| "into_mizu_error (SandboxViolation status) =
     SecurityViolation (''worker process was terminated by its sandbox ('' @ status
       @ ''); the document attempted an operation the confinement forbids'')"
| "into_mizu_error (Crashed status) = IpcError (''worker process died unexpectedly ('' @ status @ '')'')"
| "into_mizu_error (ProtocolCrash msg) = IpcError msg"

definition warrants_crash_page :: "tab_crash \<Rightarrow> bool" where
  "warrants_crash_page c \<longleftrightarrow> c \<noteq> CleanExit"

fun is_sandbox_kill :: "exit_status \<Rightarrow> bool" where
  "is_sandbox_kill (Signaled n) = (n = 31 \<or> n = 9)"
| "is_sandbox_kill (Exited _) = False"

definition classify_failure ::
  "(exit_status \<Rightarrow> string) \<Rightarrow> (ipc_error \<Rightarrow> string) \<Rightarrow> ipc_error + exit_status option \<Rightarrow> ipc_error \<Rightarrow> tab_crash" where
  "classify_failure txt disp status e =
     (case status of
        Inr (Some st) \<Rightarrow>
          if st = Exited 0 then CleanExit
          else if is_sandbox_kill st then SandboxViolation (txt st)
          else Crashed (txt st)
      | Inr None \<Rightarrow> ProtocolCrash (''worker channel failed: '' @ disp e)
      | Inl wait_err \<Rightarrow>
          ProtocolCrash (''worker channel failed ('' @ disp e @ ''), and its status was unreadable ('' @ disp wait_err @ '')''))"

section \<open>The framing contract\<close>

text \<open>
  Messages that can be told apart in a stream: what follows a message does not matter, and a
  message cut short is recognised as such. \<open>all\<close> is a peer that reads until the end.
\<close>

locale framing =
  fixes put :: "'m \<Rightarrow> 'b list option" and get :: "'b list \<Rightarrow> 'e + 'm \<times> 'b list" and cut_off :: 'e
    and all :: "'b list \<Rightarrow> 'm list \<times> 'e"
  assumes get_put: "put m = Some bs \<Longrightarrow> get (bs @ rest) = Inr (m, rest)"
    and get_short: "put m = Some bs \<Longrightarrow> strict_prefix p bs \<Longrightarrow> get p = Inl cut_off"
    and get_nil: "get [] = Inl cut_off"
    and all_step: "all bs = (case get bs of Inl e \<Rightarrow> ([], e) | Inr (m, rest) \<Rightarrow> (case all rest of (ms, e) \<Rightarrow> (m # ms, e)))"
begin

lemma all_put: "put m = Some bs \<Longrightarrow> all (bs @ rest) = (case all rest of (ms, e) \<Rightarrow> (m # ms, e))"
  by (subst all_step) (simp add: get_put)

lemma all_sent: "list_all2 (\<lambda>m bs. put m = Some bs) ms bss \<Longrightarrow> all (concat bss) = (ms, cut_off)"
proof (induction ms bss rule: list_all2_induct)
  case Nil
  show ?case by (subst all_step) (simp add: get_nil)
qed (simp add: all_put)

lemma all_truncated:
  assumes "list_all2 (\<lambda>m bs. put m = Some bs) ms bss" "prefix p (concat bss)"
  shows "\<exists>k. all p = (take k ms, cut_off)"
  using assms
proof (induction ms bss arbitrary: p rule: list_all2_induct)
  case Nil
  then show ?case by (subst all_step) (simp add: get_nil)
next
  case (Cons m ms bs bss)
  from Cons.prems consider "strict_prefix p bs" | q where "p = bs @ q" "prefix q (concat bss)"
    by (cases "p = bs") (auto simp: prefix_append strict_prefix_def)
  then show ?case
  proof cases
    case 1
    then have "all p = ([], cut_off)" by (subst all_step) (simp add: get_short [OF Cons.hyps(1)])
    then show ?thesis by (intro exI [of _ 0]) simp
  next
    case (2 q)
    then obtain k where "all q = (take k ms, cut_off)" using Cons.IH by blast
    then show ?thesis using 2 all_put [OF Cons.hyps(1), of q] by (intro exI [of _ "Suc k"]) simp
  qed
qed

end

section \<open>Frames are a framing\<close>

lemma from_to_le: "from_le_bytes (to_le_bytes n) = n"
proof (rule bit_word_eqI)
  fix i assume "i < LENGTH(32)"
  then consider "i < 8" | "8 \<le> i" "i < 16" | "16 \<le> i" "i < 24" | "24 \<le> i" "i < 32" by (simp, linarith)
  then show "bit (from_le_bytes (to_le_bytes n)) i = bit n i"
    by cases (auto simp: to_le_bytes_def bit_simps)
qed

lemma length_le [simp]: "length (to_le_bytes n) = 4"
  by (simp add: to_le_bytes_def)

definition frame_of :: "u8 list \<Rightarrow> u8 list" where
  "frame_of body = to_le_bytes (word_of_nat (length body)) @ body"

definition fits_frame :: "u8 list \<Rightarrow> bool" where
  "fits_frame body \<longleftrightarrow> length body < 2 ^ 32 \<and> (word_of_nat (length body) :: u32) \<le> MAX_FRAME_BYTES"

abbreviation stream :: "u8 list \<Rightarrow> reader" where
  "stream bs \<equiv> \<lparr>rd_bytes = bs, rd_fault = None\<rparr>"

lemma read_frame_of:
  assumes "fits_frame body"
  shows "read_frame (stream (frame_of body @ rest)) = (Inr body, stream rest)"
proof -
  have "unat (word_of_nat (length body) :: u32) = length body"
    using assms by (simp add: fits_frame_def unat_of_nat take_bit_nat_eq_self)
  then show ?thesis
    using assms by (simp add: read_frame_def read_exact_def frame_of_def from_to_le fits_frame_def Let_def not_less)
qed

lemma read_frame_short:
  assumes "fits_frame body" "strict_prefix p (frame_of body)"
  shows "fst (read_frame (stream p)) = Inl (WorkerDied None)"
proof (cases "length p < 4")
  case True
  then show ?thesis by (simp add: read_frame_def read_exact_def)
next
  case False
  have len: "unat (word_of_nat (length body) :: u32) = length body"
    using assms by (simp add: fits_frame_def unat_of_nat take_bit_nat_eq_self)
  from assms(2) False obtain q where q: "p = to_le_bytes (word_of_nat (length body)) @ q" "strict_prefix q body"
  proof -
    have "prefix (to_le_bytes (word_of_nat (length body))) p"
      by (rule prefix_length_prefix [of _ "frame_of body"]) (use assms(2) False in \<open>simp_all add: frame_of_def strict_prefix_def\<close>)
    then obtain q where "p = to_le_bytes (word_of_nat (length body)) @ q" by (auto simp: prefix_def)
    with that assms(2) show ?thesis by (auto simp: frame_of_def strict_prefix_def)
  qed
  then have "length q < length body" by (simp add: prefix_length_less)
  then show ?thesis
    using q(1) assms(1) len by (simp add: read_frame_def read_exact_def from_to_le fits_frame_def Let_def not_less)
qed

definition channel_put :: "('m \<Rightarrow> string + u8 list) \<Rightarrow> 'm \<Rightarrow> u8 list option" where
  "channel_put enc m = (case enc m of Inr b \<Rightarrow> if fits_frame b then Some (frame_of b) else None | Inl _ \<Rightarrow> None)"

definition channel_get :: "(u8 list \<Rightarrow> string + 'm) \<Rightarrow> u8 list \<Rightarrow> ipc_error + 'm \<times> u8 list" where
  "channel_get dec bs = (case recv dec (stream bs) of (Inl e, _) \<Rightarrow> Inl e | (Inr m, r) \<Rightarrow> Inr (m, rd_bytes r))"

lemma read_frame_fault: "read_frame r = (res, r') \<Longrightarrow> rd_fault r' = rd_fault r"
  by (auto simp: read_frame_def read_exact_def Let_def split: if_splits option.splits)

lemma recv_stream: "recv dec (stream bs) = (Inr m, r) \<Longrightarrow> r = stream (rd_bytes r)"
  by (auto simp: recv_def dest!: read_frame_fault split: prod.splits sum.splits)

lemma channel_framing:
  assumes "\<And>m b. enc m = Inr b \<Longrightarrow> dec b = Inr m"
  shows "framing (channel_put enc) (channel_get dec) (WorkerDied None) (\<lambda>bs. recv_all dec (stream bs))"
proof
  fix m bs rest p
  assume put: "channel_put enc m = Some bs"
  then obtain b where b: "enc m = Inr b" "fits_frame b" "bs = frame_of b"
    by (auto simp: channel_put_def split: sum.splits if_splits)
  show "channel_get dec (bs @ rest) = Inr (m, rest)"
    using b assms by (simp add: channel_get_def recv_def read_frame_of)
  show "channel_get dec p = Inl (WorkerDied None)" if "strict_prefix p bs"
    using read_frame_short [of b p] b that
    by (cases "read_frame (stream p)") (simp add: channel_get_def recv_def)
next
  show "channel_get dec [] = Inl (WorkerDied None)"
    by (simp add: channel_get_def recv_def read_frame_def read_exact_def)
next
  fix bs
  show "recv_all dec (stream bs) = (case channel_get dec bs of Inl e \<Rightarrow> ([], e)
      | Inr (m, rest) \<Rightarrow> (case recv_all dec (stream rest) of (ms, e) \<Rightarrow> (m # ms, e)))"
    using recv_stream [of dec bs]
    by (subst recv_all.simps) (auto simp: channel_get_def split: prod.splits sum.splits)
qed

text \<open>The frames themselves, without an archive.\<close>

interpretation raw: framing "channel_put Inr" "channel_get Inr" "WorkerDied None" "\<lambda>bs. recv_all Inr (stream bs)"
  by (rule channel_framing) simp

lemma send_Inr:
  "wr_fault w = None \<Longrightarrow> send enc m w = (Inr u, w') \<longleftrightarrow>
     (\<exists>bs. channel_put enc m = Some bs \<and> w' = w\<lparr>wr_bytes := wr_bytes w @ bs\<rparr>)"
  by (auto simp: send_def write_frame_def write_all_def channel_put_def fits_frame_def frame_of_def
      split: sum.splits if_splits)

lemma send_all_puts:
  assumes "send_all enc ms w = (Inr u, w')" "wr_fault w = None"
  shows "\<exists>bss. list_all2 (\<lambda>m bs. channel_put enc m = Some bs) ms bss \<and> wr_bytes w' = wr_bytes w @ concat bss"
  using assms
proof (induction ms arbitrary: w)
  case (Cons m ms)
  then obtain bs where bs: "channel_put enc m = Some bs" and rest: "send_all enc ms (w\<lparr>wr_bytes := wr_bytes w @ bs\<rparr>) = (Inr u, w')"
    by (auto simp: send_Inr split: prod.splits sum.splits)
  from Cons.IH [OF rest] Cons.prems(2) obtain bss where
    "list_all2 (\<lambda>m bs. channel_put enc m = Some bs) ms bss" "wr_bytes w' = wr_bytes w @ bs @ concat bss"
    by auto
  with bs show ?case by (intro exI [of _ "bs # bss"]) simp
qed simp

section \<open>Properties\<close>


text \<open>
  (C34) A hostile peer cannot make the receiver allocate: whatever bytes arrive, a body that is
  read is at most 64 MiB long and is exactly what follows its length; a longer length is
  refused as soon as the four bytes of it are read.
\<close>

theorem hostile_frame_bounded:
  assumes "read_frame r = (res, r')"
  shows "case res of
      Inr body \<Rightarrow> length body \<le> 64 * 1024 * 1024 \<and>
        (\<exists>header. length header = 4 \<and> rd_bytes r = header @ body @ rd_bytes r' \<and> unat (from_le_bytes header) = length body)
    | Inl (FrameTooLarge len limit) \<Rightarrow> len > limit \<and> rd_bytes r' = drop 4 (rd_bytes r)
    | Inl _ \<Rightarrow> True"
proof -
  have len: "unat len \<le> 64 * 1024 * 1024" if "len \<le> MAX_FRAME_BYTES" for len
    using that by (simp add: MAX_FRAME_BYTES_def word_le_nat_alt)
  have "xs = take 4 xs @ take n (drop 4 xs) @ drop (n + 4) xs" for n and xs :: "u8 list"
    by (metis add.commute append_take_drop_id drop_drop)
  then show ?thesis
    using assms len
    by (auto simp: read_frame_def read_exact_def Let_def not_less min_def intro!: exI [of _ "take 4 (rd_bytes r)"]
        split: if_splits option.splits)
qed

text \<open>
  (C27) The worker process implements its message loop: fed the frames of a sequence of events,
  it writes exactly the frames of the loop's replies, in order, and exits with the loop's code,
  provided the archives of the replies fit a frame.
\<close>

theorem worker_run_refines_loop:
  assumes "\<And>m b. enc_ev m = Inr b \<Longrightarrow> dec_ev b = Inr m"
    and "list_all2 (\<lambda>m bs. channel_put enc_ev m = Some bs) events bss"
    and "worker_loop peq events s = (out, code)" "list_all2 (\<lambda>m bs. channel_put enc m = Some bs) out oss"
    and "wr_fault w = None"
  shows "worker_run dec_ev enc peq (stream (concat bss)) w s = (code, w\<lparr>wr_bytes := wr_bytes w @ concat oss\<rparr>)"
  using assms(2-5)
proof (induction events bss arbitrary: s out oss w rule: list_all2_induct)
  case Nil
  then show ?case
    by (subst worker_run.simps) (auto simp: recv_def read_frame_def read_exact_def)
next
  case (Cons ev events bs bss)
  have "channel_get dec_ev (bs @ concat bss) = Inr (ev, concat bss)"
    by (rule framing.get_put [OF channel_framing Cons.hyps(1)]) (rule assms(1))
  then have rv: "recv dec_ev (stream (bs @ concat bss)) = (Inr ev, stream (concat bss))"
    using recv_stream [of dec_ev "bs @ concat bss"]
    by (auto simp: channel_get_def split: prod.splits sum.splits)
  show ?case
  proof (cases "ev = WCloseTab")
    case True
    then show ?thesis using Cons.prems by (subst worker_run.simps) (simp add: rv)
  next
    case False
    obtain r s1 where rep: "worker_reply peq ev s = (r, s1)" by fastforce
    show ?thesis
    proof (cases r)
      case (Fail f)
      then show ?thesis using Cons.prems False rep by (subst worker_run.simps) (auto simp: rv)
    next
      case (Ok envelope)
      then obtain out' ob oss' where out: "out = envelope # out'" "oss = ob # oss'" "worker_loop peq events s1 = (out', code)"
        and ob: "channel_put enc envelope = Some ob" and oss': "list_all2 (\<lambda>m bs. channel_put enc m = Some bs) out' oss'"
        using Cons.prems(1,2) False rep by (auto simp: list_all2_Cons1 split: prod.splits)
      have sent: "send enc envelope w = (Inr (), w\<lparr>wr_bytes := wr_bytes w @ ob\<rparr>)"
        by (simp add: send_Inr [OF Cons.prems(3)] ob)
      have "worker_run dec_ev enc peq (stream (concat bss)) (w\<lparr>wr_bytes := wr_bytes w @ ob\<rparr>) s1
          = (code, w\<lparr>wr_bytes := wr_bytes w @ ob @ concat oss'\<rparr>)"
        using Cons.IH [OF out(3) oss', of "w\<lparr>wr_bytes := wr_bytes w @ ob\<rparr>"] Cons.prems(3) by simp
      then show ?thesis
        by (subst worker_run.simps) (simp add: rv False rep Ok sent out(2))
    qed
  qed
qed

theorem hostile_frame_bounded_witness:
  "case fst (read_frame (stream [1, 0, 0, 0, 7, 9])) of
      Inr body \<Rightarrow> length body \<le> 64 * 1024 * 1024 | Inl _ \<Rightarrow> False"
proof -
  have "(from_le_bytes [1, 0, 0, 0] :: u32) = 1" by simp
  then have "read_frame (stream [1, 0, 0, 0, 7, 9]) = (Inr [7], stream [9])"
    by (simp add: read_frame_def read_exact_def MAX_FRAME_BYTES_def Let_def word_less_nat_alt)
  then show ?thesis using hostile_frame_bounded [of "stream [1, 0, 0, 0, 7, 9]" "Inr [7]" "stream [9]"] by simp
qed

text \<open>An archive format for flags, one byte each.\<close>

definition enc_flag :: "bool \<Rightarrow> string + u8 list" where
  "enc_flag b = Inr [if b then 1 else 0]"

definition dec_flag :: "u8 list \<Rightarrow> string + bool" where
  "dec_flag bs = (if bs = [1] then Inr True else if bs = [0] then Inr False else Inl ''not a flag'')"

lemma flag_codec: "enc_flag m = Inr b \<Longrightarrow> dec_flag b = Inr m"
  by (cases m) (auto simp: enc_flag_def dec_flag_def)

lemma flags_sent:
  "send_all enc_flag [True, False] \<lparr>wr_bytes = [], wr_fault = None\<rparr>
     = (Inr (), \<lparr>wr_bytes = [1, 0, 0, 0, 1, 1, 0, 0, 0, 0], wr_fault = None\<rparr>)"
  by (simp add: send_def enc_flag_def write_frame_def write_all_def to_le_bytes_def MAX_FRAME_BYTES_def word_le_nat_alt)


text \<open>An archive format for one event, a click on node 9, and the empty reply to it.\<close>

definition enc_click :: "wire_event \<Rightarrow> string + u8 list" where
  "enc_click ev = (if ev = WClick 9 then Inr [] else Inl ''unsupported'')"

definition dec_click :: "u8 list \<Rightarrow> string + wire_event" where
  "dec_click bs = (if bs = [] then Inr (WClick 9) else Inl ''unsupported'')"

definition enc_noop :: "wire_envelope \<Rightarrow> string + u8 list" where
  "enc_noop env = (if env = EnvNoOp then Inr [] else Inl ''unsupported'')"

lemma empty_frame: "fits_frame []" "frame_of [] = [0, 0, 0, 0]"
  by (simp_all add: fits_frame_def frame_of_def to_le_bytes_def)

theorem worker_run_refines_loop_witness:
  "worker_run dec_click enc_noop (\<lambda>_ _. False) (stream (concat [[0, 0, 0, 0]])) \<lparr>wr_bytes = [], wr_fault = None\<rparr> session_new
     = (Ok EXIT_CLEAN, \<lparr>wr_bytes = [0, 0, 0, 0], wr_fault = None\<rparr>)"
proof -
  have loop: "worker_loop (\<lambda>_ _. False) [WClick 9] session_new = ([EnvNoOp], Ok EXIT_CLEAN)"
    by (simp add: worker_reply_def session_new_def apply_event_def comput_defs)
  have put: "list_all2 (\<lambda>m bs. channel_put enc_click m = Some bs) [WClick 9] [[0, 0, 0, 0]]"
    "list_all2 (\<lambda>m bs. channel_put enc_noop m = Some bs) [EnvNoOp] [[0, 0, 0, 0]]"
    by (simp_all add: channel_put_def enc_click_def enc_noop_def empty_frame)
  have codec: "enc_click m = Inr b \<Longrightarrow> dec_click b = Inr m" for m b
    by (auto simp: enc_click_def dec_click_def split: if_splits)
  show ?thesis
    using worker_run_refines_loop [where w = "\<lparr>wr_bytes = [], wr_fault = None\<rparr>", OF codec put(1) loop put(2)] by simp
qed

end
