(* ===== verification/Mizu_Lexer.thy ===== *)
theory Mizu_Lexer
  imports Mizu_Interner
begin

text \<open>
  The tokeniser of the logic block (\<^verbatim>\<open>parser/logic/lexer.rs\<close>): the scan of a line byte by
  byte, the indentation markers, and the cursor of the parser, which is the list of the tokens
  still to come.

  A slice between two ASCII quotes, digits or letters of a valid string is valid UTF-8, so the
  source's \<^verbatim>\<open>from_utf8\<close> errors cannot occur and have no branch.
\<close>

section \<open>Tokens\<close>

datatype token =
    KIdent string | KNum string | KStr string | KBool bool
  | KLParen | KRParen | KLBrace | KRBrace | KComma | KColon
  | KEq | KEqEq | KBangEq | KLt | KGt | KLtEq | KGtEq | KAndAnd | KOrOr | KBang
  | KPlus | KMinus | KStar | KSlash | KQuestion | KDot
  | KNewline | KIndent | KDedent

section \<open>One line\<close>

definition is_alpha :: "char \<Rightarrow> bool" where
  "is_alpha c \<longleftrightarrow> (let n = of_char c :: nat in (65 \<le> n \<and> n \<le> 90) \<or> (97 \<le> n \<and> n \<le> 122))"

definition ident_start :: "char \<Rightarrow> bool" where
  "ident_start c \<longleftrightarrow> is_alpha c \<or> c = CHR ''_'' \<or> c = CHR ''$''"

definition ident_char :: "char \<Rightarrow> bool" where
  "ident_char c \<longleftrightarrow> is_alpha c \<or> is_digit c \<or> c = CHR ''_''"

definition num_char :: "char \<Rightarrow> bool" where
  "num_char c \<longleftrightarrow> is_digit c \<or> c = CHR ''.''"

text \<open>The rest of a string literal: its content and what follows the closing quote.\<close>

fun scan_str :: "string \<Rightarrow> string \<Rightarrow> (string \<times> string) option" where
  "scan_str [] acc = None"
| "scan_str (c # cs) acc =
     (if c = CHR 0x22 then Some (rev acc, cs)
      else if c = CHR 0x5C then (case cs of [] \<Rightarrow> None | d # ds \<Rightarrow> scan_str ds (d # c # acc))
      else scan_str cs (c # acc))"

fun produces_value :: "token \<Rightarrow> bool" where
  "produces_value (KNum _) = True"
| "produces_value (KIdent _) = True"
| "produces_value (KBool _) = True"
| "produces_value (KStr _) = True"
| "produces_value KRParen = True"
| "produces_value _ = False"

definition word_token :: "string \<Rightarrow> token" where
  "word_token w = (if w = ''true'' then KBool True else if w = ''false'' then KBool False else KIdent w)"

text \<open>An operator and the number of bytes it takes, looking one byte ahead.\<close>

definition two_char_op :: "char \<Rightarrow> char \<Rightarrow> token option" where
  "two_char_op b c =
     (if b = CHR ''='' \<and> c = CHR ''='' then Some KEqEq
      else if b = CHR ''!'' \<and> c = CHR ''='' then Some KBangEq
      else if b = CHR ''<'' \<and> c = CHR ''='' then Some KLtEq
      else if b = CHR ''>'' \<and> c = CHR ''='' then Some KGtEq
      else if b = CHR ''&'' \<and> c = CHR ''&'' then Some KAndAnd
      else if b = CHR ''|'' \<and> c = CHR ''|'' then Some KOrOr
      else None)"

definition one_char_op :: "char \<Rightarrow> token option" where
  "one_char_op b =
     map_of [(CHR ''='', KEq), (CHR ''!'', KBang), (CHR ''<'', KLt), (CHR ''>'', KGt), (CHR ''('', KLParen),
       (CHR '')'', KRParen), (CHR ''{'', KLBrace), (CHR ''}'', KRBrace), (CHR '','', KComma), (CHR '':'', KColon),
       (CHR ''+'', KPlus), (CHR ''-'', KMinus), (CHR ''*'', KStar), (CHR ''/'', KSlash), (CHR ''?'', KQuestion),
       (CHR ''.'', KDot)] b"

definition operator :: "char \<Rightarrow> string \<Rightarrow> (token \<times> string) option" where
  "operator b cs =
     (case (case cs of [] \<Rightarrow> None | c # ds \<Rightarrow> map_option (\<lambda>t. (t, ds)) (two_char_op b c)) of
        Some r \<Rightarrow> Some r
      | None \<Rightarrow> map_option (\<lambda>t. (t, cs)) (one_char_op b))"

text \<open>\<^verbatim>\<open>other as char\<close>: the byte as a code point, in UTF-8.\<close>

definition byte_as_char :: "char \<Rightarrow> string" where
  "byte_as_char b =
     (let n = of_char b :: nat in if n < 128 then [b] else [char_of (192 + n div 64), char_of (128 + n mod 64)])"

definition line_error :: "nat \<Rightarrow> string \<Rightarrow> 'a outcome" where
  "line_error line_num msg = Err (ParseError (''line '' @ show_nat line_num @ '': '' @ msg))"

lemma scan_str_shorter: "scan_str s acc = Some (t, rest) \<Longrightarrow> length rest < length s"
  by (induction s acc arbitrary: t rest rule: scan_str.induct) (fastforce split: if_splits list.splits)+

lemma operator_shorter: "operator b cs = Some (t, rest) \<Longrightarrow> length rest \<le> length cs"
  by (auto simp: operator_def split: option.splits list.splits)

text \<open>
  One turn of the loop: the token pushed, if any, and the bytes left. \<open>out\<close> holds the tokens so
  far, those of earlier lines included, the last one first.
\<close>

definition lex_step :: "char \<Rightarrow> string \<Rightarrow> token list \<Rightarrow> nat \<Rightarrow> (token option \<times> string) outcome" where
  "lex_step b cs out line_num =
     (if b = CHR '' '' \<or> b = CHR 0x09 then Ok (None, cs)
      else if b = CHR 0x22
      then (case scan_str cs [] of
              None \<Rightarrow> line_error line_num ''unterminated string literal''
            | Some (s, rest) \<Rightarrow> Ok (Some (KStr s), rest))
      else if is_digit b \<or> (b = CHR ''-'' \<and> cs \<noteq> [] \<and> is_digit (hd cs))
      then (if b = CHR ''-'' \<and> out \<noteq> [] \<and> produces_value (hd out) then Ok (Some KMinus, cs)
            else Ok (Some (KNum (b # takeWhile num_char cs)), dropWhile num_char cs))
      else if ident_start b
      then Ok (Some (word_token (b # takeWhile ident_char cs)), dropWhile ident_char cs)
      else case operator b cs of
        Some (t, rest) \<Rightarrow> Ok (Some t, rest)
      | None \<Rightarrow> line_error line_num (''unexpected character `'' @ byte_as_char b @ ''`''))"

lemma lex_step_shorter: "lex_step b cs out n = Ok (t, rest) \<Longrightarrow> length rest \<le> length cs"
  by (auto simp: lex_step_def line_error_def length_dropWhile_le
      dest!: scan_str_shorter operator_shorter split: if_splits option.splits)

function lex_line :: "string \<Rightarrow> token list \<Rightarrow> nat \<Rightarrow> token list outcome" where
  "lex_line [] out line_num = Ok out"
| "lex_line (b # cs) out line_num =
     (case lex_step b cs out line_num of
        Fail e \<Rightarrow> Fail e
      | Ok (t, rest) \<Rightarrow> lex_line rest (case t of None \<Rightarrow> out | Some k \<Rightarrow> k # out) line_num)"
  by pat_completeness auto
termination
  by (relation "measure (\<lambda>(s, out, n). length s)") (auto simp: le_imp_less_Suc dest!: lex_step_shorter)

section \<open>Indentation\<close>

definition leading_spaces :: "string \<Rightarrow> nat" where
  "leading_spaces line = length (takeWhile (\<lambda>c. c = CHR '' '') line)"

text \<open>The enclosing levels, the innermost first; the outermost is 0.\<close>

fun pop_levels :: "nat list \<Rightarrow> nat \<Rightarrow> token list \<Rightarrow> nat list \<times> token list" where
  "pop_levels [] indent out = ([], out)"
| "pop_levels (l # ls) indent out = (if l > indent then pop_levels ls indent (KDedent # out) else (l # ls, out))"

definition top_level :: "nat list \<Rightarrow> nat" where
  "top_level ls = (case ls of [] \<Rightarrow> 0 | l # _ \<Rightarrow> l)"

definition open_line :: "nat \<Rightarrow> nat list \<Rightarrow> token list \<Rightarrow> nat \<Rightarrow> (nat list \<times> token list) outcome" where
  "open_line indent levels out line_num =
     (case levels of
        [] \<Rightarrow> line_error line_num ''indent stack underflow''
      | current # _ \<Rightarrow>
          if indent > current then Ok (indent # levels, KIndent # out)
          else if indent < current
          then (case pop_levels levels indent out of (levels', out') \<Rightarrow>
                  if top_level levels' \<noteq> indent
                  then line_error line_num (''inconsistent indentation ('' @ show_nat indent
                         @ '' spaces does not match any enclosing level)'')
                  else Ok (levels', out'))
          else Ok (levels, out))"

fun lex_lines :: "string list \<Rightarrow> nat \<Rightarrow> nat list \<Rightarrow> token list \<Rightarrow> token list outcome" where
  "lex_lines [] line_num levels out = Ok (replicate (length levels - 1) KDedent @ out)"
| "lex_lines (raw_line # ls) line_num levels out =
     (let line = trim_end raw_line in
      if trim line = [] then lex_lines ls (Suc line_num) levels out
      else bindO (open_line (leading_spaces line) levels out line_num) (\<lambda>(levels', out').
           bindO (lex_line (trim_start line) out' line_num) (\<lambda>out''.
           lex_lines ls (Suc line_num) levels' (KNewline # out''))))"

definition lex :: "string \<Rightarrow> token list outcome" where
  "lex source = bindO (lex_lines (lines source) 1 [0] []) (\<lambda>out. Ok (rev out))"

section \<open>Messages about tokens\<close>

definition backticked :: "string \<Rightarrow> string" where
  "backticked s = ''`'' @ s @ ''`''"

fun show_bool :: "bool \<Rightarrow> string" where
  "show_bool True = ''true''"
| "show_bool False = ''false''"

fun token_display :: "token \<Rightarrow> string" where
  "token_display (KIdent s) = backticked s"
| "token_display (KStr s) = backticked (CHR 0x22 # s @ [CHR 0x22])"
| "token_display (KNum n) = backticked n"
| "token_display (KBool b) = backticked (show_bool b)"
| "token_display KLParen = backticked ''(''"
| "token_display KRParen = backticked '')''"
| "token_display KLBrace = backticked ''{''"
| "token_display KRBrace = backticked ''}''"
| "token_display KComma = backticked '',''"
| "token_display KColon = backticked '':''"
| "token_display KEq = backticked ''=''"
| "token_display KEqEq = backticked ''==''"
| "token_display KBangEq = backticked ''!=''"
| "token_display KLt = backticked ''<''"
| "token_display KGt = backticked ''>''"
| "token_display KLtEq = backticked ''<=''"
| "token_display KGtEq = backticked ''>=''"
| "token_display KAndAnd = backticked ''&&''"
| "token_display KOrOr = backticked ''||''"
| "token_display KBang = backticked ''!''"
| "token_display KPlus = backticked ''+''"
| "token_display KMinus = backticked ''-''"
| "token_display KStar = backticked ''*''"
| "token_display KSlash = backticked ''/''"
| "token_display KQuestion = backticked ''?''"
| "token_display KDot = backticked ''.''"
| "token_display KNewline = ''<newline>''"
| "token_display KIndent = ''<indent>''"
| "token_display KDedent = ''<dedent>''"

fun debug_token :: "token \<Rightarrow> string" where
  "debug_token (KIdent s) = ''Ident('' @ debug_string s @ '')''"
| "debug_token (KNum n) = ''Num('' @ debug_string n @ '')''"
| "debug_token (KStr s) = ''Str('' @ debug_string s @ '')''"
| "debug_token (KBool b) = ''Bool('' @ show_bool b @ '')''"
| "debug_token KLParen = ''LParen''"
| "debug_token KRParen = ''RParen''"
| "debug_token KLBrace = ''LBrace''"
| "debug_token KRBrace = ''RBrace''"
| "debug_token KComma = ''Comma''"
| "debug_token KColon = ''Colon''"
| "debug_token KEq = ''Eq''"
| "debug_token KEqEq = ''EqEq''"
| "debug_token KBangEq = ''BangEq''"
| "debug_token KLt = ''Lt''"
| "debug_token KGt = ''Gt''"
| "debug_token KLtEq = ''LtEq''"
| "debug_token KGtEq = ''GtEq''"
| "debug_token KAndAnd = ''AndAnd''"
| "debug_token KOrOr = ''OrOr''"
| "debug_token KBang = ''Bang''"
| "debug_token KPlus = ''Plus''"
| "debug_token KMinus = ''Minus''"
| "debug_token KStar = ''Star''"
| "debug_token KSlash = ''Slash''"
| "debug_token KQuestion = ''Question''"
| "debug_token KDot = ''Dot''"
| "debug_token KNewline = ''Newline''"
| "debug_token KIndent = ''Indent''"
| "debug_token KDedent = ''Dedent''"

definition debug_next :: "token option \<Rightarrow> string" where
  "debug_next t = (case t of None \<Rightarrow> ''None'' | Some k \<Rightarrow> ''Some('' @ debug_token k @ '')'')"

fun assert_cursor_empty :: "token list \<Rightarrow> string \<Rightarrow> unit outcome" where
  "assert_cursor_empty [] context = Ok ()"
| "assert_cursor_empty (tok # toks) context =
     (if tok = KNewline \<or> tok = KIndent \<or> tok = KDedent then assert_cursor_empty toks context
      else Err (ParseError (''unexpected token '' @ token_display tok @ '' after expression''
             @ (if context = [] then [] else '' in '' @ context) @ [newline]
             @ ''  hint: `->` consumes the entire line '' @ em_dash
             @ '' layout attributes (e.g. `class`, `id`) must appear on the element line, not after the action'')))"

section \<open>Blocks nest\<close>

text \<open>The depth of the block after each token; a dedent without an indent gives \<open>None\<close>.\<close>

fun depth_after :: "token list \<Rightarrow> nat \<Rightarrow> nat option" where
  "depth_after [] d = Some d"
| "depth_after (KIndent # ts) d = depth_after ts (Suc d)"
| "depth_after (KDedent # ts) d = (if d = 0 then None else depth_after ts (d - 1))"
| "depth_after (_ # ts) d = depth_after ts d"

lemma depth_after_append: "depth_after (xs @ ys) d = (case depth_after xs d of None \<Rightarrow> None | Some e \<Rightarrow> depth_after ys e)"
  by (induction xs d rule: depth_after.induct) auto

definition flat :: "token \<Rightarrow> bool" where
  "flat t \<longleftrightarrow> t \<noteq> KIndent \<and> t \<noteq> KDedent"

lemma depth_after_flat: "flat t \<Longrightarrow> depth_after [t] d = Some d"
  by (cases t) (auto simp: flat_def)

lemma operator_flat: "operator b cs = Some (t, rest) \<Longrightarrow> flat t"
  by (auto simp: operator_def two_char_op_def one_char_op_def flat_def split: option.splits list.splits if_splits)

definition at_depth :: "token list \<Rightarrow> nat \<Rightarrow> bool" where
  "at_depth out d \<longleftrightarrow> depth_after (rev out) 0 = Some d"

lemma at_depth_flat: "flat t \<Longrightarrow> at_depth out d \<Longrightarrow> at_depth (t # out) d"
  by (simp add: at_depth_def depth_after_append depth_after_flat)

lemma lex_step_flat: "lex_step b cs out n = Ok (Some t, rest) \<Longrightarrow> flat t"
  by (auto simp: lex_step_def line_error_def word_token_def dest: operator_flat split: if_splits option.splits)
    (auto simp: flat_def)

lemma lex_line_depth: "lex_line s out n = Ok out' \<Longrightarrow> at_depth out d \<Longrightarrow> at_depth out' d"
proof (induction s out n rule: lex_line.induct)
  case (2 b cs out n)
  then obtain t rest where t: "lex_step b cs out n = Ok (t, rest)" by (auto split: outcome.splits)
  have "at_depth (case t of None \<Rightarrow> out | Some k \<Rightarrow> k # out) d"
    using 2(3) lex_step_flat t by (auto intro: at_depth_flat split: option.splits)
  then show ?case using 2(1) [OF t refl] 2(2) t by simp
qed simp

lemma pop_levels_depth:
  assumes "pop_levels (ls @ [0]) indent out = (ls', out')" "at_depth out (length ls)"
  shows "\<exists>ks. ls' = ks @ [0] \<and> at_depth out' (length ks)"
  using assms
proof (induction ls arbitrary: out)
  case (Cons l ls)
  have "at_depth (KDedent # out) (length ls)" if "at_depth out (Suc (length ls))"
    using that by (simp add: at_depth_def depth_after_append)
  then show ?case using Cons by (auto split: if_splits intro: exI [of _ "l # ls"])
qed (auto split: if_splits)

lemma replicate_dedent: "at_depth out (n + d) \<Longrightarrow> at_depth (replicate n KDedent @ out) d"
  by (induction n arbitrary: d) (auto simp: at_depth_def depth_after_append)

lemma open_line_depth:
  assumes "open_line indent (ls @ [0]) out n = Ok (ls', out')" "at_depth out (length ls)"
  shows "\<exists>ks. ls' = ks @ [0] \<and> at_depth out' (length ks)"
proof -
  have "at_depth (KIndent # out) (Suc (length ls))"
    using assms(2) by (simp add: at_depth_def depth_after_append)
  then show ?thesis
    using assms pop_levels_depth [of ls indent out]
    by (auto simp: open_line_def line_error_def split: list.splits if_splits prod.splits
        intro: exI [of _ "indent # ls"] exI [of _ ls])
qed

lemma lex_lines_depth:
  "lex_lines ls n levels out = Ok out' \<Longrightarrow> levels = ks @ [0] \<Longrightarrow> at_depth out (length ks) \<Longrightarrow> at_depth out' 0"
proof (induction ls n levels out arbitrary: ks rule: lex_lines.induct)
  case (1 n levels out)
  then show ?case using replicate_dedent [of out "length ks" 0] by auto
next
  case (2 raw_line ls line_num levels out)
  have "flat KNewline" by (simp add: flat_def)
  show ?case
  proof (cases "trim (trim_end raw_line) = []")
    case True
    then show ?thesis using 2 by (simp add: Let_def)
  next
    case False
    then obtain levels' out1 out2 where o: "open_line (leading_spaces (trim_end raw_line)) levels out line_num = Ok (levels', out1)"
      and l: "lex_line (trim_start (trim_end raw_line)) out1 line_num = Ok out2"
      and rest: "lex_lines ls (Suc line_num) levels' (KNewline # out2) = Ok out'"
      using 2(3) by (auto simp: Let_def bindO_Ok)
    obtain ks' where "levels' = ks' @ [0]" "at_depth out1 (length ks')"
      using open_line_depth [of _ ks] o 2(4,5) by blast
    moreover from this(2) have "at_depth (KNewline # out2) (length ks')"
      using lex_line_depth [OF l] \<open>flat KNewline\<close> by (blast intro: at_depth_flat)
    ultimately show ?thesis using 2(2) [OF refl False rest] by blast
  qed
qed

text \<open>
  The lexer's block markers nest: in the tokens of any source no block is closed that was
  not opened, and every block opened is closed at the end.
\<close>

theorem lex_blocks_nest:
  assumes "lex source = Ok toks"
  shows "depth_after toks 0 = Some 0"
proof -
  obtain out where "lex_lines (lines source) 1 [0] [] = Ok out" "toks = rev out"
    using assms by (auto simp: lex_def bindO_Ok)
  moreover have "at_depth [] (length ([] :: nat list))" by (simp add: at_depth_def)
  ultimately show ?thesis using lex_lines_depth [of "lines source" 1 "[0]" "[]" out "[]"] by (simp add: at_depth_def)
qed

section \<open>The number of tokens\<close>

lemma lex_line_length: "lex_line s out n = Ok out' \<Longrightarrow> length out' \<le> length out + length s"
proof (induction s out n rule: lex_line.induct)
  case (2 b cs out n)
  then obtain t rest where t: "lex_step b cs out n = Ok (t, rest)" by (auto split: outcome.splits)
  have "length out' \<le> length (case t of None \<Rightarrow> out | Some k \<Rightarrow> k # out) + length rest"
    using 2(1) [OF t refl] 2(2) t by simp
  then show ?case using lex_step_shorter [OF t] by (auto split: option.splits)
qed simp

lemma pop_levels_length: "pop_levels ls i out = (ls', out') \<Longrightarrow> length out' + length ls' = length out + length ls"
  by (induction ls i out rule: pop_levels.induct) (auto split: if_splits)

lemma open_line_length:
  "open_line i ls out n = Ok (ls', out') \<Longrightarrow> length out' + length ls' \<le> length out + length ls + 2"
  by (auto simp: open_line_def line_error_def dest: pop_levels_length split: list.splits if_splits prod.splits)

lemma lex_lines_length:
  "lex_lines ls n levels out = Ok out' \<Longrightarrow> length out' \<le> length out + length levels + 4 * sum_list (map length ls)"
proof (induction ls n levels out rule: lex_lines.induct)
  case (2 raw_line ls n levels out)
  show ?case
  proof (cases "trim (trim_end raw_line) = []")
    case True
    then show ?thesis using 2 by auto
  next
    case False
    with 2(3) obtain levels' out1 out2 where
      o: "open_line (leading_spaces (trim_end raw_line)) levels out n = Ok (levels', out1)"
      and l: "lex_line (trim_start (trim_end raw_line)) out1 n = Ok out2"
      and r: "lex_lines ls (Suc n) levels' (KNewline # out2) = Ok out'"
      by (auto simp: Let_def bindO_Ok)
    have "length out' \<le> length (KNewline # out2) + length levels' + 4 * sum_list (map length ls)"
      using 2(2) [OF refl False r] .
    moreover have "trim_end raw_line \<noteq> []" using False trim_Nil by auto
    moreover have "length (trim_start (trim_end raw_line)) \<le> length raw_line"
      using length_trim_start length_trim_end le_trans by blast
    moreover obtain m where "length raw_line = Suc m"
      using \<open>trim_end raw_line \<noteq> []\<close> length_trim_end [of raw_line] by (cases raw_line) auto
    ultimately show ?thesis
      using open_line_length [OF o] lex_line_length [OF l] by simp
  qed
qed auto

lemma strip_cr_length: "length (strip_cr l) \<le> length l"
  by (simp add: strip_cr_def)

lemma lines_length: "sum_list (map length (lines s)) \<le> length s"
proof -
  have "sum_list (map length (lines_loop s acc)) \<le> length s + length acc" for acc
  proof (induction s acc rule: lines_loop.induct)
    case (2 c cs acc)
    then show ?case using strip_cr_length [of "rev acc"] by auto
  qed simp
  from this [of "[]"] show ?thesis by (simp add: lines_def)
qed

lemma lex_length: "lex s = Ok toks \<Longrightarrow> length toks \<le> 4 * length s + 1"
  using lex_lines_length [of "lines s" 1 "[0]" "[]"] lines_length [of s]
  by (fastforce simp: lex_def bindO_Ok)

section \<open>Errors\<close>

text \<open>A result whose only failures are errors of the parser.\<close>

definition parse_result :: "'a outcome \<Rightarrow> bool" where
  "parse_result r \<longleftrightarrow> (\<forall>f. r = Fail f \<longrightarrow> (\<exists>msg. f = Error (ParseError msg)))"

lemma parse_result_simps [simp]:
  "parse_result (Ok v)" "parse_result (Err (ParseError msg))" "parse_result (line_error n msg)"
  by (simp_all add: parse_result_def line_error_def)

lemma parse_result_bind: "parse_result m \<Longrightarrow> (\<And>v. m = Ok v \<Longrightarrow> parse_result (f v)) \<Longrightarrow> parse_result (bindO m f)"
  by (cases m) (auto simp: parse_result_def)

lemma lex_line_result: "parse_result (lex_line s out n)"
proof (induction s out n rule: lex_line.induct)
  case (2 b cs out n)
  have "parse_result (lex_step b cs out n)"
    by (auto simp: lex_step_def split: option.splits)
  then show ?case using 2 by (auto simp: parse_result_def split: outcome.splits prod.splits)
qed simp

lemma lex_lines_result: "parse_result (lex_lines ls n levels out)"
proof (induction ls n levels out rule: lex_lines.induct)
  case (2 raw_line ls n levels out)
  have o: "parse_result (open_line i levels out n)" for i
    by (auto simp: open_line_def split: list.splits prod.splits)
  show ?case
    using 2 by (auto simp: Let_def lex_line_result o intro!: parse_result_bind)
qed simp

lemma lex_result: "parse_result (lex s)"
  by (auto simp: lex_def lex_lines_result intro!: parse_result_bind)

lemma cursor_empty_result: "parse_result (assert_cursor_empty toks context)"
  by (induction toks) auto

end
