(* ===== verification/Mizu_Float.thy ===== *)
theory Mizu_Float
  imports Complex_Main Mizu_Text
begin

text \<open>
  The double-precision numbers the parsers go through: \<^verbatim>\<open>str::parse::<f64>\<close>, a product, and the
  saturating casts to \<^verbatim>\<open>i64\<close> and \<^verbatim>\<open>u64\<close>. A finite number is a sign, a significand below or
  equal to \<open>2^53\<close> and an exponent of two, so every operation is exact integer arithmetic followed by
  one rounding to nearest, ties to even. The last section bounds the error of a rounding and
  derives when a fixed-point literal survives the passage through a double.
\<close>

section \<open>Rounding\<close>

datatype f64 = NaN | Infinite bool | Finite bool nat int

definition round_half_even :: "nat \<Rightarrow> nat \<Rightarrow> nat" where
  "round_half_even a b =
     (let d = a div b; r = a mod b in if 2 * r > b \<or> (2 * r = b \<and> odd d) then Suc d else d)"

text \<open>The fraction \<open>p / q\<close> divided by \<open>2^e\<close>, as a fraction.\<close>

definition scale_down :: "nat \<Rightarrow> nat \<Rightarrow> int \<Rightarrow> nat \<times> nat" where
  "scale_down p q e = (if e \<ge> 0 then (p, q * 2 ^ nat e) else (p * 2 ^ nat (- e), q))"

text \<open>The exponent of the leading bit of \<open>p / q\<close>.\<close>

definition floor_log :: "nat \<Rightarrow> nat \<Rightarrow> int" where
  "floor_log p q =
     (let k = int (bit_length p) - int (bit_length q) in
      case scale_down p q k of (a, b) \<Rightarrow> if a \<ge> b then k else k - 1)"

definition round_f64 :: "bool \<Rightarrow> nat \<Rightarrow> nat \<Rightarrow> f64" where
  "round_f64 neg p q =
     (if p = 0 then Finite neg 0 0
      else let e = max (floor_log p q - 52) (- 1074); m = case_prod round_half_even (scale_down p q e) in
        if e > 971 \<or> (e = 971 \<and> m \<ge> 2 ^ 53) then Infinite neg else Finite neg m e)"

section \<open>Text to number\<close>

definition parse_sign :: "string \<Rightarrow> bool \<times> string" where
  "parse_sign s = (case s of [] \<Rightarrow> (False, []) | c # cs \<Rightarrow>
     if c = CHR ''-'' then (True, cs) else if c = CHR ''+'' then (False, cs) else (False, s))"

text \<open>The exponent after the digits: nothing, or \<^verbatim>\<open>e\<close>, a sign and at least one digit.\<close>

definition parse_exponent :: "string \<Rightarrow> int option" where
  "parse_exponent s =
     (case s of
        [] \<Rightarrow> Some 0
      | c # cs \<Rightarrow>
          if ascii_lower c \<noteq> CHR ''e'' then None
          else case parse_sign cs of (neg, ds) \<Rightarrow>
            if ds = [] \<or> \<not> list_all is_digit ds then None
            else Some (if neg then - int (digits_val ds) else int (digits_val ds)))"

definition decimal_ratio :: "string \<Rightarrow> string \<Rightarrow> int \<Rightarrow> nat \<times> nat" where
  "decimal_ratio whole fraction ex =
     (let k = ex - int (length fraction) in
      (digits_val (whole @ fraction) * 10 ^ nat k, 10 ^ nat (- k)))"

definition parse_f64 :: "string \<Rightarrow> f64 option" where
  "parse_f64 s =
     (case parse_sign s of (neg, body) \<Rightarrow>
        let word = map ascii_lower body in
        if word = ''inf'' \<or> word = ''infinity'' then Some (Infinite neg)
        else if word = ''nan'' then Some NaN
        else let whole = takeWhile is_digit body; rest = dropWhile is_digit body;
                 dot = (rest \<noteq> [] \<and> hd rest = CHR ''.'');
                 fraction = (if dot then takeWhile is_digit (tl rest) else []);
                 rest' = (if dot then dropWhile is_digit (tl rest) else rest) in
          if whole = [] \<and> fraction = [] then None
          else map_option (\<lambda>ex. case_prod (round_f64 neg) (decimal_ratio whole fraction ex)) (parse_exponent rest'))"

section \<open>Operations\<close>

text \<open>The product with a positive integer that is itself a double.\<close>

fun f64_times :: "f64 \<Rightarrow> nat \<Rightarrow> f64" where
  "f64_times NaN k = NaN"
| "f64_times (Infinite neg) k = Infinite neg"
| "f64_times (Finite neg m e) k =
     (if e \<ge> 0 then round_f64 neg (m * k * 2 ^ nat e) 1 else round_f64 neg (m * k) (2 ^ nat (- e)))"

text \<open>\<^verbatim>\<open>f64::round\<close>, ties away from zero, followed by \<^verbatim>\<open>as i64\<close>, which saturates.\<close>

definition round_away :: "nat \<Rightarrow> int \<Rightarrow> nat" where
  "round_away m e = (if e \<ge> 0 then m * 2 ^ nat e else (2 * m + 2 ^ nat (- e)) div (2 * 2 ^ nat (- e)))"

definition clamp_i64 :: "int \<Rightarrow> int" where
  "clamp_i64 x = max i64_min (min i64_max x)"

fun round_as_i64 :: "f64 \<Rightarrow> int" where
  "round_as_i64 NaN = 0"
| "round_as_i64 (Infinite neg) = (if neg then i64_min else i64_max)"
| "round_as_i64 (Finite neg m e) =
     clamp_i64 (if neg then - int (round_away m e) else int (round_away m e))"

text \<open>\<^verbatim>\<open>as u64\<close>: truncation, saturating at both ends.\<close>

fun as_u64 :: "f64 \<Rightarrow> nat" where
  "as_u64 NaN = 0"
| "as_u64 (Infinite neg) = (if neg then 0 else u64_max)"
| "as_u64 (Finite neg m e) =
     (if neg then 0 else min u64_max (if e \<ge> 0 then m * 2 ^ nat e else m div 2 ^ nat (- e)))"

section \<open>The error of a rounding\<close>

lemma bit_length_bounds: "n < 2 ^ bit_length n \<and> (0 < n \<longrightarrow> 2 ^ bit_length n \<le> 2 * n)"
proof (induction n rule: bit_length.induct)
  case (1 n)
  show ?case
  proof (cases "n = 0")
    case False
    then have ih: "n div 2 < 2 ^ bit_length (n div 2)" "0 < n div 2 \<longrightarrow> 2 ^ bit_length (n div 2) \<le> 2 * (n div 2)"
      using 1 by auto
    have b: "bit_length n = Suc (bit_length (n div 2))" using False by (subst bit_length.simps) simp
    have "bit_length (n div 2) = 0" if "n div 2 = 0" using that by (simp add: bit_length.simps)
    then show ?thesis using ih False b by (cases "n div 2 = 0") auto
  qed (simp add: bit_length.simps)
qed

lemma scale_down_value:
  assumes "0 < q" "scale_down p q e = (a, b)"
  shows "0 < b" "real a / real b = real p / real q * 2 powr (- real_of_int e)"
proof -
  show "0 < b" using assms by (auto simp: scale_down_def split: if_splits)
  show "real a / real b = real p / real q * 2 powr (- real_of_int e)"
  proof (cases "0 \<le> e")
    case True
    then have "2 powr real_of_int e = (2::real) ^ nat e" by (simp add: powr_real_of_int)
    then show ?thesis using assms True by (auto simp: scale_down_def powr_minus divide_simps)
  next
    case False
    then have "2 powr real_of_int (- e) = (2::real) ^ nat (- e)" by (subst powr_real_of_int) auto
    then show ?thesis using assms False by (auto simp: scale_down_def)
  qed
qed

lemma bit_length_real:
  assumes "0 < n"
  shows "real n < 2 powr bit_length n" "2 powr bit_length n \<le> 2 * real n"
proof -
  have "real (2 ^ bit_length n) = 2 powr bit_length n" by (simp add: powr_realpow)
  moreover have "real n < real (2 ^ bit_length n)" "real (2 ^ bit_length n) \<le> real (2 * n)"
    using bit_length_bounds [of n] assms by (simp_all only: of_nat_less_iff of_nat_le_iff)
  ultimately show "real n < 2 powr bit_length n" "2 powr bit_length n \<le> 2 * real n" by auto
qed

lemma floor_log_bounds:
  assumes "0 < p" "0 < q"
  shows "2 powr floor_log p q \<le> real p / real q" "real p / real q < 2 powr (floor_log p q + 1)"
proof -
  let ?k = "int (bit_length p) - int (bit_length q)"
  obtain a b where s: "scale_down p q ?k = (a, b)" by fastforce
  note v = scale_down_value [OF assms(2) s]
  have P: "real p < 2 powr bit_length p" "2 powr bit_length p \<le> 2 * real p"
    and Q: "real q < 2 powr bit_length q" "2 powr bit_length q \<le> 2 * real q"
    using bit_length_real [OF assms(1)] bit_length_real [OF assms(2)] by auto
  have k: "2 powr real_of_int ?k = 2 powr bit_length p / 2 powr bit_length q"
    by (simp add: powr_diff)
  have "real p / real q < 2 powr bit_length p / (2 powr bit_length q / 2)"
    by (rule frac_less) (use P Q in auto)
  then have hi: "real p / real q < 2 powr (?k + 1)"
    unfolding of_int_add powr_add k by simp
  have "2 powr bit_length p / 2 / 2 powr bit_length q < real p / real q"
    by (rule frac_less2) (use P Q assms in auto)
  then have lo: "2 powr (?k - 1) < real p / real q"
    unfolding of_int_diff [of ?k 1] powr_diff [of 2 "real_of_int ?k"] k by (simp add: ac_simps)
  have one: "1 \<le> r * 2 powr (- x) \<longleftrightarrow> 2 powr x \<le> r" for r x :: real
    by (simp add: powr_minus field_simps)
  have c: "b \<le> a \<longleftrightarrow> 2 powr real_of_int ?k \<le> real p / real q"
  proof -
    have "b \<le> a \<longleftrightarrow> 1 \<le> real a / real b" using v(1) by simp
    also have "\<dots> \<longleftrightarrow> 2 powr real_of_int ?k \<le> real p / real q"
      unfolding v(2) by (rule one)
    finally show ?thesis .
  qed
  show "2 powr floor_log p q \<le> real p / real q" "real p / real q < 2 powr (floor_log p q + 1)"
    using c hi lo s by (auto simp: floor_log_def)
qed

lemma round_half_even_error:
  assumes "0 < b"
  shows "\<bar>real (round_half_even a b) - real a / real b\<bar> \<le> 1 / 2"
proof -
  have d: "real a / real b = real (a div b) + real (a mod b) / real b"
  proof -
    have "real a = real (a div b) * real b + real (a mod b)"
      using div_mult_mod_eq [of a b] by (metis of_nat_add of_nat_mult)
    then show ?thesis using assms by (simp add: field_simps)
  qed
  have m: "2 * (a mod b) > b \<longleftrightarrow> real (a mod b) / real b > 1 / 2" "2 * (a mod b) = b \<longleftrightarrow> real (a mod b) / real b = 1 / 2"
    using assms by (auto simp: field_simps simp flip: of_nat_mult)
  have "0 \<le> real (a mod b) / real b" "real (a mod b) / real b < 1"
    using assms by (auto simp: field_simps)
  then show ?thesis using d m by (auto simp: round_half_even_def Let_def)
qed

text \<open>A rounding in the range of normal numbers errs by at most one part in \<open>2^53\<close>.\<close>

lemma round_f64_error:
  assumes pq: "0 < p" "0 < q" and lo: "2 powr (- 1000) \<le> real p / real q" and hi: "real p / real q < 2 powr 1000"
  obtains m e where "round_f64 neg p q = Finite neg m e"
    "\<bar>real m * 2 powr e - real p / real q\<bar> \<le> real p / real q / 2 ^ 53"
    "2 powr (e + 52) \<le> real p / real q"
proof -
  let ?f = "floor_log p q"
  note fl = floor_log_bounds [OF pq]
  have "2 powr (- 1000) < 2 powr (real_of_int (?f + 1))" using le_less_trans [OF lo fl(2)] by simp
  then have f1: "- 1001 < ?f" by simp
  have "2 powr real_of_int ?f < 2 powr (1000 :: real)" using fl(1) hi by linarith
  then have "real_of_int ?f < 1000" by (subst (asm) powr_less_cancel_iff) simp_all
  then have f2: "?f < 1000" by simp
  let ?e = "?f - 52"
  obtain a b where s: "scale_down p q ?e = (a, b)" by fastforce
  note v = scale_down_value [OF pq(2) s]
  let ?m = "round_half_even a b"
  have r: "round_f64 neg p q = Finite neg ?m ?e"
    using f1 f2 pq s by (simp add: round_f64_def Let_def max_def)
  have "real a / real b * 2 powr ?e = real p / real q"
    unfolding v(2) by (simp add: mult.assoc flip: powr_add)
  then have "real ?m * 2 powr ?e - real p / real q = (real ?m - real a / real b) * 2 powr ?e"
    by (simp add: algebra_simps)
  then have "\<bar>real ?m * 2 powr ?e - real p / real q\<bar> \<le> 1 / 2 * 2 powr ?e"
    using round_half_even_error [OF v(1), of a] by (simp add: abs_mult)
  also have "\<dots> = 2 powr ?f / 2 ^ 53"
    by (simp add: powr_diff)
  also have "\<dots> \<le> real p / real q / 2 ^ 53"
    using fl(1) by (intro divide_right_mono) simp_all
  finally have err: "\<bar>real ?m * 2 powr ?e - real p / real q\<bar> \<le> real p / real q / 2 ^ 53" .
  have "real_of_int ?f = real_of_int ?e + 52" by simp
  then have "2 powr (real_of_int ?e + 52) \<le> real p / real q" using fl(1) by (simp only:)
  with err show thesis by (rule that [OF r])
qed

lemma round_away_near:
  assumes "e < 0" "\<bar>real m * 2 powr e - real n\<bar> < 1 / 2"
  shows "round_away m e = n"
proof -
  define k where "k = nat (- e)"
  have "real_of_int e = - real k" using assms(1) by (simp add: k_def)
  then have e: "2 powr e = 1 / 2 ^ k" by (simp add: powr_minus powr_realpow divide_inverse)
  have "(2 * m + 2 ^ k) div (2 * 2 ^ k) = n"
  proof (rule div_nat_eqI)
    have "\<bar>real m - real n * 2 ^ k\<bar> < 2 ^ k / 2" using assms(2) unfolding e by (simp add: field_simps)
    then obtain z w where z: "z = real n * 2 ^ k" "w = (2::real) ^ k" "\<bar>real m - z\<bar> < w / 2" by blast
    have "2 * z \<le> 2 * real m + w" using z(3) by linarith
    moreover have "2 * real m + w < 2 * z + 2 * w" using z(3) by linarith
    ultimately have "real (2 * 2 ^ k * n) \<le> real (2 * m + 2 ^ k)" "real (2 * m + 2 ^ k) < real (2 * 2 ^ k * Suc n)"
      using z(1,2) by (auto simp: algebra_simps)
    then show "2 * 2 ^ k * n \<le> 2 * m + 2 ^ k" "2 * m + 2 ^ k < 2 * 2 ^ k * Suc n"
      by (simp_all only: of_nat_le_iff of_nat_less_iff)
  qed
  then show ?thesis using assms(1) by (simp add: round_away_def k_def)
qed
lemma powr_below: "2 powr (real_of_int e + 52) \<le> x \<Longrightarrow> x < 2 powr 52 \<Longrightarrow> e < 0"
proof -
  assume "2 powr (real_of_int e + 52) \<le> x" "x < 2 powr 52"
  then have "2 powr (real_of_int e + 52) < 2 powr (52 :: real)" by (rule le_less_trans)
  then have "real_of_int e + 52 < 52" by (subst (asm) powr_less_cancel_iff) simp_all
  then show "e < 0" by simp
qed

text \<open>
  A number with at most eight decimals, read as a double, multiplied by \<open>10^8\<close> and rounded,
  is the scaled integer meant, as long as that is below \<open>2^50\<close>.
\<close>

lemma scaled_exact:
  assumes N: "0 < N" "N < 2 ^ 50" and q: "0 < q" and eq: "p * K = N * q" and K: "0 < K" "K \<le> 2 ^ 100"
  shows "round_as_i64 (f64_times (round_f64 neg p q) K) = (if neg then - int N else int N)"
proof -
  have p: "0 < p" using eq N(1) q by (cases p) auto
  have "real p * real K = real N * real q" using eq by (metis of_nat_mult)
  then have pq: "real p / real q = real N / real K" using q K by (simp add: field_simps)
  have "real N < real (2 ^ 50)" using N(2) by (simp only: of_nat_less_iff)
  then have N1: "1 \<le> real N" "real N < 2 ^ 50" using N(1) by simp_all
  have "real K \<le> real (2 ^ 100)" using K(2) by (simp only: of_nat_le_iff)
  then have K2: "real K \<le> 2 ^ 100" by simp
  have NK: "real N / real K < 2 powr 50"
  proof -
    have "real N / real K \<le> real N / 1" using K by (intro divide_left_mono) simp_all
    also have "\<dots> = real N" by simp
    also have "\<dots> < 2 powr 50" using N1(2) by simp
    finally show ?thesis .
  qed
  have KN: "2 powr (- 1000) \<le> real N / real K"
  proof -
    have "2 powr (- 1000) \<le> 2 powr (- 100 :: real)" by (rule powr_mono) simp_all
    also have "\<dots> = 1 / 2 powr 100" by (rule powr_minus_divide)
    also have "\<dots> \<le> 1 / real K" using K(1) K2 by (intro divide_left_mono) simp_all
    also have "\<dots> \<le> real N / real K" using N K by (intro divide_right_mono) simp_all
    finally show ?thesis .
  qed
  obtain m e where r1: "round_f64 neg p q = Finite neg m e"
    "\<bar>real m * 2 powr e - real p / real q\<bar> \<le> real p / real q / 2 ^ 53" "2 powr (e + 52) \<le> real p / real q"
    by (rule round_f64_error [OF p q]) (use pq KN NK in auto)
  have e: "e < 0" by (rule powr_below [OF r1(3)]) (use pq NK in simp)
  define k where "k = nat (- e)"
  define d :: nat where "d = 2 ^ k"
  have "real_of_int e = - real k" using e by (simp add: k_def)
  then have d: "2 powr real_of_int e = 1 / real d" "0 < d"
    by (simp_all add: d_def powr_minus powr_realpow divide_inverse)
  let ?r = "real (m * K) / real d"
  have "?r - real N = (real m * 2 powr e - real p / real q) * real K"
    using pq K by (simp add: d(1) field_simps)
  then have "\<bar>?r - real N\<bar> = \<bar>real m * 2 powr e - real p / real q\<bar> * real K" by (simp add: abs_mult)
  also have "\<dots> \<le> real p / real q / 2 ^ 53 * real K"
    by (rule mult_right_mono [OF r1(2)]) simp
  also have "\<dots> = real N / 2 ^ 53" using pq K by simp
  finally have close: "\<bar>?r - real N\<bar> \<le> real N / 2 ^ 53" .
  moreover have "real N / 2 ^ 53 \<le> 1 / 8" using N1(2) by simp
  ultimately have "\<bar>?r - real N\<bar> \<le> 1 / 8" by linarith
  then have "real N - 1 / 8 \<le> ?r \<and> ?r \<le> real N + 1 / 8" by linarith
  moreover have "(2 :: real) ^ 50 + 1 / 8 < 2 ^ 51" by simp
  ultimately have rb: "1 / 2 \<le> ?r" "?r < 2 ^ 51" using N1 by linarith+
  have mK: "0 < m * K" using rb(1) by (cases "m * K") auto
  obtain m2 e2 where r2: "round_f64 neg (m * K) d = Finite neg m2 e2"
    "\<bar>real m2 * 2 powr e2 - ?r\<bar> \<le> ?r / 2 ^ 53" "2 powr (e2 + 52) \<le> ?r"
  proof (rule round_f64_error [OF mK d(2)])
    have "2 powr (- 1000) \<le> 2 powr (- 1 :: real)" by (rule powr_mono) simp_all
    also have "\<dots> = 1 / 2" by (simp add: powr_minus_divide)
    finally show "2 powr (- 1000) \<le> ?r" using rb(1) by linarith
    have "(2 :: real) ^ 51 = 2 powr 51" by simp
    also have "\<dots> < 2 powr 1000" by (rule powr_less_mono) simp_all
    finally show "?r < 2 powr 1000" using rb(2) by linarith
  qed
  have e2: "e2 < 0" by (rule powr_below [OF r2(3)]) (use rb(2) in simp)
  have tri: "\<bar>a - b\<bar> \<le> x \<Longrightarrow> \<bar>b - c\<bar> \<le> y \<Longrightarrow> \<bar>a - c\<bar> \<le> x + y" for a b c x y :: real
    by linarith
  have "\<bar>real m2 * 2 powr e2 - real N\<bar> \<le> ?r / 2 ^ 53 + real N / 2 ^ 53"
    by (rule tri [OF r2(2) close])
  also have "\<dots> < 1 / 2"
  proof -
    have "?r / 2 ^ 53 < 2 ^ 51 / 2 ^ 53" "real N / 2 ^ 53 < 2 ^ 50 / 2 ^ 53"
      by (rule divide_strict_right_mono, rule rb N1, simp)+
    moreover have "(2 :: real) ^ 51 / 2 ^ 53 + 2 ^ 50 / 2 ^ 53 < 1 / 2" by simp
    ultimately show ?thesis by linarith
  qed
  finally have "round_away m2 e2 = N" by (intro round_away_near e2)
  then show ?thesis
    using r1(1) e r2(1) N(2) by (auto simp: d_def k_def clamp_i64_def i64_defs)
qed

end
