(* ===== verification/Mizu_Typecheck.thy ===== *)
theory Mizu_Typecheck
  imports Mizu_Flow
begin

text \<open>
  The load-time type check of \<^verbatim>\<open>parser/typecheck/mod.rs\<close> and its soundness for the evaluator.
  \<open>infer\<close> recurses over the arena without a limit of its own, so the model gives it fuel; the
  arenas of a parsed document hold a node after its children, for which \<open>walk_fuel\<close> is enough.

  A type of \<open>None\<close> is the source's dynamic type. The document's nodes are given by their event
  blocks, as in the information flow check.
\<close>

section \<open>Inference\<close>

type_synonym type_env = "symbol \<rightharpoonup> value_type option"

definition type_error :: "string \<Rightarrow> 'a outcome" where
  "type_error msg = Err (StaticTypeError msg)"

definition infer_literal :: "mval \<Rightarrow> value_type option" where
  "infer_literal v =
     (case v of
        VInt _ \<Rightarrow> Some TNum
      | VDecimal _ \<Rightarrow> Some TNum
      | VString _ \<Rightarrow> Some TStr
      | VBool _ \<Rightarrow> Some TBool
      | VList _ \<Rightarrow> None
      | VRecord _ \<Rightarrow> None
      | VNull \<Rightarrow> Some (TNullable TNum)
      | VFileHandle _ \<Rightarrow> None)"

definition infer_binop :: "binop \<Rightarrow> value_type" where
  "infer_binop op = (if op \<in> {Add, Sub, Mul, Div} then TNum else TBool)"

text \<open>The sub-expressions of a node in order, the first error returned.\<close>

fun infer_each :: "(expr \<Rightarrow> value_type option outcome) \<Rightarrow> expr_arena \<Rightarrow> expr_id list \<Rightarrow> value_type option list outcome" where
  "infer_each f ar [] = Ok []"
| "infer_each f ar (i # ids) =
     bindO (arena_get ar i) (\<lambda>e. bindO (f e) (\<lambda>t. bindO (infer_each f ar ids) (\<lambda>ts. Ok (t # ts))))"

definition list_result :: "string \<Rightarrow> value_type option \<Rightarrow> value_type option outcome" where
  "list_result what list_ty =
     (case list_ty of
        Some (TList inner) \<Rightarrow> Ok (Some (TList inner))
      | Some other \<Rightarrow> type_error (what @ '' expects a list, got `'' @ show_type other @ ''`'')
      | None \<Rightarrow> Ok None)"

definition expects :: "(value_type \<Rightarrow> bool) \<Rightarrow> string \<Rightarrow> value_type \<Rightarrow> value_type option \<Rightarrow> value_type option outcome" where
  "expects accepted what result t =
     (case t of
        None \<Rightarrow> Ok (Some result)
      | Some ty \<Rightarrow> if accepted ty then Ok (Some result) else type_error (what @ '', got `'' @ show_type ty @ ''`''))"

fun is_list_type :: "value_type \<Rightarrow> bool" where
  "is_list_type (TList _) = True"
| "is_list_type _ = False"

fun is_record_type :: "value_type \<Rightarrow> bool" where
  "is_record_type (TRecord _) = True"
| "is_record_type _ = False"

definition builtin_result :: "string \<Rightarrow> value_type option list \<Rightarrow> value_type option outcome option" where
  "builtin_result name ts =
     (let n = length ts in
      if name = ''filter'' \<and> n = 4 then Some (list_result ''filter'' (ts ! 0))
      else if name = ''count'' \<and> n = 3 then Some (expects is_list_type ''count expects a list'' TNum (ts ! 0))
      else if name = ''sort'' \<and> n = 3 then Some (list_result ''sort'' (ts ! 0))
      else if name = ''length'' \<and> n = 1
      then Some (expects (\<lambda>ty. is_list_type ty \<or> ty = TStr) ''length expects a list or string'' TNum (ts ! 0))
      else if name = ''to_string'' \<and> n = 1
      then Some (expects (\<lambda>ty. ty = TNum \<or> ty = TBool) ''to_string expects num or bool'' TStr (ts ! 0))
      else if name = ''contains'' \<and> n = 2
      then Some (expects (\<lambda>ty. ty = TStr) ''contains expects a string'' TBool (ts ! 0))
      else if name = ''has_field'' \<and> n = 2
      then Some (expects is_record_type ''has_field expects a record'' TBool (ts ! 0))
      else None)"

definition is_typed_builtin :: "string \<Rightarrow> nat \<Rightarrow> bool" where
  "is_typed_builtin name n \<longleftrightarrow> builtin_result name (replicate n None) \<noteq> None"

text \<open>\<open>each\<close> infers the arguments; a call of a document function has the dynamic type.\<close>

definition infer_call ::
  "function_table \<Rightarrow> string_interner \<Rightarrow> (expr_id list \<Rightarrow> value_type option list outcome) \<Rightarrow> symbol \<Rightarrow> expr_id list \<Rightarrow>
   value_type option outcome" where
  "infer_call fs t each y args =
     (let func_name = (case resolve t y of Some s \<Rightarrow> s | None \<Rightarrow> '''') in
      if is_typed_builtin func_name (length args)
      then bindO (each args) (\<lambda>ts. case builtin_result func_name ts of Some r \<Rightarrow> r | None \<Rightarrow> Ok None)
      else case fs y of
        Some func \<Rightarrow>
          if length args \<noteq> length (fn_params func)
          then type_error (''function `'' @ func_name @ ''` expects '' @ show_nat (length (fn_params func))
                 @ '' arguments, got '' @ show_nat (length args))
          else bindO (each args) (\<lambda>_. Ok None)
      | None \<Rightarrow> bindO (each args) (\<lambda>_. Ok None))"

definition infer_field :: "string_interner \<Rightarrow> symbol \<Rightarrow> value_type option \<Rightarrow> value_type option outcome" where
  "infer_field t field base_ty =
     (let field_name = (case resolve t field of Some s \<Rightarrow> s | None \<Rightarrow> '''') in
      case base_ty of
        Some (TRecord fts) \<Rightarrow>
          (case map_of fts field_name of
             Some ty \<Rightarrow> Ok (Some ty)
           | None \<Rightarrow> type_error (''field `'' @ field_name @ ''` not found in record type''))
      | Some other \<Rightarrow> type_error (''cannot access field `'' @ field_name @ ''` on type `'' @ show_type other @ ''`'')
      | None \<Rightarrow> Ok None)"

primrec infer ::
  "nat \<Rightarrow> function_table \<Rightarrow> string_interner \<Rightarrow> expr_arena \<Rightarrow> type_env \<Rightarrow> expr \<Rightarrow> value_type option outcome" where
  "infer 0 fs t ar env e = Fail OutOfFuel"
| "infer (Suc n) fs t ar env e =
     (let sub = (\<lambda>env' i. bindO (arena_get ar i) (infer n fs t ar env')) in
      case e of
        ELiteral v \<Rightarrow> Ok (infer_literal v)
      | EVariable y \<Rightarrow> Ok (case env y of Some ty \<Rightarrow> ty | None \<Rightarrow> None)
      | EBinaryOp left op right \<Rightarrow>
          bindO (sub env left) (\<lambda>_. bindO (sub env right) (\<lambda>_. Ok (Some (infer_binop op))))
      | ELet y v body \<Rightarrow> bindO (sub env v) (\<lambda>val_ty. sub (env(y \<mapsto> val_ty)) body)
      | ENot inner \<Rightarrow> bindO (sub env inner) (\<lambda>_. Ok (Some TBool))
      | EIfElse condition then_expr else_expr \<Rightarrow>
          bindO (sub env condition) (\<lambda>_.
          bindO (sub env then_expr) (\<lambda>then_ty.
          bindO (sub env else_expr) (\<lambda>else_ty. Ok (if then_ty = else_ty then then_ty else None))))
      | EFieldAccess base field _ \<Rightarrow> bindO (sub env base) (infer_field t field)
      | EFunctionCall y args_start args_len \<Rightarrow>
          bindO (arena_args ar args_start args_len) (infer_call fs t (infer_each (infer n fs t ar env) ar) y))"

definition infer_tree :: "function_table \<Rightarrow> string_interner \<Rightarrow> type_env \<Rightarrow> expr_tree \<Rightarrow> value_type option outcome" where
  "infer_tree fs t env tr =
     bindO (root_expr tr) (\<lambda>e. infer (walk_fuel (tree_arena tr)) fs t (tree_arena tr) env e)"

section \<open>The document\<close>

fun is_compound :: "value_type \<Rightarrow> bool" where
  "is_compound (TList _) = True"
| "is_compound (TRecord _) = True"
| "is_compound _ = False"

fun check_form_fields :: "(string \<times> value_type) list \<Rightarrow> unit outcome" where
  "check_form_fields [] = Ok ()"
| "check_form_fields ((name, field_ty) # fts) =
     (if is_compound field_ty
      then type_error (''network call `as form` payload field `'' @ name
             @ ''` must be a scalar (bool/num/string), found `'' @ show_type field_ty @ ''`'')
      else check_form_fields fts)"

definition check_payload_format_shape :: "payload_format \<Rightarrow> value_type option \<Rightarrow> unit outcome" where
  "check_payload_format_shape format t =
     (case t of
        None \<Rightarrow> Ok ()
      | Some ty \<Rightarrow>
          (case format of
             FText \<Rightarrow>
               if ty \<noteq> TStr
               then type_error (''network call `as text` payload must be type `string`, found `'' @ show_type ty @ ''`'')
               else Ok ()
           | FForm \<Rightarrow>
               (case ty of
                  TRecord fts \<Rightarrow> check_form_fields fts
                | _ \<Rightarrow> type_error (''network call `as form` payload must be a record, found `'' @ show_type ty @ ''`''))
           | FMultipart \<Rightarrow>
               if \<not> is_record_type ty
               then type_error (''network call `as multipart` payload must be a record, found `'' @ show_type ty @ ''`'')
               else Ok ()
           | FJson \<Rightarrow> Ok ()
           | FYaml \<Rightarrow> Ok ()))"

fun forO :: "('a \<Rightarrow> unit outcome) \<Rightarrow> 'a list \<Rightarrow> unit outcome" where
  "forO f [] = Ok ()"
| "forO f (x # xs) = bindO (f x) (\<lambda>_. forO f xs)"

definition check_action :: "function_table \<Rightarrow> string_interner \<Rightarrow> type_env \<Rightarrow> action \<Rightarrow> unit outcome" where
  "check_action fs t env act =
     (let inf = infer_tree fs t env; chk = (\<lambda>tr. bindO (inf tr) (\<lambda>_. Ok ())) in
      case act of
        AEval e \<Rightarrow> chk e
      | AAssign _ e \<Rightarrow> chk e
      | ANavigate url \<Rightarrow> chk url
      | ANetworkCall _ _ payload path_param _ format headers \<Rightarrow>
          bindO (case payload of None \<Rightarrow> Ok () | Some p \<Rightarrow> bindO (inf p) (check_payload_format_shape format)) (\<lambda>_.
          bindO (case path_param of None \<Rightarrow> Ok () | Some p \<Rightarrow> chk p) (\<lambda>_.
          forO (\<lambda>(_, value_expr). chk value_expr) headers)))"


fun infer_bindings ::
  "function_table \<Rightarrow> string_interner \<Rightarrow> computed_binding list \<Rightarrow> type_env \<Rightarrow> type_env outcome" where
  "infer_bindings fs t [] env = Ok env"
| "infer_bindings fs t (c # cs) env =
     bindO (infer_tree fs t env (cb_expr c)) (\<lambda>ty. infer_bindings fs t cs (env(cb_name c \<mapsto> ty)))"

fun param_env :: "(symbol \<times> value_type) list \<Rightarrow> type_env \<Rightarrow> type_env" where
  "param_env [] env = env"
| "param_env ((y, ty) # ps) env = param_env ps (env(y \<mapsto> Some ty))"

fun event_action :: "event_block \<Rightarrow> action" where
  "event_action (Click act) = act"
| "event_action (Submit act) = act"

definition check_types ::
  "event_block list list \<Rightarrow> root_timer list \<Rightarrow> function_list \<Rightarrow> computed_binding list \<Rightarrow> string_interner \<Rightarrow> unit outcome" where
  "check_types layout timers functions comps t =
     (let fs = map_of functions in
      bindO (infer_bindings fs t comps Map.empty) (\<lambda>global_env.
      bindO (forO (\<lambda>(_, func).
               bindO (infer_tree fs t (param_env (fn_params func) global_env) (fn_body func)) (\<lambda>_. Ok ())) functions) (\<lambda>_.
      bindO (forO (\<lambda>blocks. forO (\<lambda>b. check_action fs t global_env (event_action b)) blocks) layout) (\<lambda>_.
      forO (\<lambda>timer. check_action fs t global_env (timer_action timer)) timers))))"

section \<open>The type of a result\<close>

text \<open>
  A value fits a type when it passes the evaluator's own check, except that what is inferred as
  a number may be a string: \<open>+\<close> concatenates strings, and is inferred as a number throughout.
\<close>

definition fits :: "mval \<Rightarrow> value_type \<Rightarrow> bool" where
  "fits v ty \<longleftrightarrow> type_matches v ty \<or> (ty = TNum \<and> (\<exists>s. v = VString s))"

definition fits_opt :: "value_type option \<Rightarrow> mval \<Rightarrow> bool" where
  "fits_opt t v \<longleftrightarrow> (case t of None \<Rightarrow> True | Some ty \<Rightarrow> fits v ty)"

lemma fits_opt_None [simp]: "fits_opt None v"
  by (simp add: fits_opt_def)

lemma fits_Some_matches: "ty \<noteq> TNum \<Longrightarrow> fits_opt (Some ty) v \<longleftrightarrow> type_matches v ty"
  by (simp add: fits_opt_def fits_def)

lemma fits_Bool [simp]: "fits_opt (Some TBool) (VBool b)"
  by (simp add: fits_opt_def fits_def)

lemma fits_Int [simp]: "fits_opt (Some TNum) (VInt n)"
  by (simp add: fits_opt_def fits_def)

lemma fits_Str [simp]: "fits_opt (Some TStr) (VString s)"
  by (simp add: fits_opt_def fits_def)

lemma infer_literal_fits: "fits_opt (infer_literal v) v"
  by (cases v) (simp_all add: infer_literal_def fits_opt_def fits_def)

lemma apply_binop_fits:
  assumes "apply_binop op l r ic mx = (Ok v, ic')"
  shows "fits_opt (Some (infer_binop op)) v"
proof -
  have str: "fits_opt (Some (infer_binop op)) v" if "string_binop op a b ic mx = (Ok v, ic')" for a b
    using that by (cases op) (auto simp: fits_opt_def fits_def infer_binop_def Let_def split: if_splits)
  have int: "fits_opt (Some (infer_binop op)) v" if "int_binop op a b = Ok v" for a b
    using that by (cases op) (auto simp: fits_opt_def fits_def infer_binop_def overflow_or_Ok split: if_splits)
  have dec: "fits_opt (Some (infer_binop op)) v" if "decimal_binop op a b = Ok v" for a b
    using that by (cases op) (auto simp: fits_opt_def fits_def infer_binop_def overflow_or_Ok split: if_splits)
  have boolean: "fits_opt (Some (infer_binop op)) v" if "bool_binop op a b = Ok v" for a b
    using that by (cases op) (auto simp: fits_opt_def fits_def infer_binop_def)
  have null: "fits_opt (Some (infer_binop op)) v" if "null_binop op a b = Ok v" for a b
    using that by (cases op) (auto simp: fits_opt_def fits_def infer_binop_def)
  have cmp: "is_comparison op \<Longrightarrow> fits_opt (Some (infer_binop op)) (VBool b)" for b
    by (auto simp: infer_binop_def)
  show ?thesis
    using assms
    by (cases l; cases r) (auto simp: apply_binop_def cmp simp del: is_comparison.simps
        dest: str int dec boolean null split: if_splits option.splits)
qed

lemma find_field_fits:
  assumes "list_all2 (\<lambda>f (exp_name, exp_type). rf_key f = exp_name \<and> type_matches (rf_value f) exp_type) fs fts"
    and "list_all field_ok fs" "map_of fts k = Some ty" "find (\<lambda>f. rf_hash f = h \<and> rf_key f = k) fs = Some f"
  shows "type_matches (rf_value f) ty"
  using assms
proof (induction fs fts rule: list_all2_induct)
  case (Cons g fs ft fts)
  then show ?case
    by (cases "rf_key g = k") (auto simp: field_ok_sel list_all_iff find_Some_iff split: if_splits)
qed simp

lemma get_field_fits:
  assumes "value_ok v" "type_matches v (TRecord fts)" "map_of fts k = Some ty" "get_field v h k = Some w"
  shows "type_matches w ty"
  using assms by (cases v) (auto intro: find_field_fits)

section \<open>Typed computations\<close>

text \<open>
  What a scope holds fits the environment: the innermost binding above the frame pointer, or
  the global when there is none (an unset global is an error when it is read).
\<close>

definition scope_fits :: "type_env \<Rightarrow> (symbol \<times> mval) list \<Rightarrow> (symbol \<Rightarrow> mval) \<Rightarrow> bool" where
  "scope_fits env scope globals \<longleftrightarrow>
     (\<forall>y t. env y = Some t \<longrightarrow>
        (case map_of (rev scope) y of
           Some v \<Rightarrow> fits_opt t v
         | None \<Rightarrow> globals y = VNull \<or> fits_opt t (globals y)))"

definition env_fits :: "type_env \<Rightarrow> nat \<Rightarrow> evaluator \<Rightarrow> bool" where
  "env_fits env fp s \<longleftrightarrow> fp \<le> length (locals_abs s) \<and> scope_fits env (drop fp (locals_abs s)) (get_global s)"

definition typed :: "evaluator \<Rightarrow> 'a ecomput \<Rightarrow> ('a \<Rightarrow> bool) \<Rightarrow> bool" where
  "typed s0 m P \<longleftrightarrow> (\<forall>s v s'. ok_rel s0 s \<longrightarrow> m s = (Ok v, s') \<longrightarrow> P v)"

lemma typedI: "(\<And>s v s'. ok_rel s0 s \<Longrightarrow> m s = (Ok v, s') \<Longrightarrow> P v) \<Longrightarrow> typed s0 m P"
  by (auto simp: typed_def)

lemma typedD: "typed s0 m P \<Longrightarrow> ok_rel s0 s \<Longrightarrow> m s = (Ok v, s') \<Longrightarrow> P v"
  by (auto simp: typed_def)

lemma get_global_cong: "global_store s = global_store s' \<Longrightarrow> get_global s = get_global s'"
  by (simp add: fun_eq_iff get_global_def)

lemma env_fits_ok_rel: "env_fits env fp s0 \<Longrightarrow> ok_rel s0 s \<Longrightarrow> env_fits env fp s"
  using get_global_cong [of s s0] by (simp add: env_fits_def ok_rel_def mid_rel_def frame_rel_def)

lemma scope_fits_push: "scope_fits env L g \<Longrightarrow> fits_opt t v \<Longrightarrow> scope_fits (env(y \<mapsto> t)) (L @ [(y, v)]) g"
  by (auto simp: scope_fits_def)

lemma env_fits_push:
  assumes "env_fits env fp s" "locals_ok s" "fits_opt t v"
  shows "env_fits (env(y \<mapsto> t)) fp (push_local y v s)"
proof -
  have "get_global (push_local y v s) = get_global s" by (rule get_global_cong) (simp add: push_local_def Let_def)
  then show ?thesis
    using assms scope_fits_push by (simp add: env_fits_def ls.push_abs)
qed

lemma bindS_Ok:
  "bindS m f s = (Ok v, s') \<longleftrightarrow> (\<exists>w s1. m s = (Ok w, s1) \<and> f w s1 = (Ok v, s'))"
  by (auto simp: bindS_def split: prod.splits outcome.splits)

lemma basic_Ok [simp]:
  "okS v s = (Ok w, s') \<longleftrightarrow> w = v \<and> s' = s"
  "errS e s \<noteq> (Ok w, s')"
  "liftS x s = (Ok w, s') \<longleftrightarrow> x = Ok w \<and> s' = s"
  by (auto simp: okS_def failS_def liftS_def)

lemma as_list_Ok [simp]: "as_list v = Ok l \<longleftrightarrow> v = VList l"
  by (auto simp: as_list_def split: mval.splits)

lemma filter_loop_subset: "filter_loop bop field target mx items ic = (Ok out, ic') \<Longrightarrow> set out \<subseteq> set items"
  by (induction items arbitrary: ic out) (fastforce split: option.splits prod.splits outcome.splits if_splits)+

lemma filter_result:
  assumes "builtin_filter eva args s = (Ok v, s')"
  obtains items s1 out where "eva (args ! 0) s = (Ok (VList items), s1)" "v = VList out" "set out \<subseteq> set items"
proof -
  have "\<exists>items s1 out. eva (args ! 0) s = (Ok (VList items), s1) \<and> v = VList out \<and> set out \<subseteq> set items"
    using assms unfolding builtin_filter_def bindS_Ok basic_Ok as_list_Ok
    by (elim exE conjE) (auto split: prod.splits outcome.splits dest!: filter_loop_subset)
  with that show ?thesis by blast
qed

lemma sort_items_set: "sort_items field desc items = Ok out \<Longrightarrow> set out = set items"
  by (auto simp: sort_items_def Let_def sort_by_set image_image split: if_splits)

lemma sort_result:
  assumes "builtin_sort eva args s = (Ok v, s')"
  obtains items s1 out where "eva (args ! 0) s = (Ok (VList items), s1)" "v = VList out" "set out \<subseteq> set items"
  using assms by (fastforce simp: builtin_sort_def bindS_Ok dest: sort_items_set split: if_splits)

lemma length_result: "builtin_length eva args s = (Ok v, s') \<Longrightarrow> fits_opt (Some TNum) v"
  unfolding builtin_length_def bindS_Ok
  by (elim exE conjE, case_tac w) (auto split: if_splits)

lemma to_string_result: "builtin_to_string eva args s = (Ok v, s') \<Longrightarrow> fits_opt (Some TStr) v"
  unfolding builtin_to_string_def bindS_Ok
  by (elim exE conjE, case_tac w) auto

lemma count_result: "builtin_count ctx eva args s = (Ok v, s') \<Longrightarrow> fits_opt (Some TNum) v"
  by (auto simp: builtin_count_def bindS_Ok)

lemma contains_result: "builtin_contains eva args s = (Ok v, s') \<Longrightarrow> fits_opt (Some TBool) v"
  by (auto simp: builtin_contains_def bindS_Ok)

lemma has_field_result: "builtin_has_field eva args s = (Ok v, s') \<Longrightarrow> fits_opt (Some TBool) v"
  unfolding builtin_has_field_def bindS_Ok
  by (elim exE conjE, case_tac w) (auto simp: bindS_Ok)

lemmas scalar_results = length_result to_string_result count_result contains_result has_field_result

lemma let_result:
  assumes "eval_let eva y v body s = (Ok w, s')"
  obtains bv s1 s2 where "eva v s = (Ok bv, s1)" "eva body (push_local y bv s1) = (Ok w, s2)"
  using assms unfolding eval_let_def bindS_Ok modS_def finallyS_def
  by (metis (no_types, lifting) prod.case_eq_if prod.collapse fst_conv snd_conv)

lemma field_result:
  assumes "eval_field ctx eva b f h s = (Ok w, s')"
  obtains bv s1 where "eva b s = (Ok bv, s1)" "get_field bv h (resolve_or '''' ctx f) = Some w"
proof -
  obtain bv s1 where b: "eva b s = (Ok bv, s1)" using assms by (auto simp: eval_field_def bindS_Ok)
  with assms have "get_field bv h (resolve_or '''' ctx f) = Some w"
    by (cases bv) (auto simp: eval_field_def bindS_Ok ok_or_def simp del: get_field.simps split: option.splits)
  with that b show ?thesis .
qed

lemma if_result:
  assumes "eval_if eva c a b s = (Ok w, s')"
  obtains x s1 where "eva c s = (Ok (VBool x), s1)" "eva (if x then a else b) s1 = (Ok w, s')"
proof -
  obtain v s1 where c: "eva c s = (Ok v, s1)" using assms by (auto simp: eval_if_def bindS_Ok)
  with assms that show ?thesis by (cases v) (auto simp: eval_if_def bindS_Ok split: if_splits)
qed

lemma not_result: "eval_not eva i s = (Ok w, s') \<Longrightarrow> fits_opt (Some TBool) w"
  unfolding eval_not_def bindS_Ok by (elim exE conjE, case_tac wa) auto

lemma binop_result: "eval_binop eva op l r s = (Ok w, s') \<Longrightarrow> fits_opt (Some (infer_binop op)) w"
  unfolding eval_binop_def bindS_Ok
  by (elim exE conjE) (auto intro!: apply_binop_fits split: prod.splits)

lemma sublist_fits: "fits_opt (Some (TList ty)) (VList items) \<Longrightarrow> set out \<subseteq> set items \<Longrightarrow> fits_opt (Some (TList ty)) (VList out)"
  by (auto simp: fits_Some_matches list_all_iff)

lemma list_result_fits:
  assumes "list_result what t = Ok t'" "fits_opt t (VList items)" "set out \<subseteq> set items"
  shows "fits_opt t' (VList out)"
  using assms sublist_fits by (auto simp: list_result_def type_error_def split: option.splits value_type.splits)

lemma expects_result: "expects acc what result t = Ok t' \<Longrightarrow> t' = Some result"
  by (auto simp: expects_def type_error_def split: option.splits if_splits)

lemma infer_each_nth:
  assumes "infer_each f ar ids = Ok ts"
  shows "length ts = length ids \<and> (\<forall>k < length ids. bindO (arena_get ar (ids ! k)) f = Ok (ts ! k))"
  using assms by (induction ids arbitrary: ts) (auto simp: bindO_Ok nth_Cons split: nat.splits)

section \<open>Soundness\<close>

lemma typed_builtin_cases:
  assumes "is_typed_builtin name n"
  obtains "name = ''filter''" "n = 4" | "name = ''count''" "n = 3" | "name = ''sort''" "n = 3"
    | "name = ''length''" "n = 1" | "name = ''to_string''" "n = 1" | "name = ''contains''" "n = 2"
    | "name = ''has_field''" "n = 2"
  using assms by (auto simp: is_typed_builtin_def builtin_result_def Let_def split: if_splits)

text \<open>The contract of an evaluator whose results have the inferred types.\<close>

locale typed_evaluator = evaluator_contract +
  assumes ev_typed:
    "ctx_wf ctx \<Longrightarrow> arena_wf ar \<Longrightarrow> expr_wf ar e \<Longrightarrow> fuel_ok fuel (eval_depth s0) \<Longrightarrow>
       infer m (ctx_functions ctx) (ctx_interner ctx) ar env e = Ok t \<Longrightarrow> env_fits env fp s0 \<Longrightarrow>
       typed s0 (ev e fp ar) (fits_opt t)"
begin

definition sub :: "expr_arena \<Rightarrow> nat \<Rightarrow> expr_id \<Rightarrow> mval ecomput" where
  "sub ar fp i = bindS (liftS (arena_get ar i)) (\<lambda>e. ev e fp ar)"

definition inf :: "nat \<Rightarrow> expr_arena \<Rightarrow> type_env \<Rightarrow> expr_id \<Rightarrow> value_type option outcome" where
  "inf m ar env i = bindO (arena_get ar i) (infer m (ctx_functions ctx) (ctx_interner ctx) ar env)"

lemma sub_typed:
  assumes "ctx_wf ctx" "arena_wf ar" "fuel_ok fuel (eval_depth s0)" "env_fits env fp s0" "inf m ar env i = Ok t"
  shows "typed s0 (sub ar fp i) (fits_opt t)"
proof -
  obtain e where e: "arena_get ar i = Ok e" "infer m (ctx_functions ctx) (ctx_interner ctx) ar env e = Ok t"
    using assms(5) by (auto simp: inf_def bindO_Ok)
  then have "expr_wf ar e"
    using assms(2) arena_get_ok [of ar i e]
    by (auto simp: expr_wf_def arena_wf_def list_all_length arena_get_def index_or_panic_def split: if_splits)
  from ev_typed [OF assms(1,2) this assms(3) e(2) assms(4)] show ?thesis
    by (auto simp: typed_def sub_def bindS_Ok e(1))
qed

lemma call_typed:
  assumes "ctx_wf ctx" "arena_wf ar" "fuel_ok fuel (eval_depth s0)" "env_fits env fp s0"
    and "infer_call (ctx_functions ctx) (ctx_interner ctx)
           (infer_each (infer m (ctx_functions ctx) (ctx_interner ctx) ar env) ar) y args = Ok t"
  shows "typed s0 (eval_call ev ctx (sub ar fp) ar y args) (fits_opt t)"
proof (rule typedI)
  fix s v s' assume s: "ok_rel s0 s" and run: "eval_call ev ctx (sub ar fp) ar y args s = (Ok v, s')"
  define name where "name = (case resolve (ctx_interner ctx) y of Some s \<Rightarrow> s | None \<Rightarrow> '''')"
  show "fits_opt t v"
  proof (cases "is_typed_builtin name (length args)")
    case True
    then obtain ts where each: "infer_each (infer m (ctx_functions ctx) (ctx_interner ctx) ar env) ar args = Ok ts"
      and res: "(case builtin_result name ts of Some r \<Rightarrow> r | None \<Rightarrow> Ok None) = Ok t"
      using assms(5) by (auto simp: infer_call_def Let_def bindO_Ok name_def)
    have len: "length ts = length args"
      and sub: "\<And>k. k < length args \<Longrightarrow> typed s0 (sub ar fp (args ! k)) (fits_opt (ts ! k))"
      using infer_each_nth [OF each] sub_typed [OF assms(1-4), of m] by (auto simp: inf_def)
    have list: "fits_opt t (VList out)"
      if "sub ar fp (args ! 0) s = (Ok (VList items), s1)" "set out \<subseteq> set items" "0 < length args"
        "list_result what (ts ! 0) = Ok t" for items s1 out what
      using that typedD [OF sub s] list_result_fits by blast
    have name: "resolve_or ''<unknown>'' ctx y = name" if "name \<noteq> ''''"
      using that by (auto simp: resolve_or_def name_def split: option.splits)
    from True show ?thesis
    proof (cases rule: typed_builtin_cases)
      case 1
      then show ?thesis
        using run res len name list by (auto simp: eval_call_def builtin_result_def elim!: filter_result)
    next
      case 3
      then show ?thesis
        using run res len name list by (auto simp: eval_call_def builtin_result_def elim!: sort_result)
    qed (use run res len name in \<open>auto simp: eval_call_def builtin_result_def dest!: expects_result scalar_results\<close>)
  next
    case False
    then show ?thesis
      using assms(5)
      by (auto simp: infer_call_def Let_def bindO_Ok type_error_def name_def [symmetric] split: option.splits if_splits)
  qed
qed

lemma sub_state:
  assumes "ctx_wf ctx" "arena_wf ar" "fuel_ok fuel (eval_depth s0)" "inf m ar env i = Ok t"
    and "ok_rel s0 s" "sub ar fp i s = (Ok v, s')"
  shows "ok_rel s0 s' \<and> value_ok v"
proof -
  have "i < length (nodes ar)"
    using assms(4) by (auto simp: inf_def bindO_Ok arena_get_def index_or_panic_def split: if_splits)
  from validD_ok [OF eva_okD [OF eva_ok_arena [OF assms(1-3)] this] assms(5)] assms(6)
  show ?thesis by (auto simp: sub_def)
qed

lemma let_typed:
  assumes "ctx_wf ctx" "arena_wf ar" "fuel_ok fuel (eval_depth s0)" "env_fits env fp s0"
    and "inf m ar env v = Ok tv" "inf m ar (env(y \<mapsto> tv)) body = Ok t"
  shows "typed s0 (eval_let (sub ar fp) y v body) (fits_opt t)"
proof (rule typedI)
  fix s w s' assume s: "ok_rel s0 s" and "eval_let (sub ar fp) y v body s = (Ok w, s')"
  then obtain bv s1 s2 where v: "sub ar fp v s = (Ok bv, s1)" and b: "sub ar fp body (push_local y bv s1) = (Ok w, s2)"
    by (auto elim: let_result)
  have s1: "ok_rel s0 s1" "value_ok bv" using sub_state [OF assms(1-3,5) s v] by auto
  have fit: "fits_opt tv bv" using typedD [OF sub_typed [OF assms(1-5)] s v] .
  let ?s = "push_local y bv s1"
  have "state_ok ?s" by (rule state_ok_push [OF ok_rel_state [OF s1(1)] s1(2)])
  moreover have "env_fits (env(y \<mapsto> tv)) fp ?s"
    using env_fits_push [OF env_fits_ok_rel [OF assms(4) s1(1)] _ fit] s1(1) by (simp add: ok_rel_def mid_rel_def)
  moreover have "fuel_ok fuel (eval_depth ?s)" using assms(3) s1 by (simp add: ok_rel_depth)
  ultimately show "fits_opt t w"
    using typedD [OF sub_typed [OF assms(1,2) _ _ assms(6)] ok_rel_refl b] by simp
qed

lemma field_typed:
  assumes "ctx_wf ctx" "arena_wf ar" "fuel_ok fuel (eval_depth s0)" "env_fits env fp s0"
    and "inf m ar env b = Ok tb" "infer_field (ctx_interner ctx) f tb = Ok t"
  shows "typed s0 (eval_field ctx (sub ar fp) b f h) (fits_opt t)"
proof (rule typedI)
  fix s w s' assume s: "ok_rel s0 s" and "eval_field ctx (sub ar fp) b f h s = (Ok w, s')"
  then obtain bv s1 where b: "sub ar fp b s = (Ok bv, s1)" and w: "get_field bv h (resolve_or '''' ctx f) = Some w"
    by (auto elim: field_result)
  have "value_ok bv" "fits_opt tb bv"
    using sub_state [OF assms(1-3,5) s b] typedD [OF sub_typed [OF assms(1-5)] s b] by auto
  then show "fits_opt t w"
    using assms(6) w get_field_fits [of bv]
    by (auto simp: infer_field_def Let_def resolve_or_def type_error_def fits_Some_matches fits_opt_def fits_def
        split: option.splits value_type.splits)
qed

lemma if_typed:
  assumes "ctx_wf ctx" "arena_wf ar" "fuel_ok fuel (eval_depth s0)" "env_fits env fp s0"
    and "inf m ar env c = Ok tc" "inf m ar env a = Ok ta" "inf m ar env b = Ok tb"
  shows "typed s0 (eval_if (sub ar fp) c a b) (fits_opt (if ta = tb then ta else None))"
proof (rule typedI)
  fix s w s' assume s: "ok_rel s0 s" and "eval_if (sub ar fp) c a b s = (Ok w, s')"
  then obtain x s1 where c: "sub ar fp c s = (Ok (VBool x), s1)" and r: "sub ar fp (if x then a else b) s1 = (Ok w, s')"
    by (auto elim: if_result)
  have "ok_rel s0 s1" using sub_state [OF assms(1-3,5) s c] by simp
  then show "fits_opt (if ta = tb then ta else None) w"
    using r typedD [OF sub_typed [OF assms(1-4)]] assms(6,7) by (auto split: if_splits)
qed

lemma variable_typed:
  assumes "env_fits env fp s0"
  shows "typed s0 (eval_variable ctx y fp) (fits_opt (case env y of Some t \<Rightarrow> t | None \<Rightarrow> None))"
proof (rule typedI)
  fix s w s' assume s: "ok_rel s0 s" and r: "eval_variable ctx y fp s = (Ok w, s')"
  have "env_fits env fp s" "locals_ok s"
    using env_fits_ok_rel [OF assms s] s by (auto simp: ok_rel_def mid_rel_def)
  then show "fits_opt (case env y of Some t \<Rightarrow> t | None \<Rightarrow> None) w"
    using r by (cases "env y"; cases "map_of (rev (drop fp (locals_abs s))) y")
      (fastforce simp: eval_variable_def env_fits_def scope_fits_def ls.look_abs split: option.splits if_splits)+
qed

lemma impl_typed:
  assumes "ctx_wf ctx" "arena_wf ar" "fuel_ok fuel (eval_depth s0)" "env_fits env fp s0"
    and "infer m (ctx_functions ctx) (ctx_interner ctx) ar env e = Ok t"
  shows "typed s0 (evaluate_impl ev ctx e fp ar) (fits_opt t)"
proof (cases m)
  case (Suc k)
  note wf = assms(1-4) and I = assms(5) [unfolded Suc infer.simps Let_def inf_def [symmetric]]
  have eva: "(\<lambda>i. bindS (liftS (arena_get ar i)) (\<lambda>e. ev e fp ar)) = sub ar fp"
    by (simp add: sub_def fun_eq_iff)
  show ?thesis
  proof (cases e)
    case (EFunctionCall y st n)
    then show ?thesis
      using I call_typed [OF wf] by (auto simp: evaluate_impl_def eva bindO_Ok typed_def bindS_Ok)
  next
    case (EBinaryOp l op r)
    then show ?thesis
      using I by (auto simp: evaluate_impl_def eva bindO_Ok Let_def intro!: typedI binop_result)
  next
    case (ENot i)
    then show ?thesis
      using I by (auto simp: evaluate_impl_def eva bindO_Ok Let_def intro!: typedI not_result)
  next
    case (EIfElse c a b)
    then show ?thesis
      using I if_typed [OF wf] by (auto simp: evaluate_impl_def eva bindO_Ok)
  next
    case (ELet y v b)
    then show ?thesis
      using I let_typed [OF wf] by (auto simp: evaluate_impl_def eva bindO_Ok)
  next
    case (EFieldAccess b f h)
    then show ?thesis
      using I field_typed [OF wf] by (auto simp: evaluate_impl_def eva bindO_Ok)
  next
    case (EVariable y)
    then show ?thesis
      using I variable_typed [OF assms(4), of y] by (simp add: evaluate_impl_def)
  next
    case (ELiteral v)
    then show ?thesis
      using I infer_literal_fits by (auto simp: evaluate_impl_def typed_def)
  qed
qed (use assms(5) in simp)

end

lemma enter_typed:
  assumes body: "\<And>s. eval_depth s = Suc (eval_depth s0) \<Longrightarrow> Suc (eval_depth s0) \<le> MAX_EVAL_DEPTH \<Longrightarrow> env_fits env fp s \<Longrightarrow>
      typed s m P"
    and env: "env_fits env fp s0"
  shows "typed s0 (enter_eval m) P"
proof (rule typedI)
  fix s v s' assume s: "ok_rel s0 s" and r: "enter_eval m s = (Ok v, s')"
  let ?s = "s\<lparr>instruction_count := instruction_count s + 1, eval_depth := eval_depth s + 1\<rparr>"
  obtain s1 where m: "m ?s = (Ok v, s1)" and lim: "instruction_count ?s \<le> max_instructions ?s" "eval_depth ?s \<le> MAX_EVAL_DEPTH"
    using r by (auto simp: enter_eval_def Let_def finallyS_def split: if_splits prod.splits)
  have d: "eval_depth s = eval_depth s0" by (rule ok_rel_depth [OF s])
  have "env_fits env fp ?s"
    using env_fits_ok_rel [OF env s] get_global_cong [of ?s s] by (simp add: env_fits_def locals_abs_def)
  moreover have "state_ok ?s"
    using ok_rel_state [OF s] lim by (simp add: state_ok_def locals_ok_def vals_ok_def)
  ultimately show "P v"
    using typedD [OF body ok_rel_refl m] lim d by simp
qed

lemma evaluate_fuel_typed: "typed_evaluator ctx n (evaluate_fuel n ctx)"
proof (induction n)
  case 0
  show ?case by unfold_locales (auto simp: fuel_ok_def)
next
  case (Suc n)
  show ?case
    by unfold_locales (auto intro!: enter_typed typed_evaluator.impl_typed [OF Suc] fuel_ok_Suc)
qed

interpretation te: typed_evaluator ctx n "evaluate_fuel n ctx" for ctx n
  by (rule evaluate_fuel_typed)

text \<open>
  (C15) Type soundness: when the checker infers a type for an expression in an environment the
  scope fits, every value the evaluator returns for it has that type by the evaluator's own
  check. The one exception is the number: \<open>+\<close> is inferred as a number whatever its operands,
  so a value of inferred type number may be a string.
\<close>

theorem inferred_type_sound:
  assumes "ctx_wf ctx" "arena_wf ar" "expr_wf ar e" "state_ok s" "eval_depth s \<le> MAX_EVAL_DEPTH"
    and "infer n (ctx_functions ctx) (ctx_interner ctx) ar env e = Ok (Some ty)" "env_fits env fp s"
    and "evaluate ctx e fp ar s = (Ok v, s')"
  shows "type_matches v ty \<or> (ty = TNum \<and> (\<exists>str. v = VString str))"
proof -
  have "typed s (evaluate ctx e fp ar) (fits_opt (Some ty))"
    using assms unfolding evaluate_def by (intro te.ev_typed) (simp_all add: fuel_ok_def)
  from typedD [OF this ok_rel_refl [OF assms(4)] assms(8)] show ?thesis by (simp add: fits_opt_def fits_def)
qed

definition typed_page :: evaluator where
  "typed_page = evaluator_default\<lparr>global_store := [7 \<mapsto> VBool True]\<rparr>"

definition typed_arena :: expr_arena where
  "typed_arena = \<lparr>nodes = [EVariable 7], args_pool = []\<rparr>"

lemma typed_page_runs:
  "\<exists>s'. evaluate (bare_ctx Map.empty) (ENot 0) 0 typed_arena typed_page = (Ok (VBool False), s')"
  by (simp add: typed_page_def typed_arena_def evaluate_step enter_eval_def evaluate_impl_def Let_def comput_defs
      eval_not_def arena_get_def index_or_panic_def eval_variable_def get_local_def get_global_def
      evaluator_default_def evaluator_new_def u64_defs MAX_EVAL_DEPTH_def)

theorem inferred_type_sound_witness:
  "\<exists>v s'. evaluate (bare_ctx Map.empty) (ENot 0) 0 typed_arena typed_page = (Ok v, s')
     \<and> (type_matches v TBool \<or> (TBool = TNum \<and> (\<exists>str. v = VString str)))"
proof -
  obtain s' where run: "evaluate (bare_ctx Map.empty) (ENot 0) 0 typed_arena typed_page = (Ok (VBool False), s')"
    using typed_page_runs by blast
  have ok: "state_ok typed_page" "eval_depth typed_page \<le> MAX_EVAL_DEPTH"
    using default_state_ok by (auto simp: typed_page_def state_ok_def locals_ok_def vals_ok_def)
  have env: "env_fits [7 \<mapsto> Some TBool] 0 typed_page"
    by (simp add: env_fits_def scope_fits_def typed_page_def get_global_def locals_abs_def evaluator_default_def evaluator_new_def)
  have "infer (Suc (Suc 0)) Map.empty interner_new typed_arena [7 \<mapsto> Some TBool] (ENot 0) = Ok (Some TBool)"
    by (simp add: typed_arena_def arena_get_def index_or_panic_def)
  then show ?thesis
    using inferred_type_sound [OF _ _ _ ok _ env run, of "Suc (Suc 0)" TBool] run
    by (simp add: wf_defs typed_arena_def)
qed

section \<open>The check returns\<close>

definition expr_children :: "expr_arena \<Rightarrow> expr \<Rightarrow> expr_id list" where
  "expr_children ar e =
     expr_refs e @ (case e of EFunctionCall _ s l \<Rightarrow> take l (drop s (args_pool ar)) | _ \<Rightarrow> [])"

text \<open>The parser allocates a node after its children.\<close>

definition children_first :: "expr_arena \<Rightarrow> bool" where
  "children_first ar \<longleftrightarrow> (\<forall>i < length (nodes ar). \<forall>j \<in> set (expr_children ar (nodes ar ! i)). j < i)"

definition reports :: "'a outcome \<Rightarrow> bool" where
  "reports r \<longleftrightarrow> (\<forall>f. r = Fail f \<longrightarrow> (\<exists>msg. f = Error (StaticTypeError msg)))"

lemma reports_simps [simp]: "reports (Ok v)" "reports (type_error msg)"
  by (auto simp: reports_def type_error_def)

lemma reports_bind: "reports m \<Longrightarrow> (\<And>v. m = Ok v \<Longrightarrow> reports (f v)) \<Longrightarrow> reports (bindO m f)"
  by (cases m) (auto simp: reports_def)

lemma reports_each:
  "(\<And>i. i \<in> set ids \<Longrightarrow> reports (bindO (arena_get ar i) f)) \<Longrightarrow> reports (infer_each f ar ids)"
proof (induction ids)
  case (Cons i ids)
  have "reports (bindO (arena_get ar i) f)" using Cons.prems by simp
  moreover have "reports (infer_each f ar ids)" using Cons by simp
  moreover have "infer_each f ar (i # ids) = bindO (bindO (arena_get ar i) f) (\<lambda>t. bindO (infer_each f ar ids) (\<lambda>ts. Ok (t # ts)))"
    by (cases "arena_get ar i") simp_all
  ultimately show ?case by (auto intro!: reports_bind simp del: infer_each.simps)
qed simp

lemma reports_call:
  assumes "reports (each args)"
  shows "reports (infer_call fs t each y args)"
proof -
  have "reports (case builtin_result n ts of Some r \<Rightarrow> r | None \<Rightarrow> Ok None)" for n ts
    by (auto simp: builtin_result_def Let_def list_result_def expects_def split: option.splits value_type.splits if_splits)
  then show ?thesis
    using assms by (auto simp: infer_call_def Let_def intro!: reports_bind split: option.splits)
qed

lemma reports_field: "reports (infer_field t field b)"
  by (auto simp: infer_field_def Let_def split: option.splits value_type.splits)

lemma infer_reports:
  assumes "arena_ok ar" "children_first ar"
  shows "node_ok ar e \<Longrightarrow> \<forall>j \<in> set (expr_children ar e). j < n \<Longrightarrow> reports (infer (Suc n) fs t ar env e)"
proof (induction n arbitrary: e env)
  case 0
  then show ?case
    by (cases e) (auto simp: expr_children_def arena_args_def node_ok_def intro!: reports_call)
next
  case (Suc n)
  have sub: "reports (bindO (arena_get ar j) (infer (Suc n) fs t ar env'))" if "j \<in> set (expr_children ar e)" for j env'
  proof -
    have j: "j < length (nodes ar)"
      using that Suc.prems(1) assms(1)
      by (cases e) (auto simp: expr_children_def node_ok_def arena_ok_def list_all_iff dest!: in_set_takeD in_set_dropD)
    then have "arena_get ar j = Ok (nodes ar ! j)" by (simp add: arena_get_def index_or_panic_def)
    moreover have "node_ok ar (nodes ar ! j)" using j assms(1) by (simp add: arena_ok_def list_all_length)
    moreover have "\<forall>k \<in> set (expr_children ar (nodes ar ! j)). k < n"
      using assms(2) j Suc.prems(2) that by (fastforce simp: children_first_def)
    ultimately show ?thesis using Suc.IH by simp
  qed
  define g where "g = (\<lambda>env' j. bindO (arena_get ar j) (infer (Suc n) fs t ar env'))"
  have g: "reports (g env' j)" if "j \<in> set (expr_children ar e)" for j env'
    using sub [OF that] by (simp add: g_def)
  show ?case
  proof (cases e)
    case (EFunctionCall y s l)
    then have "arena_args ar s l = Ok (take l (drop s (args_pool ar)))"
      using Suc.prems(1) by (simp add: node_ok_def arena_args_def)
    then show ?thesis
      using EFunctionCall sub unfolding infer.simps(2) [of "Suc n"] Let_def
      by (auto simp: expr_children_def simp del: infer.simps intro!: reports_call reports_each)
  qed (use g in \<open>unfold infer.simps(2) [of "Suc n"] Let_def g_def [symmetric],
      auto simp: expr_children_def simp del: infer.simps intro!: reports_bind reports_field\<close>)
qed

definition parsed_tree :: "expr_tree \<Rightarrow> bool" where
  "parsed_tree tr \<longleftrightarrow> arena_ok (tree_arena tr) \<and> children_first (tree_arena tr) \<and> tree_root tr < length (nodes (tree_arena tr))"

fun trees_in :: "action \<Rightarrow> expr_tree list" where
  "trees_in (AEval e) = [e]"
| "trees_in (AAssign _ e) = [e]"
| "trees_in (ANavigate url) = [url]"
| "trees_in (ANetworkCall _ _ payload path_param _ _ headers) =
     (case payload of Some p \<Rightarrow> [p] | None \<Rightarrow> []) @ (case path_param of Some p \<Rightarrow> [p] | None \<Rightarrow> []) @ map snd headers"

definition parsed_document ::
  "event_block list list \<Rightarrow> root_timer list \<Rightarrow> function_list \<Rightarrow> computed_binding list \<Rightarrow> bool" where
  "parsed_document layout timers functions comps \<longleftrightarrow>
     list_all (\<lambda>c. parsed_tree (cb_expr c)) comps \<and> list_all (\<lambda>(_, f). parsed_tree (fn_body f)) functions
     \<and> list_all (list_all (\<lambda>b. list_all parsed_tree (trees_in (event_action b)))) layout
     \<and> list_all (\<lambda>tm. list_all parsed_tree (trees_in (timer_action tm))) timers"

lemma infer_tree_reports:
  assumes "parsed_tree tr"
  shows "reports (infer_tree fs t env tr)"
proof -
  let ?ar = "tree_arena tr"
  let ?e = "nodes ?ar ! tree_root tr"
  have wf: "arena_ok ?ar" "children_first ?ar" "tree_root tr < length (nodes ?ar)" using assms by (auto simp: parsed_tree_def)
  then have "node_ok ?ar ?e" by (simp add: arena_ok_def list_all_length)
  moreover have "\<forall>j \<in> set (expr_children ?ar ?e). j < length (nodes ?ar)"
    using wf by (fastforce simp: children_first_def)
  ultimately have "reports (infer (walk_fuel ?ar) fs t ?ar env ?e)"
    unfolding walk_fuel_def by (intro infer_reports wf)
  then show ?thesis
    using wf by (simp add: infer_tree_def root_expr_def arena_get_def index_or_panic_def)
qed

lemma reports_for: "list_all (\<lambda>x. reports (f x)) xs \<Longrightarrow> reports (forO f xs)"
  by (induction xs) (auto intro: reports_bind)

lemma reports_shape: "reports (check_payload_format_shape format t)"
proof -
  have "reports (check_form_fields fts)" for fts by (induction fts rule: check_form_fields.induct) auto
  then show ?thesis
    by (auto simp: check_payload_format_shape_def split: option.splits payload_format.splits value_type.splits)
qed

lemma check_action_reports: "list_all parsed_tree (trees_in act) \<Longrightarrow> reports (check_action fs t env act)"
  by (cases act)
    (auto simp: check_action_def Let_def list_all_iff intro!: reports_bind reports_for reports_shape infer_tree_reports
      split: option.splits, (metis snd_conv)+)

lemma infer_bindings_reports:
  "list_all (\<lambda>c. parsed_tree (cb_expr c)) cs \<Longrightarrow> reports (infer_bindings fs t cs env)"
  by (induction cs arbitrary: env) (auto intro!: reports_bind infer_tree_reports)

text \<open>
  (C20) The type check of a parsed document always returns: it accepts the document or reports a
  static type error, and neither overruns an arena nor recurses without end.
\<close>

theorem check_types_returns:
  assumes "parsed_document layout timers functions comps"
  shows "check_types layout timers functions comps t = Ok () \<or>
     (\<exists>msg. check_types layout timers functions comps t = Err (StaticTypeError msg))"
proof -
  have "reports (check_types layout timers functions comps t)"
    using assms unfolding check_types_def Let_def parsed_document_def
    by (intro reports_bind reports_for infer_bindings_reports)
      (auto simp: list_all_iff intro!: reports_bind reports_for check_action_reports infer_tree_reports)
  then show ?thesis by (cases "check_types layout timers functions comps t") (auto simp: reports_def)
qed

definition concat_arena :: expr_arena where
  "concat_arena = \<lparr>nodes = [ELiteral (VString ''a''), ELiteral (VString ''b''), EBinaryOp 0 Add 1, EFunctionCall 0 0 1],
     args_pool = [2]\<rparr>"

definition length_interner :: string_interner where
  "length_interner = snd (get_or_intern interner_new ''length'')"

theorem check_types_returns_witness:
  "check_types [] [] [] [\<lparr>cb_name = 1, cb_expr = \<lparr>tree_arena = concat_arena, tree_root = 3\<rparr>, cb_depends_on = [], cb_tainted = False\<rparr>]
       length_interner = Ok () \<or>
   (\<exists>msg. check_types [] [] [] [\<lparr>cb_name = 1, cb_expr = \<lparr>tree_arena = concat_arena, tree_root = 3\<rparr>, cb_depends_on = [], cb_tainted = False\<rparr>]
       length_interner = Err (StaticTypeError msg))"
proof -
  have "parsed_tree \<lparr>tree_arena = concat_arena, tree_root = 3\<rparr>"
    by (simp add: parsed_tree_def children_first_def concat_arena_def arena_ok_def node_ok_def expr_children_def
        less_Suc_eq numeral_eq_Suc)
  then show ?thesis
    by (intro check_types_returns) (simp add: parsed_document_def)
qed

text \<open>
  The check refuses working documents: \<open>length("a" + "b")\<close> evaluates to 2, but the sum of two
  strings is inferred as a number, of which \<open>length\<close> cannot be taken.
\<close>

lemma evaluate_third_step:
  "evaluate_fuel 255 ctx e fp ar = enter_eval (evaluate_impl (evaluate_fuel 254 ctx) ctx e fp ar)"
  using evaluate_fuel.simps(2) [of 254 ctx] by simp

lemma concatenation_refused:
  "infer_tree Map.empty length_interner Map.empty \<lparr>tree_arena = concat_arena, tree_root = 3\<rparr>
     = Err (StaticTypeError ''length expects a list or string, got `num`'')"
  "fst (evaluate \<lparr>ctx_functions = Map.empty, ctx_interner = length_interner, ctx_ptr_eq = (\<lambda>_ _. False)\<rparr>
      (EFunctionCall 0 0 1) 0 concat_arena evaluator_default) = Ok (VInt 2)"
proof -
  have name: "resolve length_interner 0 = Some ''length''"
    by (simp add: length_interner_def interner_new_def get_or_intern_def resolve_def)
  show "infer_tree Map.empty length_interner Map.empty \<lparr>tree_arena = concat_arena, tree_root = 3\<rparr>
     = Err (StaticTypeError ''length expects a list or string, got `num`'')"
    by (simp add: infer_tree_def root_expr_def walk_fuel_def concat_arena_def arena_get_def index_or_panic_def numeral_eq_Suc
        infer_call_def is_typed_builtin_def builtin_result_def name arena_args_def infer_literal_def infer_binop_def
        expects_def type_error_def Let_def)
  show "fst (evaluate \<lparr>ctx_functions = Map.empty, ctx_interner = length_interner, ctx_ptr_eq = (\<lambda>_ _. False)\<rparr>
      (EFunctionCall 0 0 1) 0 concat_arena evaluator_default) = Ok (VInt 2)"
    by (simp add: evaluate_step evaluate_third_step enter_eval_def evaluate_impl_def Let_def comput_defs concat_arena_def
        arena_args_def arena_get_def index_or_panic_def eval_call_def resolve_or_def name builtin_length_def eval_binop_def
        apply_binop_def evaluator_default_def evaluator_new_def u64_defs sat_add_def as_i64_def char_count_def
        MAX_EVAL_DEPTH_def is_continuation_def del: evaluate_fuel.simps)
qed

end
