(* ===== verification/Mizu_Parser.thy ===== *)
theory Mizu_Parser
  imports Mizu_Lexer Mizu_Float Mizu_Typecheck
begin

text \<open>
  The precedence parser of expressions (\<^verbatim>\<open>parser/logic/parse/expr.rs\<close>).

  A parser is a computation over the tokens still to come, the symbol table and the arena it
  allocates into. \<^verbatim>\<open>depth\<close> counts up to \<^verbatim>\<open>MAX_PARSE_DEPTH\<close> in the source; the model recurses on
  the levels that are left, so the test of the limit is the base case. The two loops of a level,
  over the arguments of a call and over the infix operators, consume a token per turn and run on
  the number of tokens left. \<^verbatim>\<open>MAX_PARSE_DEPTH\<close> is read from the configuration of the run and is
  the argument \<open>max_depth\<close>.
\<close>

section \<open>The state of the parser\<close>

record parser_state =
  ps_tokens :: "token list"
  ps_interner :: string_interner
  ps_arena :: expr_arena

type_synonym 'a parser = "(parser_state, 'a) comput"

definition next_tok :: "token option parser" where
  "next_tok s = (case ps_tokens s of [] \<Rightarrow> (Ok None, s) | t # ts \<Rightarrow> (Ok (Some t), s\<lparr>ps_tokens := ts\<rparr>))"

definition peek :: "parser_state \<Rightarrow> token option" where
  "peek s = (case ps_tokens s of [] \<Rightarrow> None | t # _ \<Rightarrow> Some t)"

definition peek_at :: "nat \<Rightarrow> parser_state \<Rightarrow> token option" where
  "peek_at offset s = (if offset < length (ps_tokens s) then Some (ps_tokens s ! offset) else None)"

definition allocS :: "expr \<Rightarrow> expr_id parser" where
  "allocS e s = (case alloc (ps_arena s) e of (i, ar) \<Rightarrow> (Ok i, s\<lparr>ps_arena := ar\<rparr>))"

definition internS :: "string \<Rightarrow> symbol parser" where
  "internS name s = (case get_or_intern (ps_interner s) name of (y, t) \<Rightarrow> (Ok y, s\<lparr>ps_interner := t\<rparr>))"

definition push_argsS :: "expr_id list \<Rightarrow> (nat \<times> nat) parser" where
  "push_argsS as s = (case push_args (ps_arena s) as of (r, ar) \<Rightarrow> (r, s\<lparr>ps_arena := ar\<rparr>))"

abbreviation parse_errorS :: "string \<Rightarrow> 'a parser" where
  "parse_errorS msg \<equiv> errS (ParseError msg)"

text \<open>The next token must be \<open>t\<close>; otherwise the error names what came instead.\<close>

definition expect :: "token \<Rightarrow> (token option \<Rightarrow> string) \<Rightarrow> unit parser" where
  "expect t msg = bindS next_tok (\<lambda>got. if got = Some t then okS () else parse_errorS (msg got))"

definition skip_comma :: "unit parser" where
  "skip_comma = bindS (getS peek) (\<lambda>t. if t = Some KComma then bindS next_tok (\<lambda>_. okS ()) else okS ())"

section \<open>Literals\<close>

definition parse_number :: "string \<Rightarrow> mval outcome" where
  "parse_number num_str =
     (if CHR ''.'' \<in> set num_str \<or> CHR ''e'' \<in> set num_str \<or> CHR ''E'' \<in> set num_str
      then (case parse_f64 num_str of
              None \<Rightarrow> Err (ParseError ''Invalid float literal'')
            | Some parsed \<Rightarrow> Ok (VDecimal (round_as_i64 (f64_times parsed (nat DECIMAL_SCALE)))))
      else (case parse_i64 num_str of
              None \<Rightarrow> Err (ParseError ''Invalid int literal'')
            | Some n \<Rightarrow> Ok (VInt n)))"

text \<open>Negation of an \<^verbatim>\<open>i64\<close>: the least one has no negative, and checked builds panic.\<close>

definition negate_i64 :: "int \<Rightarrow> int outcome" where
  "negate_i64 n = (if in_i64 (- n) then Ok (- n) else Fail Panic)"

section \<open>Calls\<close>

text \<open>In what follows \<open>sub min_bp\<close> is \<^verbatim>\<open>parse_expr\<close> one level deeper.\<close>

definition parse_sort_call_args :: "(nat \<Rightarrow> expr parser) \<Rightarrow> expr list parser" where
  "parse_sort_call_args sub =
     bindS (sub 0) (\<lambda>lst.
     bindS skip_comma (\<lambda>_.
     bindS (sub 0) (\<lambda>field.
     bindS skip_comma (\<lambda>_.
     bindS next_tok (\<lambda>direction_tok.
       if direction_tok = Some (KIdent ''asc'') then okS [lst, field, ELiteral (VString ''asc'')]
       else if direction_tok = Some (KIdent ''desc'') then okS [lst, field, ELiteral (VString ''desc'')]
       else parse_errorS (''sort's third argument must be the bare keyword `asc` or `desc` (not a variable or expression), got: ''
              @ debug_next direction_tok))))))"

definition FILTER_OPS :: "string list" where
  "FILTER_OPS = [''eq'', ''ne'', ''lt'', ''le'', ''gt'', ''ge'', ''contains'']"

definition filter_op :: "parser_state \<Rightarrow> string option" where
  "filter_op s =
     (case (peek s, peek_at 1 s) of
        (Some (KIdent w), Some KComma) \<Rightarrow> if w \<in> set FILTER_OPS then Some w else None
      | _ \<Rightarrow> None)"

definition parse_filter_call_args :: "(nat \<Rightarrow> expr parser) \<Rightarrow> expr list parser" where
  "parse_filter_call_args sub =
     bindS (sub 0) (\<lambda>lst.
     bindS skip_comma (\<lambda>_.
     bindS (sub 0) (\<lambda>field.
     bindS skip_comma (\<lambda>_.
     bindS (getS filter_op) (\<lambda>op_keyword.
       case op_keyword of
         Some op \<Rightarrow>
           bindS next_tok (\<lambda>_. bindS next_tok (\<lambda>_. bindS (sub 0) (\<lambda>val.
             okS [lst, field, ELiteral (VString op), val])))
       | None \<Rightarrow> bindS (sub 0) (\<lambda>val. okS [lst, field, ELiteral (VString ''eq''), val]))))))"

text \<open>The comma-separated arguments of any other call; a missing comma is not noticed.\<close>

primrec parse_args :: "nat \<Rightarrow> (nat \<Rightarrow> expr parser) \<Rightarrow> expr list parser" where
  "parse_args 0 sub = failS OutOfFuel"
| "parse_args (Suc n) sub =
     bindS (getS peek) (\<lambda>t.
       if t = Some KRParen \<or> t = None then okS []
       else bindS (sub 0) (\<lambda>arg.
            bindS skip_comma (\<lambda>_.
            bindS (parse_args n sub) (\<lambda>args. okS (arg # args)))))"

definition call_args :: "(nat \<Rightarrow> expr parser) \<Rightarrow> string \<Rightarrow> expr list parser" where
  "call_args sub name =
     (if name = ''sort'' then parse_sort_call_args sub
      else if name = ''filter'' then parse_filter_call_args sub
      else bindS (getS (\<lambda>s. length (ps_tokens s))) (\<lambda>n. parse_args (Suc n) sub))"

fun is_variable :: "expr \<Rightarrow> bool" where
  "is_variable (EVariable _) = True"
| "is_variable _ = False"

definition single_variable :: "expr list \<Rightarrow> bool" where
  "single_variable args \<longleftrightarrow> (case args of [e] \<Rightarrow> is_variable e | _ \<Rightarrow> False)"

definition parse_call :: "(nat \<Rightarrow> expr parser) \<Rightarrow> string \<Rightarrow> expr parser" where
  "parse_call sub name =
     bindS next_tok (\<lambda>_.
     bindS (call_args sub name) (\<lambda>args.
     bindS (expect KRParen (\<lambda>_. ''expected `)` after arguments of call to `'' @ name @ ''`'')) (\<lambda>_.
       if name = ''get_system_time'' \<and> \<not> single_variable args
       then parse_errorS (''get_system_time expects a single bare variable identifier, e.g. get_system_time(my_var) ''
              @ em_dash @ '' not a computed expression'')
       else bindS (mapS allocS args) (\<lambda>arg_ids.
            bindS (push_argsS arg_ids) (\<lambda>(args_start, args_len).
            bindS (internS name) (\<lambda>y. okS (EFunctionCall y args_start args_len)))))))"

section \<open>Prefixes\<close>

definition parse_if :: "(nat \<Rightarrow> expr parser) \<Rightarrow> expr parser" where
  "parse_if sub =
     bindS (bindS (sub 0) allocS) (\<lambda>condition.
     bindS (expect (KIdent ''then'') (\<lambda>other. ''expected `then` after `if` condition, got: '' @ debug_next other)) (\<lambda>_.
     bindS (bindS (sub 0) allocS) (\<lambda>then_expr.
     bindS (expect (KIdent ''else'') (\<lambda>other. ''expected `else` branch in `if` expression, got: '' @ debug_next other)) (\<lambda>_.
     bindS (bindS (sub 0) allocS) (\<lambda>else_expr. okS (EIfElse condition then_expr else_expr))))))"

definition parse_ident :: "(nat \<Rightarrow> expr parser) \<Rightarrow> string \<Rightarrow> expr parser" where
  "parse_ident sub name =
     bindS (getS peek) (\<lambda>t.
       if t = Some KLParen then parse_call sub name
       else bindS (internS name) (\<lambda>y. okS (EVariable y)))"

definition negate_operand :: "expr \<Rightarrow> expr parser" where
  "negate_operand operand =
     (case operand of
        ELiteral (VInt n) \<Rightarrow> bindS (liftS (negate_i64 n)) (\<lambda>m. okS (ELiteral (VInt m)))
      | ELiteral (VDecimal n) \<Rightarrow> bindS (liftS (negate_i64 n)) (\<lambda>m. okS (ELiteral (VDecimal m)))
      | _ \<Rightarrow> bindS (allocS (ELiteral (VInt 0))) (\<lambda>left.
             bindS (allocS operand) (\<lambda>right. okS (EBinaryOp left Sub right))))"

fun parse_prefix :: "(nat \<Rightarrow> expr parser) \<Rightarrow> token option \<Rightarrow> expr parser" where
  "parse_prefix sub (Some (KNum num_str)) = bindS (liftS (parse_number num_str)) (\<lambda>v. okS (ELiteral v))"
| "parse_prefix sub (Some (KBool b)) = okS (ELiteral (VBool b))"
| "parse_prefix sub (Some (KStr s)) = okS (ELiteral (VString s))"
| "parse_prefix sub (Some (KIdent name)) = parse_ident sub name"
| "parse_prefix sub (Some KMinus) = bindS (sub 30) negate_operand"
| "parse_prefix sub (Some KBang) = bindS (bindS (sub 30) allocS) (\<lambda>operand. okS (ENot operand))"
| "parse_prefix sub (Some KLParen) =
     bindS (sub 0) (\<lambda>inner.
     bindS (expect KRParen (\<lambda>_. ''expected `)` to close parenthesised expression'')) (\<lambda>_. okS inner))"
| "parse_prefix sub other = parse_errorS (''unexpected token in expression: '' @ debug_next other)"

section \<open>Infix operators\<close>

fun infix_op :: "token \<Rightarrow> binop option" where
  "infix_op KPlus = Some Add"
| "infix_op KMinus = Some Sub"
| "infix_op KStar = Some Mul"
| "infix_op KSlash = Some Div"
| "infix_op KEqEq = Some Eq"
| "infix_op KBangEq = Some Ne"
| "infix_op KLt = Some Lt"
| "infix_op KGt = Some Gt"
| "infix_op KLtEq = Some Le"
| "infix_op KGtEq = Some Ge"
| "infix_op KAndAnd = Some And"
| "infix_op KOrOr = Some Or"
| "infix_op _ = None"

fun infix_binding_power :: "binop \<Rightarrow> nat \<times> nat" where
  "infix_binding_power Or = (1, 2)"
| "infix_binding_power And = (3, 4)"
| "infix_binding_power Eq = (5, 6)"
| "infix_binding_power Ne = (5, 6)"
| "infix_binding_power Lt = (7, 8)"
| "infix_binding_power Gt = (7, 8)"
| "infix_binding_power Le = (7, 8)"
| "infix_binding_power Ge = (7, 8)"
| "infix_binding_power Add = (10, 11)"
| "infix_binding_power Sub = (10, 11)"
| "infix_binding_power Mul = (20, 21)"
| "infix_binding_power Div = (20, 21)"

text \<open>\<^verbatim>\<open>base.field\<close>, after the dot was seen.\<close>

definition parse_field :: "expr \<Rightarrow> expr parser" where
  "parse_field lhs =
     bindS next_tok (\<lambda>_.
     bindS next_tok (\<lambda>t. case t of
       Some (KIdent name) \<Rightarrow>
         bindS (internS name) (\<lambda>field.
         bindS (allocS lhs) (\<lambda>base.
         bindS (getS (\<lambda>s. case resolve (ps_interner s) field of Some n \<Rightarrow> n | None \<Rightarrow> '''')) (\<lambda>n.
           okS (EFieldAccess base field (hash_field n)))))
     | other \<Rightarrow> parse_errorS (''expected field name after `.`, got: '' @ debug_next other)))"

definition parse_ternary :: "(nat \<Rightarrow> expr parser) \<Rightarrow> expr \<Rightarrow> expr parser" where
  "parse_ternary sub lhs =
     bindS next_tok (\<lambda>_.
     bindS (sub 0) (\<lambda>then_expr.
     bindS (expect KColon (\<lambda>other. ''expected `:` after `?` in ternary expression, got: '' @ debug_next other)) (\<lambda>_.
     bindS (sub 0) (\<lambda>else_expr.
     bindS (allocS lhs) (\<lambda>condition.
     bindS (allocS then_expr) (\<lambda>then_id.
     bindS (allocS else_expr) (\<lambda>else_id. okS (EIfElse condition then_id else_id))))))))"

definition parse_binary :: "(nat \<Rightarrow> expr parser) \<Rightarrow> expr \<Rightarrow> binop \<Rightarrow> expr parser" where
  "parse_binary sub lhs op =
     bindS next_tok (\<lambda>_.
     bindS (sub (snd (infix_binding_power op))) (\<lambda>rhs.
     bindS (allocS lhs) (\<lambda>left.
     bindS (allocS rhs) (\<lambda>right. okS (EBinaryOp left op right)))))"

text \<open>One turn of the loop after the left operand: the parser of the longer operand, or \<open>None\<close> to stop.\<close>

definition infix_turn :: "(nat \<Rightarrow> expr parser) \<Rightarrow> nat \<Rightarrow> expr \<Rightarrow> token option \<Rightarrow> expr parser option" where
  "infix_turn sub min_bp lhs t =
     (case t of
        None \<Rightarrow> None
      | Some KDot \<Rightarrow> if 50 < min_bp then None else Some (parse_field lhs)
      | Some KQuestion \<Rightarrow> if 0 < min_bp then None else Some (parse_ternary sub lhs)
      | Some k \<Rightarrow>
          (case infix_op k of
             None \<Rightarrow> None
           | Some op \<Rightarrow> if fst (infix_binding_power op) < min_bp then None else Some (parse_binary sub lhs op)))"

primrec infix_loop :: "nat \<Rightarrow> (nat \<Rightarrow> expr parser) \<Rightarrow> nat \<Rightarrow> expr \<Rightarrow> expr parser" where
  "infix_loop 0 sub min_bp lhs = failS OutOfFuel"
| "infix_loop (Suc n) sub min_bp lhs =
     bindS (getS peek) (\<lambda>t.
       case infix_turn sub min_bp lhs t of
         None \<Rightarrow> okS lhs
       | Some p \<Rightarrow> bindS p (infix_loop n sub min_bp))"

section \<open>Expressions\<close>

primrec parse_expr :: "nat \<Rightarrow> nat \<Rightarrow> nat \<Rightarrow> expr parser" where
  "parse_expr max_depth 0 min_bp =
     parse_errorS (''expression nesting too deep (max '' @ show_nat max_depth @ '' levels)'')"
| "parse_expr max_depth (Suc left) min_bp =
     bindS next_tok (\<lambda>t.
       if t = Some (KIdent ''if'') then parse_if (parse_expr max_depth left)
       else bindS (parse_prefix (parse_expr max_depth left) t) (\<lambda>lhs.
            bindS (getS (\<lambda>s. length (ps_tokens s))) (\<lambda>n.
              infix_loop (Suc n) (parse_expr max_depth left) min_bp lhs)))"

definition parse_expr_tree :: "nat \<Rightarrow> token list \<Rightarrow> string_interner \<Rightarrow> (expr_tree \<times> token list) outcome \<times> string_interner" where
  "parse_expr_tree max_depth ts t =
     (case parse_expr max_depth (Suc max_depth) 0 \<lparr>ps_tokens = ts, ps_interner = t, ps_arena = arena_new\<rparr> of
        (Fail f, s) \<Rightarrow> (Fail f, ps_interner s)
      | (Ok e, s) \<Rightarrow>
          (case alloc (ps_arena s) e of (i, ar) \<Rightarrow>
             (Ok (\<lparr>tree_arena = ar, tree_root = i\<rparr>, ps_tokens s), ps_interner s)))"

definition parse_expr_standalone :: "nat \<Rightarrow> string \<Rightarrow> string_interner \<Rightarrow> expr_tree outcome \<times> string_interner" where
  "parse_expr_standalone max_depth src t =
     (case lex src of
        Fail f \<Rightarrow> (Fail f, t)
      | Ok toks \<Rightarrow>
          (case parse_expr_tree max_depth toks t of
             (Fail f, t') \<Rightarrow> (Fail f, t')
           | (Ok (tree, rest), t') \<Rightarrow> (bindO (assert_cursor_empty rest []) (\<lambda>_. Ok tree), t')))"

end
