(* ===== verification/Mizu_Parser_Props.thy ===== *)
theory Mizu_Parser_Props
  imports Mizu_Parser
begin

text \<open>
  What the expression parser promises. Every level takes at least one token and leaves an arena
  whose nodes come after their children, so the trees it builds are the well-formed ones the
  evaluator and the static checks assume. The proofs are Hoare triples over the assertion
  \<open>holds\<close>, which carries the expressions and node numbers a parser still has in hand together
  with two credits: \<open>c\<close> counts the tokens taken, and \<open>a\<close> the nodes and argument slots the
  tokens taken pay for, two a token. The locale \<open>sub_parser\<close> states what a level assumes of the
  level below it.
\<close>

section \<open>Arenas that grow\<close>

definition good_arena :: "expr_arena \<Rightarrow> bool" where
  "good_arena ar \<longleftrightarrow> arena_wf ar \<and> children_first ar"

definition node_fits :: "expr_arena \<Rightarrow> expr \<Rightarrow> bool" where
  "node_fits ar e \<longleftrightarrow> expr_wf ar e"

definition extends :: "expr_arena \<Rightarrow> expr_arena \<Rightarrow> bool" where
  "extends ar ar' \<longleftrightarrow> prefix (nodes ar) (nodes ar') \<and> prefix (args_pool ar) (args_pool ar')"

lemma extends_refl [simp]: "extends ar ar"
  by (simp add: extends_def)

lemma extends_trans: "extends a b \<Longrightarrow> extends b c \<Longrightarrow> extends a c"
  by (auto simp: extends_def)

lemma extends_length: "extends ar ar' \<Longrightarrow> length (nodes ar) \<le> length (nodes ar') \<and> length (args_pool ar) \<le> length (args_pool ar')"
  by (auto simp: extends_def prefix_length_le)

lemma node_fits_mono: "node_fits ar e \<Longrightarrow> extends ar ar' \<Longrightarrow> node_fits ar' e"
  using extends_length [of ar ar']
  by (cases e) (auto simp: node_fits_def expr_wf_def node_ok_def)

lemma alloc_extends: "alloc ar e = (i, ar') \<Longrightarrow> extends ar ar'"
  by (auto simp: alloc_def extends_def)

lemma push_args_extends: "push_args ar as = (r, ar') \<Longrightarrow> extends ar ar'"
  by (auto simp: push_args_def extends_def split: if_splits)

lemma alloc_id: "length (nodes ar) < 2 ^ 32 \<Longrightarrow> alloc ar e = (i, ar') \<Longrightarrow> i = length (nodes ar) \<and> nodes ar' = nodes ar @ [e]
    \<and> args_pool ar' = args_pool ar"
  by (auto simp: alloc_def)

lemma expr_children_below: "good_arena ar \<Longrightarrow> node_fits ar e \<Longrightarrow> j \<in> set (expr_children ar e) \<Longrightarrow> j < length (nodes ar)"
  by (cases e) (auto simp: good_arena_def node_fits_def expr_wf_def arena_wf_def arena_ok_def node_ok_def
      expr_children_def list_all_iff dest!: in_set_takeD in_set_dropD)

lemma expr_children_stable:
  assumes "node_fits ar e" "extends ar ar'"
  shows "expr_children ar' e = expr_children ar e"
  using assms by (cases e) (auto simp: node_fits_def expr_wf_def node_ok_def expr_children_def extends_def prefix_def)

lemma good_arena_node: "good_arena ar \<Longrightarrow> k < length (nodes ar) \<Longrightarrow> node_fits ar (nodes ar ! k)"
  by (auto simp: good_arena_def arena_wf_def arena_ok_def node_fits_def expr_wf_def list_all_length)

lemma good_alloc:
  assumes g: "good_arena ar" and f: "node_fits ar e" and l: "length (nodes ar) < 2 ^ 32" and a: "alloc ar e = (i, ar')"
  shows "good_arena ar'" "i < length (nodes ar')"
proof -
  have n: "nodes ar' = nodes ar @ [e]" "args_pool ar' = args_pool ar" "i = length (nodes ar)"
    using alloc_id [OF l a] by simp_all
  have x: "extends ar ar'" using alloc_extends [OF a] .
  have fs: "node_fits ar (nodes ar' ! k)" if "k < length (nodes ar')" for k
    using that f good_arena_node [OF g] by (auto simp: n nth_append)
  have "arena_wf ar'"
    using fs node_fits_mono [OF _ x] g
    by (auto simp: arena_wf_def arena_ok_def list_all_length node_fits_def expr_wf_def n good_arena_def less_Suc_eq)
  moreover have "j < k" if k: "k < length (nodes ar')" and j: "j \<in> set (expr_children ar' (nodes ar' ! k))" for j k
  proof (cases "k < length (nodes ar)")
    case True
    then have "j \<in> set (expr_children ar (nodes ar ! k))"
      using j expr_children_stable [OF fs [OF k] x] by (simp add: n nth_append)
    then show ?thesis using g True by (auto simp: good_arena_def children_first_def)
  next
    case False
    then have "k = length (nodes ar)" using k by (simp add: n)
    then show ?thesis
      using j expr_children_stable [OF f x] expr_children_below [OF g f] by (simp add: n)
  qed
  ultimately show "good_arena ar'" by (simp add: good_arena_def children_first_def)
  show "i < length (nodes ar')" by (simp add: n)
qed

lemma good_push:
  assumes g: "good_arena ar" and i: "list_all (\<lambda>i. i < length (nodes ar)) is" and p: "push_args ar is = (Ok (s, l), ar')"
  shows "good_arena ar'" "s + l \<le> length (args_pool ar')" "nodes ar' = nodes ar"
    "length (args_pool ar') = length (args_pool ar) + length is"
proof -
  have n: "nodes ar' = nodes ar" "args_pool ar' = args_pool ar @ is" "s = length (args_pool ar)" "l = length is"
    using p by (auto simp: push_args_def split: if_splits)
  have x: "extends ar ar'" using push_args_extends [OF p] .
  have "arena_wf ar'"
    using g i node_fits_mono [OF good_arena_node [OF g] x]
    by (auto simp: good_arena_def arena_wf_def arena_ok_def n list_all_length node_fits_def expr_wf_def nth_append)
  then show "good_arena ar'"
    using g expr_children_stable [OF good_arena_node [OF g] x] by (auto simp: good_arena_def children_first_def n)
qed (use p in \<open>auto simp: push_args_def split: if_splits\<close>)

section \<open>The assertion\<close>

fun negatable :: "expr \<Rightarrow> bool" where
  "negatable (ELiteral (VInt n)) = in_i64 (- n)"
| "negatable (ELiteral (VDecimal n)) = in_i64 (- n)"
| "negatable _ = True"

text \<open>No number among the tokens is the one without a negative.\<close>

definition safe_token :: "token \<Rightarrow> bool" where
  "safe_token t \<longleftrightarrow> (\<forall>s v. t = KNum s \<longrightarrow> parse_number s = Ok v \<longrightarrow> negatable (ELiteral v))"

definition spent :: "parser_state \<Rightarrow> nat" where
  "spent s = length (nodes (ps_arena s)) + length (args_pool (ps_arena s)) + 2 * length (ps_tokens s)"

record limits =
  lim_safe :: bool
  lim_charge :: nat
  lim_tokens :: nat

definition holds :: "limits \<Rightarrow> nat \<Rightarrow> nat \<Rightarrow> expr list \<Rightarrow> expr_id list \<Rightarrow> parser_state \<Rightarrow> bool" where
  "holds L a c es is s \<longleftrightarrow>
     good_arena (ps_arena s) \<and> lim_charge L < 2 ^ 32 \<and> spent s + a \<le> lim_charge L
     \<and> length (ps_tokens s) + c \<le> lim_tokens L
     \<and> list_all (node_fits (ps_arena s)) es \<and> list_all (\<lambda>i. i < length (nodes (ps_arena s))) is
     \<and> (lim_safe L \<longrightarrow> list_all safe_token (ps_tokens s) \<and> list_all negatable es)"

text \<open>A failure is an error of the parser; only the negation of the least integer panics.\<close>

definition parse_fault :: "limits \<Rightarrow> fault \<Rightarrow> parser_state \<Rightarrow> bool" where
  "parse_fault L f s \<longleftrightarrow> (\<exists>msg. f = Error (ParseError msg)) \<or> (f = Panic \<and> \<not> lim_safe L)"

abbreviation triple ::
  "limits \<Rightarrow> (parser_state \<Rightarrow> bool) \<Rightarrow> 'a parser \<Rightarrow> ('a \<Rightarrow> parser_state \<Rightarrow> bool) \<Rightarrow> bool" where
  "triple L P m Q \<equiv> valid P m Q (parse_fault L)"

lemma holds_weaken:
  "holds L a c es is s \<Longrightarrow> a' \<le> a \<Longrightarrow> c' \<le> c \<Longrightarrow> set es' \<subseteq> set es \<Longrightarrow> set is' \<subseteq> set is \<Longrightarrow> holds L a' c' es' is' s"
  by (auto simp: holds_def list_all_iff)

declare add_2_eq_Suc [simp del] add_2_eq_Suc' [simp del]

named_theorems parse_rules "rules for the steps of a parser"

lemma triple_ok: "(\<And>s. P s \<Longrightarrow> Q v s) \<Longrightarrow> triple L P (okS v) Q"
  by (rule valid_okS)

lemma triple_error [parse_rules]: "triple L P (parse_errorS msg) Q"
  by (rule valid_failS) (auto simp: parse_fault_def)

lemma holds_next:
  assumes "holds L a c es is s" "next_tok s = (Ok t, s')"
  shows "case t of None \<Rightarrow> holds L a c es is s' | Some k \<Rightarrow> holds L (a + 2) (c + 1) es is s' \<and> (lim_safe L \<longrightarrow> safe_token k)"
  using assms by (auto simp: next_tok_def holds_def spent_def split: list.splits)

lemma bind_next [parse_rules]:
  assumes "triple L (holds L a c es is) (f None) Q"
    and "\<And>k. (lim_safe L \<longrightarrow> safe_token k) \<Longrightarrow> triple L (holds L (a + 2) (c + 1) es is) (f (Some k)) Q"
  shows "triple L (holds L a c es is) (bindS next_tok f) Q"
proof (rule valid_bindS)
  show "triple L (holds L a c es is) next_tok
      (\<lambda>t s. case t of None \<Rightarrow> holds L a c es is s | Some k \<Rightarrow> holds L (a + 2) (c + 1) es is s \<and> (lim_safe L \<longrightarrow> safe_token k))"
    by (rule validI) (use holds_next in \<open>auto simp: next_tok_def split: list.splits\<close>)
  show "triple L (\<lambda>s. case t of None \<Rightarrow> holds L a c es is s
      | Some k \<Rightarrow> holds L (a + 2) (c + 1) es is s \<and> (lim_safe L \<longrightarrow> safe_token k)) (f t) Q" for t
    using assms(1) assms(2) [of "the t"] by (cases t) (auto simp: valid_def split: prod.splits outcome.splits)
qed

lemma bind_expect [parse_rules]:
  assumes "triple L (holds L (a + 2) (c + 1) es is) (f ()) Q"
  shows "triple L (holds L a c es is) (bindS (expect t msg) f) Q"
proof (rule valid_bindS)
  show "triple L (holds L a c es is) (expect t msg) (\<lambda>_. holds L (a + 2) (c + 1) es is)"
    unfolding expect_def by (intro parse_rules valid_if valid_okS) auto
qed (use assms in simp)

lemma bind_comma [parse_rules]:
  assumes "triple L (holds L a c es is) (f ()) Q"
  shows "triple L (holds L a c es is) (bindS skip_comma f) Q"
proof (rule valid_bindS)
  have r: "r = Ok () \<and> (s' = s \<or> next_tok s = (Ok (Some KComma), s'))" if "skip_comma s = (r, s')" for r s s'
    using that by (auto simp: skip_comma_def comput_defs peek_def next_tok_def split: list.splits if_splits)
  show "triple L (holds L a c es is) skip_comma (\<lambda>_. holds L a c es is)"
    by (rule validI) (use r holds_next in \<open>fastforce intro: holds_weaken\<close>)+
qed (use assms in simp)

lemma bind_get [parse_rules]:
  assumes "\<And>v. triple L P (f v) Q"
  shows "triple L P (bindS (getS g) f) Q"
  by (rule valid_bindS [OF valid_getS [where Q = "\<lambda>_. P"]]) (use assms in auto)

lemma bind_alloc [parse_rules]:
  assumes "\<And>i. triple L (holds L (a - 1) c es (i # is)) (f i) Q" "e \<in> set es" "0 < a"
  shows "triple L (holds L a c es is) (bindS (allocS e) f) Q"
proof (rule valid_bindS [OF _ assms(1)], rule validI)
  fix s i s' assume h: "holds L a c es is s" and m: "allocS e s = (Ok i, s')"
  then obtain ar where a: "alloc (ps_arena s) e = (i, ar)" and s': "s' = s\<lparr>ps_arena := ar\<rparr>"
    by (auto simp: allocS_def split: prod.splits)
  have g: "good_arena (ps_arena s)" and f: "node_fits (ps_arena s) e" and l: "length (nodes (ps_arena s)) < 2 ^ 32"
    using h assms(2) by (auto simp: holds_def list_all_iff spent_def)
  have "good_arena ar" "i < length (nodes ar)" "extends (ps_arena s) ar"
    "length (nodes ar) = Suc (length (nodes (ps_arena s)))" "args_pool ar = args_pool (ps_arena s)"
    using good_alloc [OF g f l a] alloc_extends [OF a] alloc_id [OF l a] by auto
  then show "holds L (a - 1) c es (i # is) s'"
    using h assms(3) by (auto simp: holds_def s' spent_def list_all_iff intro: node_fits_mono)
qed (auto simp: allocS_def split: prod.splits)

lemma bind_intern [parse_rules]:
  assumes "\<And>y. triple L (holds L a c es is) (f y) Q"
  shows "triple L (holds L a c es is) (bindS (internS name) f) Q"
  by (rule valid_bindS [OF _ assms])
    (auto simp: valid_def internS_def holds_def spent_def split: prod.splits)

lemma triple_return:
  assumes "\<And>s. holds L a c es is s \<Longrightarrow> Q v s"
  shows "triple L (holds L a c es is) (okS v) Q"
  by (rule valid_okS) (rule assms)

lemma node_fits_simps [simp]:
  "node_fits ar (ELiteral v) = value_ok v" "node_fits ar (EVariable y)"
  "node_fits ar (ENot i) = (i < length (nodes ar))"
  "node_fits ar (EBinaryOp l op r) = (l < length (nodes ar) \<and> r < length (nodes ar))"
  "node_fits ar (EIfElse p q r) = (p < length (nodes ar) \<and> q < length (nodes ar) \<and> r < length (nodes ar))"
  "node_fits ar (EFieldAccess b y h) = (b < length (nodes ar))"
  "node_fits ar (EFunctionCall y st len) = (st + len \<le> length (args_pool ar))"
  by (auto simp: node_fits_def expr_wf_def node_ok_def)

text \<open>The arguments of a call: expressions in hand, and keywords as string literals.\<close>

lemma return_args:
  assumes "a' + 2 * length args \<le> a" "c' \<le> c" "set es' \<subseteq> set es"
    and "\<forall>e \<in> set args. e \<in> set es \<or> (\<exists>str. e = ELiteral (VString str))"
  shows "triple L (holds L a c es is) (okS args) (\<lambda>args. holds L (a' + 2 * length args) c' (args @ es') is)"
  by (rule valid_okS) (use assms in \<open>fastforce simp: holds_def list_all_iff\<close>)

lemma parse_number_ok: "parse_number s = Ok v \<Longrightarrow> value_ok v"
proof -
  have c: "in_i64 (clamp_i64 x)" for x
    by (auto simp: clamp_i64_def i64_defs max_def min_def)
  have r: "in_i64 (round_as_i64 x)" for x
    by (cases x) (use c in \<open>auto simp: i64_defs\<close>)
  show "parse_number s = Ok v \<Longrightarrow> value_ok v"
    by (auto simp: parse_number_def r parse_i64_def Let_def split: if_splits option.splits)
qed

lemma parse_number_fault: "parse_number s = Fail f \<Longrightarrow> \<exists>msg. f = Error (ParseError msg)"
  by (auto simp: parse_number_def split: if_splits option.splits)

lemma bind_peek:
  assumes "\<And>t. triple L (\<lambda>s. holds L a c es is s \<and> peek s = t) (f t) Q"
  shows "triple L (holds L a c es is) (bindS (getS peek) f) Q"
  using assms by (simp add: valid_def bindS_def getS_def)

lemma bind_next_seen:
  assumes "triple L (holds L (a + 2) (c + 1) es is) (f (Some k)) Q"
  shows "triple L (\<lambda>s. holds L a c es is s \<and> peek s = Some k) (bindS next_tok f) Q"
proof (rule valid_bindS)
  show "triple L (\<lambda>s. holds L a c es is s \<and> peek s = Some k) next_tok
      (\<lambda>t s. t = Some k \<and> holds L (a + 2) (c + 1) es is s)"
  proof (rule validI)
    fix s t s' assume h: "holds L a c es is s \<and> peek s = Some k" and n: "next_tok s = (Ok t, s')"
    then have "t = Some k" by (auto simp: peek_def next_tok_def split: list.splits)
    then show "t = Some k \<and> holds L (a + 2) (c + 1) es is s'" using holds_next [OF _ n] h by fastforce
  qed (auto simp: next_tok_def split: list.splits)
qed (use assms in \<open>auto simp: valid_def split: prod.splits outcome.splits\<close>)

lemma triple_forget: "triple L (holds L a c es is) m Q \<Longrightarrow> triple L (\<lambda>s. holds L a c es is s \<and> peek s = t) m Q"
  by (erule valid_pre) auto

lemma map_alloc:
  "triple L (holds L (a + length args) c (args @ es) is) (mapS allocS args)
     (\<lambda>ids s. length ids = length args \<and> holds L a c es (ids @ is) s)"
proof (induction args arbitrary: "is")
  case Nil
  then show ?case by (auto simp: valid_def okS_def)
next
  case (Cons e args)
  have tl: "triple L (holds L (a + length args) c (e # args @ es) (i # is)) (mapS allocS args)
      (\<lambda>ids s. length ids = length args \<and> holds L a c es (ids @ i # is) s)" for i
    by (rule valid_pre [OF Cons.IH]) (auto elim: holds_weaken)
  have "triple L (holds L (a + length args) c (e # args @ es) (i # is)) (bindS (mapS allocS args) (\<lambda>ys. okS (i # ys)))
      (\<lambda>ids s. length ids = length (e # args) \<and> holds L a c es (ids @ is) s)" for i
    by (rule valid_bindS [OF tl], intro valid_okS) (auto elim: holds_weaken)
  then show ?case
    by (simp, intro bind_alloc) auto
qed

lemma push_triple:
  "triple L (holds L (a + length ids) c es (ids @ is)) (push_argsS ids)
     (\<lambda>(st, len). holds L a c (EFunctionCall y st len # es) is)"
proof (rule validI; clarify?)
  fix s st len s' assume h: "holds L (a + length ids) c es (ids @ is) s" and m: "push_argsS ids s = (Ok (st, len), s')"
  then obtain ar where p: "push_args (ps_arena s) ids = (Ok (st, len), ar)" and s': "s' = s\<lparr>ps_arena := ar\<rparr>"
    by (auto simp: push_argsS_def split: prod.splits)
  have "good_arena (ps_arena s)" "list_all (\<lambda>i. i < length (nodes (ps_arena s))) ids"
    using h by (auto simp: holds_def)
  from good_push [OF this p] push_args_extends [OF p]
  show "holds L a c (EFunctionCall y st len # es) is s'"
    using h by (auto simp: holds_def s' spent_def list_all_iff intro: node_fits_mono)
next
  fix s f s' assume "push_argsS ids s = (Fail f, s')"
  then show "parse_fault L f s'"
    by (auto simp: push_argsS_def push_args_def parse_fault_def split: prod.splits if_splits)
qed

section \<open>One level\<close>

locale sub_parser =
  fixes sub :: "nat \<Rightarrow> expr parser"
  assumes sub: "triple L (holds L a c es is) (sub bp) (\<lambda>e. holds L (a + 2) (c + 1) (e # es) is)"
begin

lemma bind_sub [parse_rules]:
  assumes "\<And>e. triple L (holds L (a + 2) (c + 1) (e # es) is) (f e) Q"
  shows "triple L (holds L a c es is) (bindS (sub bp) f) Q"
  by (rule valid_bindS [OF sub assms])

lemma bind_sub_alloc [parse_rules]:
  assumes "\<And>i. triple L (holds L (a + 1) (c + 1) es (i # is)) (f i) Q"
  shows "triple L (holds L a c es is) (bindS (bindS (sub bp) allocS) f) Q"
proof (rule valid_bindS [OF _ assms])
  have "bindS (sub bp) allocS = bindS (sub bp) (\<lambda>e. bindS (allocS e) okS)"
    by (auto simp: comput_defs allocS_def split: prod.splits outcome.splits intro!: ext)
  then show "triple L (holds L a c es is) (bindS (sub bp) allocS) (\<lambda>i. holds L (a + 1) (c + 1) es (i # is))"
    by simp (intro parse_rules triple_return; auto elim: holds_weaken)
qed

lemma sort_args:
  "triple L (holds L a c es is) (parse_sort_call_args sub) (\<lambda>args. holds L (a + 2 * length args) c (args @ es) is)"
  unfolding parse_sort_call_args_def
  by (intro parse_rules valid_if return_args) auto

lemma filter_args:
  "triple L (holds L (a + 2) c es is) (parse_filter_call_args sub) (\<lambda>args. holds L (a + 2 * length args) c (args @ es) is)"
  unfolding parse_filter_call_args_def
  by (intro parse_rules valid_option return_args) auto

lemma args_loop:
  assumes "lim_tokens L < n + c"
  shows "triple L (holds L a c es is) (parse_args n sub) (\<lambda>args. holds L (a + 2 * length args) c (args @ es) is)"
  using assms
proof (induction n arbitrary: a c es)
  case 0
  then show ?case by (auto simp: valid_def holds_def)
next
  case (Suc n)
  have "triple L (holds L (a + 2) (c + 1) (e # es) is) (parse_args n sub)
      (\<lambda>args. holds L (a + 2 + 2 * length args) (c + 1) (args @ e # es) is)" for e
    using Suc.IH [of "c + 1" "a + 2" "e # es"] Suc.prems by simp
  then have "triple L (holds L (a + 2) (c + 1) (e # es) is) (bindS (parse_args n sub) (\<lambda>args. okS (e # args)))
      (\<lambda>args. holds L (a + 2 * length args) c (args @ es) is)" for e
    by (rule valid_bindS, intro valid_okS) (auto elim: holds_weaken)
  then show ?case
    unfolding parse_args.simps by (intro parse_rules valid_if return_args [where a' = a]) auto
qed

text \<open>The fuel of a loop is the number of tokens left when it starts.\<close>

lemma bind_fuel:
  assumes "\<And>L' n. lim_safe L' = lim_safe L \<Longrightarrow> lim_tokens L' \<le> n + c \<Longrightarrow>
      triple L' (holds L' a c es is) (f n) (\<lambda>v. holds L' (a' v) c (es' v) is)"
  shows "triple L (holds L a c es is) (bindS (getS (\<lambda>s. length (ps_tokens s))) f) (\<lambda>v. holds L (a' v) c (es' v) is)"
proof (rule valid_by_state)
  fix s assume h: "holds L a c es is s"
  let ?L = "L\<lparr>lim_tokens := length (ps_tokens s) + c\<rparr>"
  have "holds ?L a c es is s" using h by (simp add: holds_def)
  then have "case f (length (ps_tokens s)) s of
      (Ok v, s') \<Rightarrow> holds ?L (a' v) c (es' v) is s' | (Fail e, s') \<Rightarrow> parse_fault ?L e s'"
    using assms [of ?L "length (ps_tokens s)"] by (simp add: valid_def)
  moreover have "holds L a1 c es1 is s'" if "holds ?L a1 c es1 is s'" for a1 es1 s'
    using that h by (auto simp: holds_def)
  ultimately show "triple L (\<lambda>t. t = s) (bindS (getS (\<lambda>s. length (ps_tokens s))) f) (\<lambda>v. holds L (a' v) c (es' v) is)"
    by (auto simp: valid_def bindS_def getS_def parse_fault_def split: prod.splits outcome.splits)
qed

lemma call_args_ok:
  "triple L (holds L (a + 2) c es is) (call_args sub name) (\<lambda>args. holds L (a + 2 * length args) c (args @ es) is)"
proof -
  have "triple L (holds L (a + 2) c es is) (parse_sort_call_args sub) (\<lambda>args. holds L (a + 2 * length args) c (args @ es) is)"
    by (rule valid_weaken [OF sort_args [of L "a + 2"]]) (auto elim: holds_weaken)
  moreover have "triple L (holds L (a + 2) c es is) (bindS (getS (\<lambda>s. length (ps_tokens s))) (\<lambda>n. parse_args (Suc n) sub))
      (\<lambda>args. holds L (a + 2 * length args) c (args @ es) is)"
    by (rule bind_fuel, rule valid_weaken [OF args_loop [where a = "a + 2"]]) (auto elim: holds_weaken)
  ultimately show ?thesis
    unfolding call_args_def by (intro valid_if filter_args)
qed

lemma call_ok:
  "triple L (\<lambda>s. holds L a c es is s \<and> peek s = Some KLParen) (parse_call sub name) (\<lambda>e. holds L a c (e # es) is)"
proof -
  have push: "triple L (holds L (a + length ids) c es (ids @ is))
      (bindS (push_argsS ids) (\<lambda>(st, len). bindS (internS name) (\<lambda>y. okS (EFunctionCall y st len))))
      (\<lambda>e. holds L a c (e # es) is)" for ids
    by (rule valid_bindS [OF push_triple [where y = 0]]) (auto intro!: parse_rules triple_return simp: holds_def split: prod.splits)
  have ids: "triple L (\<lambda>s. length ids = k \<and> holds L (a + k) c es (ids @ is) s)
      (bindS (push_argsS ids) (\<lambda>(st, len). bindS (internS name) (\<lambda>y. okS (EFunctionCall y st len))))
      (\<lambda>e. holds L a c (e # es) is)" for ids k
    by (rule valid_pre [OF push]) auto
  have args: "triple L (holds L (a + 2 * length args + 2) (c + 1 + 1) (args @ es) is)
      (bindS (mapS allocS args) (\<lambda>ids. bindS (push_argsS ids) (\<lambda>(st, len). bindS (internS name) (\<lambda>y. okS (EFunctionCall y st len)))))
      (\<lambda>e. holds L a c (e # es) is)" for args
    by (rule valid_pre [OF valid_bindS [OF map_alloc ids]]) (auto elim: holds_weaken)
  have "triple L (holds L (a + 2 * length args) (c + 1) (args @ es) is)
     (bindS (expect KRParen msg) (\<lambda>_.
       if name = ''get_system_time'' \<and> \<not> single_variable args then parse_errorS msg'
       else bindS (mapS allocS args) (\<lambda>ids. bindS (push_argsS ids) (\<lambda>(st, len). bindS (internS name) (\<lambda>y. okS (EFunctionCall y st len))))))
      (\<lambda>e. holds L a c (e # es) is)" for args msg msg'
    by (intro parse_rules valid_if args)
  from valid_bindS [OF call_args_ok this]
  show ?thesis
    unfolding parse_call_def by (intro bind_next_seen)
qed

lemma if_ok: "triple L (holds L a c es is) (parse_if sub) (\<lambda>e. holds L (a + 2) c (e # es) is)"
  unfolding parse_if_def
  by (intro parse_rules triple_return) (auto simp: holds_def)

lemma ident_ok: "triple L (holds L a c es is) (parse_ident sub name) (\<lambda>e. holds L a c (e # es) is)"
proof -
  have "triple L (\<lambda>s. holds L a c es is s \<and> peek s = t)
      (if t = Some KLParen then parse_call sub name else bindS (internS name) (\<lambda>y. okS (EVariable y)))
      (\<lambda>e. holds L a c (e # es) is)" for t
    by (intro valid_if; (simp add: call_ok; fail)?; intro triple_forget parse_rules triple_return) (auto simp: holds_def)
  then show ?thesis unfolding parse_ident_def by (intro bind_peek)
qed

lemma bind_negate:
  assumes "\<And>s m. holds L a c es is s \<Longrightarrow> holds L a c (ELiteral (w m) # es) is s \<Longrightarrow> Q (ELiteral (w m)) s"
    and "ELiteral (w n) \<in> set es" "w = VInt \<or> w = VDecimal"
  shows "triple L (holds L a c es is) (bindS (liftS (negate_i64 n)) (\<lambda>m. okS (ELiteral (w m)))) Q"
proof (rule validI)
  fix s e s' assume h: "holds L a c es is s" and m: "bindS (liftS (negate_i64 n)) (\<lambda>m. okS (ELiteral (w m))) s = (Ok e, s')"
  have "in_i64 n" using h assms(2,3) by (auto simp: holds_def list_all_iff)
  then have "e = ELiteral (w (- n))" "s' = s" "holds L a c (ELiteral (w (- n)) # es) is s"
    using m h assms(3) by (auto simp: comput_defs negate_i64_def holds_def split: if_splits)
  with assms(1) h show "Q e s'" by simp
next
  fix s f s' assume h: "holds L a c es is s" and m: "bindS (liftS (negate_i64 n)) (\<lambda>m. okS (ELiteral (w m))) s = (Fail f, s')"
  have "lim_safe L \<Longrightarrow> in_i64 (- n)" using h assms(2,3) by (auto simp: holds_def list_all_iff)
  then show "parse_fault L f s'"
    using m by (auto simp: comput_defs negate_i64_def parse_fault_def split: if_splits)
qed

lemma negate_ok:
  "triple L (holds L (a + 2) c (e # es) is) (negate_operand e) (\<lambda>e'. holds L a c (e' # es) is)"
proof -
  have lit: "triple L (holds L (a + 2) c (e # es) is) (bindS (liftS (negate_i64 n)) (\<lambda>m. okS (ELiteral (w m))))
      (\<lambda>e'. holds L a c (e' # es) is)" if "e = ELiteral (w n)" "w = VInt \<or> w = VDecimal" for w n
    by (rule bind_negate) (use that in \<open>auto elim: holds_weaken\<close>)
  have "triple L (holds L (a + 2) c (ELiteral (VInt 0) # e # es) is)
      (bindS (allocS (ELiteral (VInt 0))) (\<lambda>left. bindS (allocS e) (\<lambda>right. okS (EBinaryOp left Sub right))))
      (\<lambda>e'. holds L a c (e' # es) is)"
    by (intro parse_rules triple_return) (auto simp: holds_def)
  then have sub: "triple L (holds L (a + 2) c (e # es) is)
      (bindS (allocS (ELiteral (VInt 0))) (\<lambda>left. bindS (allocS e) (\<lambda>right. okS (EBinaryOp left Sub right))))
      (\<lambda>e'. holds L a c (e' # es) is)"
    by (rule valid_pre) (auto simp: holds_def)
  consider n where "e = ELiteral (VInt n)" | n where "e = ELiteral (VDecimal n)"
    | "negate_operand e = bindS (allocS (ELiteral (VInt 0))) (\<lambda>left. bindS (allocS e) (\<lambda>right. okS (EBinaryOp left Sub right)))"
    by (cases e rule: negatable.cases) (auto simp: negate_operand_def)
  then show ?thesis
    by cases (use sub lit in \<open>simp_all add: negate_operand_def\<close>)
qed

lemma number_ok:
  "triple L (\<lambda>s. holds L a c es is s \<and> (lim_safe L \<longrightarrow> safe_token (KNum str)))
     (bindS (liftS (parse_number str)) (\<lambda>v. okS (ELiteral v))) (\<lambda>e. holds L a c (e # es) is)"
  by (rule validI; cases "parse_number str")
    (auto simp: comput_defs holds_def safe_token_def parse_fault_def dest: parse_number_ok parse_number_fault)

lemma prefix_ok:
  "triple L (\<lambda>s. holds L (a + 2) (c + 1) es is s \<and> (lim_safe L \<longrightarrow> (\<forall>k. t = Some k \<longrightarrow> safe_token k)))
     (parse_prefix sub t) (\<lambda>e. holds L (a + 2) (c + 1) (e # es) is)"
proof -
  have minus: "triple L (holds L (a + 2) (c + 1) es is) (bindS (sub 30) negate_operand)
      (\<lambda>e. holds L (a + 2) (c + 1) (e # es) is)"
    by (rule valid_bindS [OF sub], rule valid_weaken [OF negate_ok]) (auto elim: holds_weaken)
  have bang: "triple L (holds L (a + 2) (c + 1) es is)
      (bindS (bindS (sub 30) allocS) (\<lambda>operand. okS (ENot operand))) (\<lambda>e. holds L (a + 2) (c + 1) (e # es) is)"
    by (intro parse_rules triple_return) (auto simp: holds_def)
  have paren: "triple L (holds L (a + 2) (c + 1) es is)
      (bindS (sub 0) (\<lambda>inner. bindS (expect KRParen msg) (\<lambda>_. okS inner))) (\<lambda>e. holds L (a + 2) (c + 1) (e # es) is)" for msg
    by (intro parse_rules triple_return) (auto elim: holds_weaken)
  have lit: "triple L (holds L (a + 2) (c + 1) es is) (okS (ELiteral v)) (\<lambda>e. holds L (a + 2) (c + 1) (e # es) is)"
    if "value_ok v" "negatable (ELiteral v)" for v
    by (rule valid_okS) (use that in \<open>auto simp: holds_def\<close>)
  have seen: "triple L (holds L (a + 2) (c + 1) es is) (parse_prefix sub (Some k)) (\<lambda>e. holds L (a + 2) (c + 1) (e # es) is)"
    if "\<And>n. k \<noteq> KNum n" for k
    using that by (cases k) (simp_all only: parse_prefix.simps minus bang paren ident_ok triple_error lit value_ok.simps
        negatable.simps, blast)
  have none: "triple L (holds L (a + 2) (c + 1) es is) (parse_prefix sub None) (\<lambda>e. holds L (a + 2) (c + 1) (e # es) is)"
    by (simp only: parse_prefix.simps triple_error)
  show ?thesis
  proof (cases "\<exists>n. t = Some (KNum n)")
    case True
    then show ?thesis by (auto intro: number_ok [THEN valid_pre] simp del: One_nat_def add_Suc_right)
  next
    case False
    then have "triple L (holds L (a + 2) (c + 1) es is) (parse_prefix sub t) (\<lambda>e. holds L (a + 2) (c + 1) (e # es) is)"
      using none seen by (cases t) blast+
    then show ?thesis by (rule valid_pre) blast
  qed
qed

lemma turn_ok:
  assumes "infix_turn sub bp lhs t = Some p"
  shows "triple L (\<lambda>s. holds L a c (lhs # es) is s \<and> peek s = t) p (\<lambda>e. holds L a (c + 1) (e # es) is)"
proof -
  have ter: "triple L (\<lambda>s. holds L a c (lhs # es) is s \<and> peek s = Some k) (parse_ternary sub lhs)
      (\<lambda>e. holds L a (c + 1) (e # es) is)" for k
    unfolding parse_ternary_def by (intro bind_next_seen parse_rules triple_return) (auto simp: holds_def)
  have bin: "triple L (\<lambda>s. holds L a c (lhs # es) is s \<and> peek s = Some k) (parse_binary sub lhs op)
      (\<lambda>e. holds L a (c + 1) (e # es) is)" for k op
    unfolding parse_binary_def by (intro bind_next_seen parse_rules triple_return) (auto simp: holds_def)
  have name: "triple L (holds L (a + 2 + 2) (c + 1 + 1) (lhs # es) is)
      (bindS (internS name) (\<lambda>field. bindS (allocS lhs) (\<lambda>base. bindS (getS (h field)) (\<lambda>n.
         okS (EFieldAccess base field (hash_field n)))))) (\<lambda>e. holds L a (c + 1) (e # es) is)" for name h
    by (intro parse_rules triple_return) (auto simp: holds_def)
  have fld: "triple L (\<lambda>s. holds L a c (lhs # es) is s \<and> peek s = Some k) (parse_field lhs)
      (\<lambda>e. holds L a (c + 1) (e # es) is)" for k
    unfolding parse_field_def
  proof (intro bind_next_seen bind_next)
    fix k
    show "triple L (holds L (a + 2 + 2) (c + 1 + 1) (lhs # es) is)
        (case Some k of Some (KIdent name) \<Rightarrow> bindS (internS name) (\<lambda>field. bindS (allocS lhs) (\<lambda>base.
            bindS (getS (\<lambda>s. case resolve (ps_interner s) field of Some n \<Rightarrow> n | None \<Rightarrow> '''')) (\<lambda>n.
              okS (EFieldAccess base field (hash_field n)))))
          | other \<Rightarrow> parse_errorS (''expected field name after `.`, got: '' @ debug_next other))
        (\<lambda>e. holds L a (c + 1) (e # es) is)"
      by (cases k) (simp_all only: option.case token.case name triple_error)
  qed (simp add: triple_error)
  show ?thesis
    using assms ter bin fld
    by (auto simp: infix_turn_def split: option.splits token.splits if_splits)
qed

lemma loop_ok:
  assumes "lim_tokens L < n + c"
  shows "triple L (holds L a c (lhs # es) is) (infix_loop n sub bp lhs) (\<lambda>e. holds L a c (e # es) is)"
  using assms
proof (induction n arbitrary: c lhs)
  case 0
  then show ?case by (auto simp: valid_def holds_def)
next
  case (Suc n)
  have "triple L (\<lambda>s. holds L a c (lhs # es) is s \<and> peek s = t)
      (case infix_turn sub bp lhs t of None \<Rightarrow> okS lhs | Some p \<Rightarrow> bindS p (infix_loop n sub bp))
      (\<lambda>e. holds L a c (e # es) is)" for t
  proof (cases "infix_turn sub bp lhs t")
    case None
    then show ?thesis by (auto intro: valid_okS)
  next
    case (Some p)
    have ih: "triple L (holds L a (c + 1) (e # es) is) (infix_loop n sub bp e) (\<lambda>e. holds L a c (e # es) is)" for e
      by (rule valid_weaken [OF Suc.IH [of "c + 1"]]) (use Suc.prems in \<open>auto elim: holds_weaken\<close>)
    show ?thesis by (simp only: Some option.case) (rule valid_bindS [OF turn_ok [OF Some] ih])
  qed
  then show ?case by (simp only: infix_loop.simps) (rule bind_peek)
qed

text \<open>A level keeps the contract it assumes.\<close>

lemma level_ok:
  "triple L (holds L a c es is)
     (bindS next_tok (\<lambda>t.
       if t = Some (KIdent ''if'') then parse_if sub
       else bindS (parse_prefix sub t) (\<lambda>lhs.
            bindS (getS (\<lambda>s. length (ps_tokens s))) (\<lambda>n. infix_loop (Suc n) sub bp lhs))))
     (\<lambda>e. holds L (a + 2) (c + 1) (e # es) is)"
proof (rule valid_bindS)
  show "triple L (holds L a c es is) next_tok
      (\<lambda>t s. case t of None \<Rightarrow> True | Some k \<Rightarrow> holds L (a + 2) (c + 1) es is s \<and> (lim_safe L \<longrightarrow> safe_token k))"
    by (rule validI) (use holds_next in \<open>fastforce simp: next_tok_def split: list.splits option.splits\<close>)+
  fix t
  have loop: "triple L (holds L (a + 2) (c + 1) (lhs # es) is)
      (bindS (getS (\<lambda>s. length (ps_tokens s))) (\<lambda>n. infix_loop (Suc n) sub bp lhs))
      (\<lambda>e. holds L (a + 2) (c + 1) (e # es) is)" for lhs
    by (rule bind_fuel, rule loop_ok) simp
  have rest: "triple L (\<lambda>s. holds L (a + 2) (c + 1) es is s \<and> (lim_safe L \<longrightarrow> (\<forall>k. t = Some k \<longrightarrow> safe_token k)))
      (bindS (parse_prefix sub t) (\<lambda>lhs. bindS (getS (\<lambda>s. length (ps_tokens s))) (\<lambda>n. infix_loop (Suc n) sub bp lhs)))
      (\<lambda>e. holds L (a + 2) (c + 1) (e # es) is)"
    by (rule valid_bindS [OF prefix_ok loop])
  have none: "triple L P (bindS (parse_prefix sub None) g) Q" for P and g :: "expr \<Rightarrow> expr parser" and Q
    by (auto simp: valid_def bindS_def failS_def parse_fault_def)
  show "triple L (\<lambda>s. case t of None \<Rightarrow> True | Some k \<Rightarrow> holds L (a + 2) (c + 1) es is s \<and> (lim_safe L \<longrightarrow> safe_token k))
      (if t = Some (KIdent ''if'') then parse_if sub
       else bindS (parse_prefix sub t) (\<lambda>lhs. bindS (getS (\<lambda>s. length (ps_tokens s))) (\<lambda>n. infix_loop (Suc n) sub bp lhs)))
      (\<lambda>e. holds L (a + 2) (c + 1) (e # es) is)"
  proof (cases t)
    case None
    then show ?thesis by (simp only: option.distinct if_False none)
  next
    case (Some k)
    have "triple L (holds L (a + 2) (c + 1) es is) (parse_if sub) (\<lambda>e. holds L (a + 2) (c + 1) (e # es) is)"
      by (rule valid_weaken [OF if_ok]) (auto elim: holds_weaken)
    then show ?thesis
      using rest by (intro valid_if) (auto simp: Some elim!: valid_pre)
  qed
qed

end

interpretation pe: sub_parser "parse_expr max_depth n" for max_depth n
proof (induction n)
  case 0
  show ?case by unfold_locales (simp add: triple_error)
next
  case (Suc n)
  show ?case
    by unfold_locales (simp only: parse_expr.simps sub_parser.level_ok [OF Suc])
qed

section \<open>Whole expressions\<close>

definition start_state :: "token list \<Rightarrow> string_interner \<Rightarrow> parser_state" where
  "start_state toks t = \<lparr>ps_tokens = toks, ps_interner = t, ps_arena = arena_new\<rparr>"

lemma good_arena_new: "good_arena arena_new"
  by (simp add: good_arena_def arena_wf_def arena_ok_def children_first_def arena_new_def)

definition start_limits :: "token list \<Rightarrow> limits" where
  "start_limits toks = \<lparr>lim_safe = list_all safe_token toks, lim_charge = 2 * length toks, lim_tokens = length toks\<rparr>"

lemma start_holds: "2 * length toks < 2 ^ 32 \<Longrightarrow> holds (start_limits toks) 0 0 [] [] (start_state toks t)"
  by (simp add: holds_def start_limits_def start_state_def spent_def good_arena_new) (simp add: arena_new_def)

lemma tree_parser_ok:
  assumes l: "length toks < 2 ^ 31" and p: "parse_expr_tree max_depth toks t = (r, t')"
  shows "case r of
      Ok (tree, rest) \<Rightarrow> tree_wf tree \<and> parsed_tree tree \<and> length rest < length toks
        \<and> (list_all safe_token toks \<longrightarrow> list_all safe_token rest)
    | Fail f \<Rightarrow> (\<exists>msg. f = Error (ParseError msg)) \<or> (f = Panic \<and> \<not> list_all safe_token toks)"
proof -
  let ?L = "start_limits toks"
  obtain q s where q: "parse_expr max_depth (Suc max_depth) 0 (start_state toks t) = (q, s)" by fastforce
  have h: "holds ?L 0 0 [] [] (start_state toks t)" by (rule start_holds) (use l in simp)
  show ?thesis
  proof (cases q)
    case (Ok e)
    have e: "holds ?L (0 + 2) (0 + 1) [e] [] s"
      using validD_ok [OF pe.sub h] q Ok by blast
    obtain i ar where a: "alloc (ps_arena s) e = (i, ar)" by fastforce
    have len: "length (nodes (ps_arena s)) < 2 ^ 32" using e by (auto simp: holds_def spent_def)
    have "good_arena ar" "i < length (nodes ar)"
      using good_alloc [OF _ _ len a] e by (auto simp: holds_def)
    then have "tree_wf \<lparr>tree_arena = ar, tree_root = i\<rparr>" "parsed_tree \<lparr>tree_arena = ar, tree_root = i\<rparr>"
      by (auto simp: tree_wf_def parsed_tree_def good_arena_def arena_wf_def)
    moreover have "length (ps_tokens s) < length toks" "list_all safe_token toks \<longrightarrow> list_all safe_token (ps_tokens s)"
      using e by (auto simp: holds_def start_limits_def)
    moreover have "r = Ok (\<lparr>tree_arena = ar, tree_root = i\<rparr>, ps_tokens s)"
      using p q Ok a by (simp add: parse_expr_tree_def start_state_def)
    ultimately show ?thesis by simp
  next
    case (Fail f)
    then have "parse_fault ?L f s" using validD_fail [OF pe.sub h] q by blast
    moreover have "r = Fail f"
      using p q Fail by (simp add: parse_expr_tree_def start_state_def)
    ultimately show ?thesis by (simp add: parse_fault_def start_limits_def)
  qed
qed

text \<open>What a parse of text gives: a well-formed tree, or an error; only the least integer panics.\<close>

definition parsed :: "string \<Rightarrow> expr_tree outcome \<Rightarrow> bool" where
  "parsed src r \<longleftrightarrow>
     (case r of
        Ok tree \<Rightarrow> tree_wf tree \<and> parsed_tree tree
      | Fail f \<Rightarrow> (\<exists>msg. f = Error (ParseError msg)) \<or>
          (f = Panic \<and> (\<exists>toks. lex src = Ok toks \<and> \<not> list_all safe_token toks)))"

lemma standalone_ok:
  assumes "length src < 2 ^ 28" "parse_expr_standalone max_depth src t = (r, t')"
  shows "parsed src r"
proof (cases "lex src")
  case (Fail f)
  then show ?thesis using assms(2) lex_result [of src] by (auto simp: parse_expr_standalone_def parse_result_def parsed_def)
next
  case (Ok toks)
  have l: "length toks < 2 ^ 31" using lex_length [OF Ok] assms(1) by simp
  obtain q t1 where q: "parse_expr_tree max_depth toks t = (q, t1)" by fastforce
  note w = tree_parser_ok [OF l q]
  show ?thesis
  proof (cases q)
    case Fail: (Fail f)
    then show ?thesis using w assms(2) Ok q by (auto simp: parse_expr_standalone_def parsed_def)
  next
    case tr: (Ok p)
    obtain tree rest where "p = (tree, rest)" by fastforce
    then have r: "r = bindO (assert_cursor_empty rest []) (\<lambda>_. Ok tree)" and t: "tree_wf tree" "parsed_tree tree"
      using w assms(2) Ok q tr by (auto simp: parse_expr_standalone_def)
    show ?thesis
    proof (cases "assert_cursor_empty rest []")
      case (Fail f)
      then show ?thesis using cursor_empty_result [of rest "[]"] r by (auto simp: parse_result_def parsed_def)
    qed (use r t in \<open>simp add: parsed_def\<close>)
  qed
qed

section \<open>Decimal literals\<close>

lemma parse_f64_digits:
  assumes "parse_sign s = (neg, body)" "map ascii_lower body \<notin> {''inf'', ''infinity'', ''nan''}"
    and "takeWhile is_digit body = whole" "dropWhile is_digit body = CHR ''.'' # decimals" "whole \<noteq> []" "list_all is_digit decimals"
  shows "parse_f64 s = Some (round_f64 neg (digits_val (whole @ decimals)) (10 ^ length decimals))"
proof -
  have f: "takeWhile is_digit decimals = decimals" "dropWhile is_digit decimals = []"
    using assms(6) by (simp_all add: list_all_iff)
  show ?thesis
    using assms(1-5) by (simp add: parse_f64_def Let_def parse_exponent_def decimal_ratio_def f)
qed

lemma parse_f64_decimal:
  assumes "whole \<noteq> []" "list_all is_digit whole" "list_all is_digit decimals" "sg \<in> {[], ''-''}"
  shows "parse_f64 (sg @ whole @ CHR ''.'' # decimals)
     = Some (round_f64 (sg = ''-'') (digits_val (whole @ decimals)) (10 ^ length decimals))"
proof -
  let ?body = "whole @ CHR ''.'' # decimals"
  have dot: "\<not> is_digit CHR ''.''" by (simp add: is_digit_def)
  have w: "takeWhile is_digit ?body = whole" "dropWhile is_digit ?body = CHR ''.'' # decimals"
    using assms(2) dot by (simp_all add: list_all_iff)
  obtain c cs where c: "whole = c # cs" "is_digit c" using assms(1,2) by (cases whole) auto
  then have sign: "parse_sign (sg @ ?body) = (sg = ''-'', ?body)"
    using assms(4) is_digit_not_sign [OF c(2)] by (auto simp: parse_sign_def)
  have "ascii_lower c = c" using c(2) by (auto simp: ascii_lower_def is_digit_def less_eq_char_def)
  then have "map ascii_lower ?body \<noteq> ''inf''" "map ascii_lower ?body \<noteq> ''infinity''" "map ascii_lower ?body \<noteq> ''nan''"
    using c by (auto simp: is_digit_def)
  then show ?thesis
    using parse_f64_digits [OF sign _ w assms(1,3)] by blast
qed

lemma round_zero: "round_as_i64 (f64_times (round_f64 neg 0 q) K) = 0"
  by (simp add: round_f64_def round_away_def clamp_i64_def i64_defs)

text \<open>
  (C14) Decimal literals go through a double and are exact all the same: a literal with at most
  eight decimals and either sign is read as the scaled integer it spells, as long as that is below
  \<open>2^50\<close> (about eleven million).
\<close>

theorem decimal_literal_exact:
  assumes "whole \<noteq> []" "list_all is_digit whole" "list_all is_digit decimals" "length decimals \<le> 8"
    and "digits_val (whole @ decimals) * 10 ^ (8 - length decimals) < 2 ^ 50"
  shows "parse_number (whole @ CHR ''.'' # decimals)
       = Ok (VDecimal (int (digits_val (whole @ decimals) * 10 ^ (8 - length decimals))))
     \<and> parse_number (CHR ''-'' # whole @ CHR ''.'' # decimals)
       = Ok (VDecimal (- int (digits_val (whole @ decimals) * 10 ^ (8 - length decimals))))"
proof -
  let ?p = "digits_val (whole @ decimals)" and ?N = "digits_val (whole @ decimals) * 10 ^ (8 - length decimals)"
  have K: "nat DECIMAL_SCALE = 10 ^ (8 - length decimals) * 10 ^ length decimals"
    using assms(4) by (simp add: DECIMAL_SCALE_def flip: power_add)
  have r: "round_as_i64 (f64_times (round_f64 neg ?p (10 ^ length decimals)) (nat DECIMAL_SCALE)) = (if neg then - int ?N else int ?N)"
    for neg
  proof (cases "?N = 0")
    case True
    then show ?thesis by (simp add: round_zero)
  next
    case False
    show ?thesis
      by (rule scaled_exact) (use False assms(5) K in \<open>simp_all add: DECIMAL_SCALE_def\<close>)
  qed
  show ?thesis
    using parse_f64_decimal [OF assms(1-3), of "[]"] parse_f64_decimal [OF assms(1-3), of "''-''"] r [of False] r [of True]
    by (simp add: parse_number_def)
qed

theorem decimal_literal_exact_witness:
  "parse_number ''3.14'' = Ok (VDecimal 314000000) \<and> parse_number ''-3.14'' = Ok (VDecimal (- 314000000))"
  using decimal_literal_exact [of "''3''" "''14''"] by (simp add: is_digit_def digits_val_def digit_val_def)

text \<open>Above that the double is not exact: the digits of this literal are not those of its value.\<close>

lemma large_decimal_literal_rounded: "parse_number ''90071992.54740993'' = Ok (VDecimal 9007199254740994)"
proof -
  have b: "bit_length 9007199254740993 = 54" "bit_length 100000000 = 27" "bit_length 604462909807314700000000 = 80"
    "bit_length 67108864 = 27"
    by (simp_all add: bit_length.simps)
  have p: "parse_f64 ''90071992.54740993'' = Some (round_f64 False 9007199254740993 100000000)"
    using parse_f64_decimal [of "''90071992''" "''54740993''" "[]"] by (simp add: is_digit_def digits_val_def digit_val_def)
  have l1: "floor_log 9007199254740993 100000000 = 26" by (simp add: floor_log_def b scale_down_def)
  have l2: "floor_log 604462909807314700000000 67108864 = 53" by (simp add: floor_log_def b scale_down_def)
  have h1: "round_half_even 604462909807314654461952 100000000 = 6044629098073147" by (simp add: round_half_even_def)
  have h2: "round_half_even 604462909807314700000000 134217728 = 4503599627370497" by (simp add: round_half_even_def)
  have r1: "round_f64 False 9007199254740993 100000000 = Finite False 6044629098073147 (- 26)"
    by (simp add: round_f64_def l1 scale_down_def h1)
  have r2: "round_f64 False 604462909807314700000000 67108864 = Finite False 4503599627370497 1"
    by (simp add: round_f64_def l2 scale_down_def h2)
  show ?thesis
    by (simp add: parse_number_def p r1 r2 DECIMAL_SCALE_def round_away_def clamp_i64_def i64_defs)
qed
text \<open>The negation of the least integer, which checked builds refuse with a panic.\<close>

lemma least_integer_negation_panics:
  "fst (parse_expr_tree 256 [KMinus, KNum ''-9223372036854775808'', KNewline] interner_new) = Fail Panic"
proof -
  have n: "parse_number ''-9223372036854775808'' = Ok (VInt (- 9223372036854775808))"
    by (simp add: parse_number_def parse_i64_def is_digit_def digits_val_def digit_val_def checked_i64_def i64_defs)
  show ?thesis
    by (simp add: parse_expr_tree_def numeral_eq_Suc comput_defs next_tok_def n peek_def infix_turn_def
        negate_operand_def negate_i64_def i64_defs)
qed

text \<open>
  (C12) What the parser of a standalone expression returns for any text of less than 256 MiB, at any
  depth limit: a tree whose nodes refer only to nodes allocated before them, whose calls stay
  inside the argument pool and whose literals are in range, or an error of the parser. It never
  runs forever or overflows its stack, and the only panic is the negation of the least 64-bit integer.
\<close>

theorem standalone_expression_well_formed:
  assumes "length src < 2 ^ 28" "parse_expr_standalone max_depth src t = (r, t')"
  shows "case r of
      Ok tree \<Rightarrow> tree_wf tree \<and> parsed_tree tree
    | Fail f \<Rightarrow> (\<exists>msg. f = Error (ParseError msg)) \<or>
        (f = Panic \<and> (\<exists>toks. lex src = Ok toks \<and> \<not> list_all safe_token toks))"
  using standalone_ok [OF assms] by (simp add: parsed_def)

theorem standalone_expression_well_formed_witness:
  "case fst (parse_expr_standalone 256 ''a + f(b)'' interner_new) of
      Ok tree \<Rightarrow> tree_wf tree \<and> parsed_tree tree
    | Fail f \<Rightarrow> (\<exists>msg. f = Error (ParseError msg)) \<or>
        (f = Panic \<and> (\<exists>toks. lex ''a + f(b)'' = Ok toks \<and> \<not> list_all safe_token toks))"
  by (rule standalone_expression_well_formed [of _ 256 interner_new _ "snd (parse_expr_standalone 256 ''a + f(b)'' interner_new)"]) simp_all

end
