(* ===== verification/Mizu_Grammar.thy ===== *)
theory Mizu_Grammar
  imports Mizu_Parser_Props
begin

text \<open>
  The grammar the expression parser accepts, as abstract syntax with a printer that puts in
  parentheses exactly where precedence asks for them. \<open>denotes\<close> reads an expression of an arena
  back as syntax. The round trip at the end says that what is printed is parsed as what was
  printed: precedence and associativity are the ones of the table of binding powers.
\<close>

section \<open>Abstract syntax\<close>

datatype syn =
    XNum string | XBool bool | XStr string | XVar string
  | XCall string "syn list" | XNeg syn | XNot syn
  | XBin syn binop syn | XIf syn syn syn | XField syn string

fun op_token :: "binop \<Rightarrow> token" where
  "op_token Add = KPlus"
| "op_token Sub = KMinus"
| "op_token Mul = KStar"
| "op_token Div = KSlash"
| "op_token Eq = KEqEq"
| "op_token Ne = KBangEq"
| "op_token Lt = KLt"
| "op_token Gt = KGt"
| "op_token Le = KLtEq"
| "op_token Ge = KGtEq"
| "op_token And = KAndAnd"
| "op_token Or = KOrOr"

lemma infix_op_token [simp]: "infix_op (op_token op) = Some op"
  by (cases op) auto

definition wrap :: "bool \<Rightarrow> token list \<Rightarrow> token list" where
  "wrap b ts = (if b then KLParen # ts @ [KRParen] else ts)"

fun commas :: "token list list \<Rightarrow> token list" where
  "commas [] = []"
| "commas [ts] = ts"
| "commas (ts # us # tss) = ts @ KComma # commas (us # tss)"

text \<open>The tokens of \<open>x\<close> where an operand of binding power \<open>q\<close> or more is expected.\<close>

fun print_syn :: "nat \<Rightarrow> syn \<Rightarrow> token list" where
  "print_syn q (XNum s) = [KNum s]"
| "print_syn q (XBool b) = [KBool b]"
| "print_syn q (XStr s) = [KStr s]"
| "print_syn q (XVar n) = [KIdent n]"
| "print_syn q (XCall n xs) = KIdent n # KLParen # commas (map (print_syn 0) xs) @ [KRParen]"
| "print_syn q (XNeg x) = wrap (30 < q) (KMinus # print_syn 30 x)"
| "print_syn q (XNot x) = wrap (30 < q) (KBang # print_syn 30 x)"
| "print_syn q (XBin l op r) =
     wrap (fst (infix_binding_power op) < q)
       (print_syn (fst (infix_binding_power op)) l @ op_token op # print_syn (snd (infix_binding_power op)) r)"
| "print_syn q (XIf c a b) = wrap (0 < q) (print_syn 1 c @ KQuestion # print_syn 0 a @ KColon # print_syn 0 b)"
| "print_syn q (XField x n) = print_syn 50 x @ [KDot, KIdent n]"

text \<open>The levels of the parser a printed expression takes.\<close>

fun levels :: "nat \<Rightarrow> syn \<Rightarrow> nat" where
  "levels q (XNum s) = 0"
| "levels q (XBool b) = 0"
| "levels q (XStr s) = 0"
| "levels q (XVar n) = 0"
| "levels q (XCall n xs) = Suc (fold max (map (levels 0) xs) 0)"
| "levels q (XNeg x) = (if 30 < q then 1 else 0) + Suc (levels 30 x)"
| "levels q (XNot x) = (if 30 < q then 1 else 0) + Suc (levels 30 x)"
| "levels q (XBin l op r) =
     (if fst (infix_binding_power op) < q then 1 else 0)
     + max (levels (fst (infix_binding_power op)) l) (Suc (levels (snd (infix_binding_power op)) r))"
| "levels q (XIf c a b) = (if 0 < q then 1 else 0) + max (levels 1 c) (Suc (max (levels 0 a) (levels 0 b)))"
| "levels q (XField x n) = levels 50 x"

section \<open>What an expression of an arena says\<close>

inductive denotes :: "string_interner \<Rightarrow> expr_arena \<Rightarrow> expr \<Rightarrow> syn \<Rightarrow> bool" for t ar where
  num: "parse_number s = Ok v \<Longrightarrow> denotes t ar (ELiteral v) (XNum s)"
| bool: "denotes t ar (ELiteral (VBool b)) (XBool b)"
| str: "denotes t ar (ELiteral (VString s)) (XStr s)"
| var: "resolve t y = Some n \<Longrightarrow> denotes t ar (EVariable y) (XVar n)"
| call: "resolve t y = Some n \<Longrightarrow> arena_args ar st (length xs) = Ok ids \<Longrightarrow>
    list_all2 (\<lambda>i x. \<exists>e. arena_get ar i = Ok e \<and> denotes t ar e x) ids xs \<Longrightarrow>
    denotes t ar (EFunctionCall y st (length xs)) (XCall n xs)"
| neg_int: "denotes t ar (ELiteral (VInt k)) x \<Longrightarrow> denotes t ar (ELiteral (VInt (- k))) (XNeg x)"
| neg_dec: "denotes t ar (ELiteral (VDecimal k)) x \<Longrightarrow> denotes t ar (ELiteral (VDecimal (- k))) (XNeg x)"
| neg: "arena_get ar i = Ok (ELiteral (VInt 0)) \<Longrightarrow> arena_get ar j = Ok e \<Longrightarrow> denotes t ar e x \<Longrightarrow>
    (\<And>k. e \<noteq> ELiteral (VInt k) \<and> e \<noteq> ELiteral (VDecimal k)) \<Longrightarrow> denotes t ar (EBinaryOp i Sub j) (XNeg x)"
| not: "arena_get ar i = Ok e \<Longrightarrow> denotes t ar e x \<Longrightarrow> denotes t ar (ENot i) (XNot x)"
| bin: "arena_get ar i = Ok e \<Longrightarrow> denotes t ar e x \<Longrightarrow> arena_get ar j = Ok f \<Longrightarrow> denotes t ar f y \<Longrightarrow>
    denotes t ar (EBinaryOp i op j) (XBin x op y)"
| cond: "arena_get ar i = Ok e \<Longrightarrow> denotes t ar e x \<Longrightarrow> arena_get ar j = Ok f \<Longrightarrow> denotes t ar f y \<Longrightarrow>
    arena_get ar k = Ok g \<Longrightarrow> denotes t ar g z \<Longrightarrow> denotes t ar (EIfElse i j k) (XIf x y z)"
| field: "arena_get ar i = Ok e \<Longrightarrow> denotes t ar e x \<Longrightarrow> resolve t y = Some n \<Longrightarrow>
    denotes t ar (EFieldAccess i y (hash_field n)) (XField x n)"

text \<open>What may be printed: names that are no keywords, numbers in range, negatives that exist.\<close>

fun number_of :: "syn \<Rightarrow> mval option" where
  "number_of (XNum s) = (case parse_number s of Ok v \<Rightarrow> Some v | Fail _ \<Rightarrow> None)"
| "number_of (XNeg x) = (case number_of x of
      Some (VInt k) \<Rightarrow> Some (VInt (- k)) | Some (VDecimal k) \<Rightarrow> Some (VDecimal (- k)) | _ \<Rightarrow> None)"
| "number_of _ = None"

fun syn_ok :: "syn \<Rightarrow> bool" where
  "syn_ok (XNum s) = is_ok (parse_number s)"
| "syn_ok (XBool b) = True"
| "syn_ok (XStr s) = True"
| "syn_ok (XVar n) = (n \<noteq> ''if'')"
| "syn_ok (XCall n xs) = (n \<notin> {''if'', ''sort'', ''filter'', ''get_system_time''} \<and> list_all syn_ok xs)"
| "syn_ok (XNeg x) = (syn_ok x \<and> (\<forall>v \<in> set_option (number_of x). negatable (ELiteral v)))"
| "syn_ok (XNot x) = syn_ok x"
| "syn_ok (XBin l op r) = (syn_ok l \<and> syn_ok r)"
| "syn_ok (XIf c a b) = (syn_ok c \<and> syn_ok a \<and> syn_ok b)"
| "syn_ok (XField x n) = syn_ok x"

definition keeps :: "string_interner \<Rightarrow> string_interner \<Rightarrow> bool" where
  "keeps t t' \<longleftrightarrow> (\<forall>y n. resolve t y = Some n \<longrightarrow> resolve t' y = Some n)"

lemma arena_get_mono: "arena_get ar i = Ok e \<Longrightarrow> extends ar ar' \<Longrightarrow> arena_get ar' i = Ok e"
  by (auto simp: arena_get_def index_or_panic_def extends_def prefix_def nth_append split: if_splits)

lemma arena_args_mono: "arena_args ar st k = Ok ids \<Longrightarrow> extends ar ar' \<Longrightarrow> arena_args ar' st k = Ok ids"
  by (auto simp: arena_args_def extends_def prefix_def split: if_splits)

lemma denotes_mono:
  assumes "denotes t ar e x" "extends ar ar'" "keeps t t'"
  shows "denotes t' ar' e x"
proof -
  have g: "arena_get ar i = Ok f \<Longrightarrow> arena_get ar' i = Ok f" for i f
    using arena_get_mono assms(2) by blast
  have r: "resolve t y = Some n \<Longrightarrow> resolve t' y = Some n" for y n
    using assms(3) by (simp add: keeps_def)
  show ?thesis
    using assms(1)
  proof induction
  case (call y n st xs ids)
  have "list_all2 (\<lambda>i x. \<exists>e. arena_get ar' i = Ok e \<and> denotes t' ar' e x) ids xs"
    by (rule list_all2_mono [OF call(3)]) (use g in blast)
  then show ?case
    using denotes.call [OF r [OF call(1)] arena_args_mono [OF call(2) assms(2)]] by blast
qed ((rule denotes.intros; (assumption | erule g r | blast)+)+)
qed

lemma denotes_number: "denotes t ar e x \<Longrightarrow> number_of x = (case e of ELiteral (VInt k) \<Rightarrow> Some (VInt k)
    | ELiteral (VDecimal k) \<Rightarrow> Some (VDecimal k) | _ \<Rightarrow> None)"
proof (induction rule: denotes.induct)
  case (num s v)
  then show ?case by (auto simp: parse_number_def split: if_splits option.splits)
next
  case (neg i j e x)
  then show ?case by (cases e rule: negatable.cases) (simp_all, blast+)
qed simp_all

section \<open>Runs of the parser\<close>

definition cost :: "parser_state \<Rightarrow> nat" where
  "cost s = length (nodes (ps_arena s)) + length (args_pool (ps_arena s)) + length (im_vec (ps_interner s))
     + 3 * length (ps_tokens s)"

definition ready :: "parser_state \<Rightarrow> bool" where
  "ready s \<longleftrightarrow> interner_ok (ps_interner s) \<and> cost s < 2 ^ 32"

text \<open>A run from \<open>s\<close> to \<open>s'\<close> that only adds, with \<open>k\<close> credits left.\<close>

definition steps :: "nat \<Rightarrow> parser_state \<Rightarrow> parser_state \<Rightarrow> bool" where
  "steps k s s' \<longleftrightarrow> ready s \<and> ready s' \<and> extends (ps_arena s) (ps_arena s') \<and> keeps (ps_interner s) (ps_interner s')
     \<and> cost s' + k \<le> cost s"

definition means :: "parser_state \<Rightarrow> expr \<Rightarrow> syn \<Rightarrow> bool" where
  "means s e x \<longleftrightarrow> denotes (ps_interner s) (ps_arena s) e x"

definition stored :: "parser_state \<Rightarrow> expr_id \<Rightarrow> expr \<Rightarrow> bool" where
  "stored s i e \<longleftrightarrow> arena_get (ps_arena s) i = Ok e"

lemma steps_refl: "ready s \<Longrightarrow> steps 0 s s"
  by (simp add: steps_def keeps_def)

lemma steps_trans: "steps j s s1 \<Longrightarrow> steps k s1 s2 \<Longrightarrow> steps (j + k) s s2"
  by (auto simp: steps_def keeps_def intro: extends_trans)

lemma steps_means: "means s e x \<Longrightarrow> steps k s s' \<Longrightarrow> means s' e x"
  by (auto simp: means_def steps_def intro: denotes_mono)

lemma steps_stored: "stored s i e \<Longrightarrow> steps k s s' \<Longrightarrow> stored s' i e"
  by (auto simp: stored_def steps_def intro: arena_get_mono)

lemma steps_weaken: "steps k s s' \<Longrightarrow> j \<le> k \<Longrightarrow> steps j s s'"
  by (auto simp: steps_def)

definition drop_token :: "parser_state \<Rightarrow> parser_state" where
  "drop_token s = s\<lparr>ps_tokens := tl (ps_tokens s)\<rparr>"

lemma next_run: "ps_tokens s = t # ts \<Longrightarrow> next_tok s = (Ok (Some t), drop_token s)"
  by (simp add: next_tok_def drop_token_def)

lemma drop_token_tokens [simp]: "ps_tokens s = t # ts \<Longrightarrow> ps_tokens (drop_token s) = ts"
  by (simp add: drop_token_def)

lemma drop_steps: "ready s \<Longrightarrow> ps_tokens s = t # ts \<Longrightarrow> steps 3 s (drop_token s)"
  by (auto simp: steps_def ready_def cost_def drop_token_def keeps_def)

lemma intern_run:
  assumes "ready s"
  obtains y s' where "internS n s = (Ok y, s')" "resolve (ps_interner s') y = Some n" "ps_tokens s' = ps_tokens s"
    "ps_arena s' = ps_arena s" "interner_ok (ps_interner s')" "keeps (ps_interner s) (ps_interner s')"
    "cost s' \<le> cost s + 1"
proof -
  obtain y t where g: "get_or_intern (ps_interner s) n = (y, t)" by fastforce
  have ok: "interner_ok (ps_interner s)" and room: "interner_room (ps_interner s)"
    using assms by (auto simp: ready_def interner_room_def cost_def)
  have "length (im_vec t) \<le> Suc (length (im_vec (ps_interner s)))"
    using g by (auto simp: get_or_intern_def Let_def split: option.splits)
  then show thesis
    using that [of y "s\<lparr>ps_interner := t\<rparr>"] g si.intern_ok [OF ok room, of n] si.intern_res [OF ok room, of n]
      si.intern_mono [OF ok, of _ _ n]
    by (simp add: internS_def keeps_def cost_def)
qed

lemma steps_intern:
  assumes "steps (Suc k) s s1"
  obtains y s2 where "internS n s1 = (Ok y, s2)" "resolve (ps_interner s2) y = Some n" "ps_tokens s2 = ps_tokens s1"
    "steps k s s2" "\<And>i e. stored s1 i e \<Longrightarrow> stored s2 i e" "\<And>e x. means s1 e x \<Longrightarrow> means s2 e x"
    "ps_arena s2 = ps_arena s1"
proof -
  have r: "ready s1" using assms by (simp add: steps_def)
  from intern_run [OF r, of n] obtain y s2 where i: "internS n s1 = (Ok y, s2)" "resolve (ps_interner s2) y = Some n"
    "ps_tokens s2 = ps_tokens s1" "ps_arena s2 = ps_arena s1" "interner_ok (ps_interner s2)"
    "keeps (ps_interner s1) (ps_interner s2)" "cost s2 \<le> cost s1 + 1" by blast
  have "steps k s s2" using assms i by (auto simp: steps_def ready_def keeps_def)
  moreover have "means s2 e x" if "means s1 e x" for e x
    using that denotes_mono [OF _ extends_refl i(6)] i(4) by (simp add: means_def)
  ultimately show thesis using that [OF i(1,2,3)] i(4) by (simp add: stored_def)
qed

lemma steps_alloc:
  assumes "steps (Suc k) s s1"
  obtains i s2 where "allocS e s1 = (Ok i, s2)" "stored s2 i e" "ps_tokens s2 = ps_tokens s1" "steps k s s2"
    "\<And>j f. stored s1 j f \<Longrightarrow> stored s2 j f" "\<And>f x. means s1 f x \<Longrightarrow> means s2 f x" "ps_interner s2 = ps_interner s1"
proof -
  have l: "length (nodes (ps_arena s1)) < 2 ^ 32" using assms by (auto simp: steps_def ready_def cost_def)
  obtain i ar where a: "alloc (ps_arena s1) e = (i, ar)" by fastforce
  have x: "extends (ps_arena s1) ar" using alloc_extends [OF a] .
  let ?s = "s1\<lparr>ps_arena := ar\<rparr>"
  have "steps k s ?s"
    using assms alloc_id [OF l a] extends_trans [OF _ x, of "ps_arena s"]
    by (auto simp: steps_def ready_def cost_def)
  moreover have "stored ?s j f" if "stored s1 j f" for j f
    using that arena_get_mono [OF _ x] by (simp add: stored_def)
  moreover have "means ?s f x" if "means s1 f x" for f x
    using that denotes_mono [OF _ x, of _ f x] by (simp add: means_def keeps_def)
  moreover have "stored ?s i e"
    using alloc_id [OF l a] by (simp add: stored_def arena_get_def index_or_panic_def)
  ultimately show thesis using that [of i ?s] a by (simp add: allocS_def)
qed

section \<open>Fuel\<close>

text \<open>A parser never gives tokens back; the loop's result does not depend on fuel it does not need.\<close>

definition shrinks :: "'a parser \<Rightarrow> bool" where
  "shrinks m \<longleftrightarrow> (\<forall>s v s'. m s = (Ok v, s') \<longrightarrow> length (ps_tokens s') \<le> length (ps_tokens s))"

named_theorems shrink_rules "parsers that never give tokens back"

lemma shrinks_bind [shrink_rules]: "shrinks m \<Longrightarrow> (\<And>v. shrinks (f v)) \<Longrightarrow> shrinks (bindS m f)"
  unfolding shrinks_def bindS_def by (fastforce split: prod.splits outcome.splits)

lemma shrinks_basic [shrink_rules]:
  "shrinks (okS v)" "shrinks (failS f)" "shrinks (liftS r)" "shrinks (getS g)" "shrinks next_tok"
  "shrinks (allocS e)" "shrinks (internS n)" "shrinks (push_argsS is)"
  by (auto simp: shrinks_def comput_defs next_tok_def allocS_def internS_def push_argsS_def split: list.splits prod.splits)

lemma shrinks_branch [shrink_rules]:
  "shrinks m \<Longrightarrow> shrinks n \<Longrightarrow> shrinks (if b then m else n)"
  "shrinks k \<Longrightarrow> (\<And>y. shrinks (g y)) \<Longrightarrow> shrinks (case x of None \<Rightarrow> k | Some y \<Rightarrow> g y)"
  "(\<And>a b. shrinks (h a b)) \<Longrightarrow> shrinks (case p of (a, b) \<Rightarrow> h a b)"
  by (auto split: option.splits prod.splits)

lemma shrinks_small [shrink_rules]: "shrinks (expect t msg)" "shrinks skip_comma"
  by (auto simp: expect_def skip_comma_def intro!: shrink_rules)

lemma shrinks_map [shrink_rules]: "shrinks (mapS allocS es)"
  by (induction es) (auto intro!: shrink_rules)

lemma shrinks_negate [shrink_rules]: "shrinks (negate_operand e)"
  by (cases e rule: negatable.cases) (auto simp: negate_operand_def intro!: shrink_rules)

lemma shrinks_field [shrink_rules]: "shrinks (parse_field lhs)"
  unfolding parse_field_def by (intro shrink_rules) (auto split: token.splits intro!: shrink_rules)

lemma shrinks_call [shrink_rules]:
  assumes [shrink_rules]: "\<And>bp. shrinks (sub bp)"
  shows "shrinks (parse_call sub name)"
proof -
  have a [shrink_rules]: "shrinks (parse_args n sub)" for n
    by (induction n) (auto intro!: shrink_rules)
  show ?thesis
    unfolding parse_call_def call_args_def parse_sort_call_args_def parse_filter_call_args_def by (intro shrink_rules)
qed

lemma shrinks_turn:
  assumes [shrink_rules]: "\<And>bp. shrinks (sub bp)" and t: "infix_turn sub bp lhs t = Some p"
  shows "shrinks p"
proof -
  have "shrinks (parse_ternary sub lhs)" "shrinks (parse_binary sub lhs op)" for op
    unfolding parse_ternary_def parse_binary_def by (intro shrink_rules)+
  then show ?thesis
    using t by (auto simp: infix_turn_def shrink_rules split: option.splits token.splits if_splits)
qed

definition takes :: "'a parser \<Rightarrow> bool" where
  "takes p \<longleftrightarrow> (\<exists>f. p = bindS next_tok f \<and> (\<forall>v. shrinks (f v)))"

lemma takesI: "(\<And>v. shrinks (f v)) \<Longrightarrow> takes (bindS next_tok f)"
  by (auto simp: takes_def)

lemma turn_takes:
  assumes s: "\<And>bp. shrinks (sub bp)" and t: "infix_turn sub bp lhs (peek s) = Some p" and p: "p s = (Ok e, s')"
  shows "length (ps_tokens s') < length (ps_tokens s)"
proof -
  obtain k ts where k: "ps_tokens s = k # ts"
    using t by (cases "ps_tokens s") (auto simp: infix_turn_def peek_def)
  have "takes p"
  proof -
    have [shrink_rules]: "shrinks (sub bp)" for bp by (rule s)
    have "takes (parse_ternary sub lhs)" "takes (parse_binary sub lhs op)" for op
      unfolding parse_ternary_def parse_binary_def by (intro takesI shrink_rules)+
    moreover have "takes (parse_field lhs)"
      unfolding parse_field_def by (intro takesI shrink_rules) (auto split: token.splits intro!: shrink_rules)
    ultimately show ?thesis
      using t by (auto simp: infix_turn_def split: option.splits token.splits if_splits)
  qed
  then obtain f where f: "p = bindS next_tok f" "shrinks (f (Some k))" by (auto simp: takes_def)
  have "f (Some k) (drop_token s) = (Ok e, s')"
    using p f k by (simp add: bindS_def next_run)
  then show ?thesis using f(2) k by (fastforce simp: shrinks_def)
qed

lemma shrinks_loop:
  assumes "\<And>bp. shrinks (sub bp)"
  shows "shrinks (infix_loop n sub bp lhs)"
proof (induction n arbitrary: lhs)
  case (Suc n)
  have "shrinks (case infix_turn sub bp lhs t of None \<Rightarrow> okS lhs | Some p \<Rightarrow> bindS p (infix_loop n sub bp))" for t
    by (auto split: option.splits intro!: shrink_rules Suc dest: shrinks_turn [OF assms])
  then show ?case
    unfolding infix_loop.simps by (intro shrinks_bind shrinks_basic)
qed (auto intro: shrink_rules)

lemma shrinks_expr: "shrinks (parse_expr max_depth n bp)"
proof (induction n arbitrary: bp)
  case (Suc n)
  note [shrink_rules] = Suc shrinks_loop [OF Suc]
  have "shrinks (parse_prefix (parse_expr max_depth n) t)" for t
    by (cases "(parse_expr max_depth n, t)" rule: parse_prefix.cases)
      (auto simp: parse_ident_def simp del: One_nat_def intro!: shrink_rules)
  then show ?case
    unfolding parse_expr.simps parse_if_def by (intro shrink_rules)
qed (auto intro: shrink_rules)

lemma loop_fuel:
  assumes "\<And>bp. shrinks (sub bp)" "length (ps_tokens s) < n" "length (ps_tokens s) < m"
  shows "infix_loop n sub bp lhs s = infix_loop m sub bp lhs s"
  using assms(2,3)
proof (induction n arbitrary: m lhs s)
  case (Suc n)
  then obtain m' where m: "m = Suc m'" by (cases m) auto
  show ?case
  proof (cases "infix_turn sub bp lhs (peek s)")
    case (Some p)
    obtain r s' where p: "p s = (r, s')" by fastforce
    have "infix_loop n sub bp v s' = infix_loop m' sub bp v s'" if "r = Ok v" for v
      using turn_takes [OF assms(1) Some, of v s'] p that Suc.prems by (intro Suc.IH) (auto simp: m)
    then have "(case p s of (Ok v, s') \<Rightarrow> infix_loop n sub bp v s' | (Fail e, s') \<Rightarrow> (Fail e, s'))
        = (case p s of (Ok v, s') \<Rightarrow> infix_loop m' sub bp v s' | (Fail e, s') \<Rightarrow> (Fail e, s'))"
      by (simp add: p split: outcome.splits)
    then show ?thesis by (simp add: m bindS_def getS_def Some)
  qed (simp add: m bindS_def getS_def okS_def)
qed simp

section \<open>What is printed is parsed\<close>

declare parse_expr.simps [simp del] infix_loop.simps [simp del]

definition bp_of :: "token \<Rightarrow> nat option" where
  "bp_of k = (if k = KDot then Some 50 else if k = KQuestion then Some 0
     else map_option (\<lambda>op. fst (infix_binding_power op)) (infix_op k))"

text \<open>The text after an operand of power \<open>q\<close>: no operator that would take part of it away.\<close>

definition follow :: "nat \<Rightarrow> token list \<Rightarrow> bool" where
  "follow q rest \<longleftrightarrow> (case rest of [] \<Rightarrow> True
     | k # _ \<Rightarrow> k \<noteq> KLParen \<and> (\<forall>b \<in> set_option (bp_of k). 0 < q \<and> b \<le> q))"

definition stops :: "nat \<Rightarrow> token list \<Rightarrow> bool" where
  "stops p rest \<longleftrightarrow> (case rest of [] \<Rightarrow> True | k # _ \<Rightarrow> \<forall>b \<in> set_option (bp_of k). b < p)"

lemma loop_stops: "stops p (ps_tokens s) \<Longrightarrow> infix_loop (Suc n) sub p e s = (Ok e, s)"
  by (auto simp: infix_loop.simps stops_def bp_of_def infix_turn_def peek_def comput_defs split: list.splits token.splits)

definition reads :: "nat \<Rightarrow> nat \<Rightarrow> syn \<Rightarrow> bool" where
  "reads d q x \<longleftrightarrow> (\<forall>left p s rest.
     levels q x \<le> left \<longrightarrow> p \<le> q \<longrightarrow> ready s \<longrightarrow> ps_tokens s = print_syn q x @ rest \<longrightarrow> follow q rest \<longrightarrow>
     (\<exists>e s'. steps 2 s s' \<and> ps_tokens s' = rest \<and> means s' e x
        \<and> (\<forall>n. length rest < n \<longrightarrow> parse_expr d (Suc left) p s = infix_loop n (parse_expr d left) p e s')))"

lemma readsD:
  assumes "reads d q x" "levels q x \<le> left" "p \<le> q" "ready s" "ps_tokens s = print_syn q x @ rest" "follow q rest"
  obtains e s' where "steps 2 s s'" "ps_tokens s' = rest" "means s' e x"
    "\<And>n. length rest < n \<Longrightarrow> parse_expr d (Suc left) p s = infix_loop n (parse_expr d left) p e s'"
  using assms unfolding reads_def by blast

lemma reads_stop:
  assumes "reads d q x" "levels q x \<le> left" "p \<le> q" "ready s" "ps_tokens s = print_syn q x @ rest" "follow q rest" "stops p rest"
  obtains e s' where "steps 2 s s'" "ps_tokens s' = rest" "means s' e x" "parse_expr d (Suc left) p s = (Ok e, s')"
proof -
  obtain e s' where r: "steps 2 s s'" "ps_tokens s' = rest" "means s' e x"
    "\<And>n. length rest < n \<Longrightarrow> parse_expr d (Suc left) p s = infix_loop n (parse_expr d left) p e s'"
    using readsD [OF assms(1-6)] by blast
  have "parse_expr d (Suc left) p s = (Ok e, s')"
    using r(4) [of "Suc (length rest)"] loop_stops [of p s'] assms(7) r(2) by simp
  with r(1-3) that show thesis by blast
qed

lemma expr_prefix:
  assumes "ps_tokens s = k # ts" "k \<noteq> KIdent ''if''" "parse_prefix (parse_expr d left) (Some k) (drop_token s) = (Ok e, s')"
    and "length (ps_tokens s') < n"
  shows "parse_expr d (Suc left) p s = infix_loop n (parse_expr d left) p e s'"
proof -
  have "parse_expr d (Suc left) p s = infix_loop (Suc (length (ps_tokens s'))) (parse_expr d left) p e s'"
    using assms(1-3) by (simp add: parse_expr.simps bindS_def getS_def next_run)
  also have "\<dots> = infix_loop n (parse_expr d left) p e s'"
    by (rule loop_fuel [OF shrinks_expr _ assms(4)]) simp
  finally show ?thesis .
qed

text \<open>An operand that begins with a token of its own.\<close>

lemma reads_prefix:
  assumes "\<And>left s rest. levels q x \<le> left \<Longrightarrow> ready s \<Longrightarrow> ps_tokens s = print_syn q x @ rest \<Longrightarrow> follow q rest \<Longrightarrow>
      \<exists>k ts e s'. ps_tokens s = k # ts \<and> k \<noteq> KIdent ''if'' \<and>
        parse_prefix (parse_expr d left) (Some k) (drop_token s) = (Ok e, s') \<and>
        steps 2 s s' \<and> ps_tokens s' = rest \<and> means s' e x"
  shows "reads d q x"
  unfolding reads_def
proof (intro allI impI)
  fix left p s rest
  assume a: "levels q x \<le> left" "p \<le> q" "ready s" "ps_tokens s = print_syn q x @ rest" "follow q rest"
  obtain k ts e s' where k: "ps_tokens s = k # ts" "k \<noteq> KIdent ''if''"
      "parse_prefix (parse_expr d left) (Some k) (drop_token s) = (Ok e, s')" "steps 2 s s'" "ps_tokens s' = rest" "means s' e x"
    using assms [OF a(1,3-5)] by blast
  then show "\<exists>e s'. steps 2 s s' \<and> ps_tokens s' = rest \<and> means s' e x
      \<and> (\<forall>n. length rest < n \<longrightarrow> parse_expr d (Suc left) p s = infix_loop n (parse_expr d left) p e s')"
    using expr_prefix [OF k(1-3), of _ p] by blast
qed

lemma expect_run: "ps_tokens s = t # ts \<Longrightarrow> expect t msg s = (Ok (), drop_token s)"
  by (simp add: expect_def bindS_def next_run okS_def)

lemma steps_drop: "steps k s s1 \<Longrightarrow> ps_tokens s1 = t # ts \<Longrightarrow> steps (k + 3) s (drop_token s1)"
  using steps_trans [OF _ drop_steps] by (auto simp: steps_def ready_def cost_def drop_token_def keeps_def)

lemma means_drop [simp]: "means (drop_token s) e x = means s e x"
  by (simp add: means_def drop_token_def)

lemma steps_ready: "steps k s s' \<Longrightarrow> ready s'"
  by (simp add: steps_def)

lemma reads_wrapped:
  assumes x: "reads d 0 x" and pr: "print_syn q x = KLParen # print_syn 0 x @ [KRParen]" and lv: "levels q x = Suc (levels 0 x)"
  shows "reads d q x"
proof (rule reads_prefix)
  fix left s rest
  assume a: "levels q x \<le> left" "ready s" "ps_tokens s = print_syn q x @ rest" "follow q rest"
  obtain left' where left: "left = Suc left'" "levels 0 x \<le> left'" using a(1) lv by (cases left) auto
  let ?s = "drop_token s"
  have s: "ps_tokens s = KLParen # print_syn 0 x @ KRParen # rest" using a(3) pr by simp
  have d: "steps 3 s ?s" using drop_steps [OF a(2) s] .
  obtain e s1 where e: "steps 2 ?s s1" "ps_tokens s1 = KRParen # rest" "means s1 e x" "parse_expr d (Suc left') 0 ?s = (Ok e, s1)"
    by (rule reads_stop [OF x left(2) order_refl steps_ready [OF d], of "KRParen # rest"])
      (use s in \<open>simp_all add: follow_def stops_def bp_of_def\<close>)
  have "parse_prefix (parse_expr d left) (Some KLParen) ?s = (Ok e, drop_token s1)"
    using e(4) expect_run [OF e(2)] by (simp add: left bindS_def okS_def)
  moreover have "steps 2 s (drop_token s1)"
    using steps_weaken [OF steps_trans [OF d steps_drop [OF e(1,2)]]] by simp
  ultimately show "\<exists>k ts e s'. ps_tokens s = k # ts \<and> k \<noteq> KIdent ''if'' \<and>
      parse_prefix (parse_expr d left) (Some k) (drop_token s) = (Ok e, s') \<and>
      steps 2 s s' \<and> ps_tokens s' = rest \<and> means s' e x"
    using s e(2,3) by auto
qed

lemma reads_literal:
  assumes "print_syn q x = [k]" "\<And>n. k \<noteq> KIdent n"
    and "\<And>sub s. parse_prefix sub (Some k) s = (Ok (ELiteral v), s)" "\<And>t ar. denotes t ar (ELiteral v) x"
  shows "reads d q x"
proof (rule reads_prefix)
  fix left s rest
  assume a: "ready s" "ps_tokens s = print_syn q x @ rest"
  then have "ps_tokens s = k # rest" using assms(1) by simp
  with assms(2,3,4) steps_weaken [OF drop_steps [OF a(1) this], of 2]
  show "\<exists>k ts e s'. ps_tokens s = k # ts \<and> k \<noteq> KIdent ''if'' \<and>
      parse_prefix (parse_expr d left) (Some k) (drop_token s) = (Ok e, s') \<and>
      steps 2 s s' \<and> ps_tokens s' = rest \<and> means s' e x"
    by (auto simp: means_def)
qed

lemma reads_var:
  assumes "n \<noteq> ''if''"
  shows "reads d q (XVar n)"
proof (rule reads_prefix)
  fix left s rest
  assume a: "ready s" "ps_tokens s = print_syn q (XVar n) @ rest" "follow q rest"
  let ?s = "drop_token s"
  have s: "ps_tokens s = KIdent n # rest" using a(2) by simp
  have "steps (Suc 2) s ?s" using drop_steps [OF a(1) s] by (simp add: numeral_3_eq_3 numeral_2_eq_2)
  then obtain y s2 where i: "internS n ?s = (Ok y, s2)" "resolve (ps_interner s2) y = Some n"
    "ps_tokens s2 = ps_tokens ?s" "steps 2 s s2" by (rule steps_intern [where n = n])
  have "peek ?s \<noteq> Some KLParen" using a(3) s by (auto simp: peek_def follow_def split: list.splits)
  then have "parse_prefix (parse_expr d left) (Some (KIdent n)) ?s = (Ok (EVariable y), s2)"
    using i(1) by (simp add: parse_ident_def comput_defs)
  then show "\<exists>k ts e s'. ps_tokens s = k # ts \<and> k \<noteq> KIdent ''if'' \<and>
      parse_prefix (parse_expr d left) (Some k) (drop_token s) = (Ok e, s') \<and>
      steps 2 s s' \<and> ps_tokens s' = rest \<and> means s' e (XVar n)"
    using s i assms denotes.var [OF i(2)] by (auto simp: means_def)
qed

lemma follow_mono: "follow q rest \<Longrightarrow> q \<le> q' \<Longrightarrow> follow q' rest"
  by (fastforce simp: follow_def split: list.splits)

lemma follow_stops: "follow q rest \<Longrightarrow> q < p \<or> p = 0 \<Longrightarrow> q \<le> p \<Longrightarrow> stops p rest"
  by (fastforce simp: follow_def stops_def split: list.splits)

lemma bp_of_30: "bp_of k = Some b \<Longrightarrow> b \<noteq> 30"
  by (cases k) (auto simp: bp_of_def)

lemma follow_stops_30: "follow q rest \<Longrightarrow> q \<le> 30 \<Longrightarrow> stops 30 rest"
  by (auto simp: follow_def stops_def le_less split: list.splits dest: bp_of_30)

text \<open>The operand of a prefix operator.\<close>

lemma unary_operand:
  assumes x: "reads d 30 x" and s: "ps_tokens s = k # print_syn 30 x @ rest" and l: "Suc (levels 30 x) \<le> left"
    and r: "ready s" and f: "follow q rest" "q \<le> 30"
  obtains e s' where "steps 5 s s'" "ps_tokens s' = rest" "means s' e x" "parse_expr d left 30 (drop_token s) = (Ok e, s')"
proof -
  obtain left' where left: "left = Suc left'" "levels 30 x \<le> left'" using l by (cases left) auto
  let ?s = "drop_token s"
  have d: "steps 3 s ?s" using drop_steps [OF r s] .
  obtain e s' where e: "steps 2 ?s s'" "ps_tokens s' = rest" "means s' e x" "parse_expr d (Suc left') 30 ?s = (Ok e, s')"
    by (rule reads_stop [OF x left(2) order_refl steps_ready [OF d], of rest])
      (use s f follow_mono follow_stops_30 in auto)
  show thesis using that e steps_trans [OF d e(1)] by (auto simp: left)
qed

lemma reads_not:
  assumes x: "reads d 30 x" and q: "q \<le> 30"
  shows "reads d q (XNot x)"
proof (rule reads_prefix)
  fix left s rest
  assume a: "levels q (XNot x) \<le> left" "ready s" "ps_tokens s = print_syn q (XNot x) @ rest" "follow q rest"
  have s: "ps_tokens s = KBang # print_syn 30 x @ rest" and l: "Suc (levels 30 x) \<le> left"
    using a(1,3) q by (auto simp: wrap_def)
  obtain e s1 where e: "steps 5 s s1" "ps_tokens s1 = rest" "means s1 e x" "parse_expr d left 30 (drop_token s) = (Ok e, s1)"
    by (rule unary_operand [OF x s l a(2,4) q])
  have "steps (Suc 4) s s1" using e(1) by simp
  then obtain i s2 where i: "allocS e s1 = (Ok i, s2)" "stored s2 i e" "ps_tokens s2 = ps_tokens s1" "steps 4 s s2"
    "\<And>f x. means s1 f x \<Longrightarrow> means s2 f x" by (rule steps_alloc [where e = e]) blast
  have "parse_prefix (parse_expr d left) (Some KBang) (drop_token s) = (Ok (ENot i), s2)"
    using e(4) i(1) by (simp add: comput_defs)
  moreover have "means s2 (ENot i) (XNot x)"
    using i(2) i(5) [OF e(3)] by (auto simp: means_def stored_def intro: denotes.not)
  ultimately show "\<exists>k ts e s'. ps_tokens s = k # ts \<and> k \<noteq> KIdent ''if'' \<and>
      parse_prefix (parse_expr d left) (Some k) (drop_token s) = (Ok e, s') \<and>
      steps 2 s s' \<and> ps_tokens s' = rest \<and> means s' e (XNot x)"
    using s e(2) i(3) steps_weaken [OF i(4), of 2] by auto
qed

lemma reads_neg:
  assumes x: "reads d 30 x" and q: "q \<le> 30" and n: "\<forall>v \<in> set_option (number_of x). negatable (ELiteral v)"
  shows "reads d q (XNeg x)"
proof (rule reads_prefix)
  fix left s rest
  assume a: "levels q (XNeg x) \<le> left" "ready s" "ps_tokens s = print_syn q (XNeg x) @ rest" "follow q rest"
  have s: "ps_tokens s = KMinus # print_syn 30 x @ rest" and l: "Suc (levels 30 x) \<le> left"
    using a(1,3) q by (auto simp: wrap_def)
  obtain e s1 where e: "steps 5 s s1" "ps_tokens s1 = rest" "means s1 e x" "parse_expr d left 30 (drop_token s) = (Ok e, s1)"
    by (rule unary_operand [OF x s l a(2,4) q])
  have "\<exists>e' s'. negate_operand e s1 = (Ok e', s') \<and> steps 2 s s' \<and> ps_tokens s' = rest \<and> means s' e' (XNeg x)"
  proof (cases "\<exists>k. e = ELiteral (VInt k) \<or> e = ELiteral (VDecimal k)")
    case True
    then show ?thesis
      using e(1-3) n denotes_number [of _ _ e x] steps_weaken [OF e(1), of 2]
      by (auto simp: negate_operand_def comput_defs negate_i64_def means_def intro: denotes.intros)
  next
    case False
    have "steps (Suc 4) s s1" using e(1) by simp
    then obtain i s2 where i: "allocS (ELiteral (VInt 0)) s1 = (Ok i, s2)" "stored s2 i (ELiteral (VInt 0))"
      "ps_tokens s2 = ps_tokens s1" "steps 4 s s2" "\<And>f x. means s1 f x \<Longrightarrow> means s2 f x"
      by (rule steps_alloc [where e = "ELiteral (VInt 0)"]) blast
    have "steps (Suc 3) s s2" using i(4) by simp
    then obtain j s3 where j: "allocS e s2 = (Ok j, s3)" "stored s3 j e" "ps_tokens s3 = ps_tokens s2" "steps 3 s s3"
      "\<And>k f. stored s2 k f \<Longrightarrow> stored s3 k f" "\<And>f x. means s2 f x \<Longrightarrow> means s3 f x"
      by (rule steps_alloc [where e = e]) blast
    have "negate_operand e s1 = (Ok (EBinaryOp i Sub j), s3)"
      using False i(1) j(1) by (cases e rule: negatable.cases) (auto simp: negate_operand_def comput_defs)
    moreover have "means s3 (EBinaryOp i Sub j) (XNeg x)"
      using False j(2) j(5) [OF i(2)] j(6) [OF i(5) [OF e(3)]]
      by (auto simp: means_def stored_def intro!: denotes.neg)
    ultimately show ?thesis using e(2) i(3) j(3) steps_weaken [OF j(4), of 2] by auto
  qed
  then show "\<exists>k ts e s'. ps_tokens s = k # ts \<and> k \<noteq> KIdent ''if'' \<and>
      parse_prefix (parse_expr d left) (Some k) (drop_token s) = (Ok e, s') \<and>
      steps 2 s s' \<and> ps_tokens s' = rest \<and> means s' e (XNeg x)"
    using s e(4) by (auto simp: bindS_def)
qed

text \<open>An operator after an operand: one turn of the loop.\<close>

lemma loop_turn:
  assumes "infix_turn sub p e (peek s) = Some m" "m s = (Ok e', s')" "\<And>bp. shrinks (sub bp)" "length (ps_tokens s') < n"
    and "length (ps_tokens s) < k"
  shows "infix_loop k sub p e s = infix_loop n sub p e' s'"
proof -
  obtain k' where k: "k = Suc k'" using assms(5) by (cases k) auto
  have "length (ps_tokens s') < length (ps_tokens s)"
    using turn_takes [OF assms(3,1,2)] .
  then have "infix_loop k' sub p e' s' = infix_loop n sub p e' s'"
    using assms(4,5) k by (intro loop_fuel [OF assms(3)]) auto
  then show ?thesis using assms(1,2) k by (simp add: infix_loop.simps bindS_def getS_def)
qed

lemma reads_field:
  assumes x: "reads d 50 x" and q: "q \<le> 50"
  shows "reads d q (XField x f)"
  unfolding reads_def
proof (intro allI impI)
  fix left p s rest
  assume a: "levels q (XField x f) \<le> left" "p \<le> q" "ready s" "ps_tokens s = print_syn q (XField x f) @ rest" "follow q rest"
  let ?sub = "parse_expr d left"
  obtain e s1 where e: "steps 2 s s1" "ps_tokens s1 = KDot # KIdent f # rest" "means s1 e x"
    "\<And>n. length (KDot # KIdent f # rest) < n \<Longrightarrow> parse_expr d (Suc left) p s = infix_loop n ?sub p e s1"
    by (rule readsD [OF x, of left p s "KDot # KIdent f # rest"]) (use a q in \<open>auto simp: follow_def bp_of_def\<close>)
  let ?s2 = "drop_token s1" and ?s3 = "drop_token (drop_token s1)"
  have t2: "ps_tokens ?s2 = KIdent f # rest" using e(2) by simp
  have "steps (Suc 7) s ?s3" using steps_drop [OF steps_drop [OF e(1,2)] t2] by simp
  then obtain y s4 where y: "internS f ?s3 = (Ok y, s4)" "resolve (ps_interner s4) y = Some f" "ps_tokens s4 = ps_tokens ?s3"
    "steps 7 s s4" "\<And>e x. means ?s3 e x \<Longrightarrow> means s4 e x"
    by (rule steps_intern [where n = f]) blast
  have "steps (Suc 6) s s4" using y(4) by simp
  then obtain i s5 where i: "allocS e s4 = (Ok i, s5)" "stored s5 i e" "ps_tokens s5 = ps_tokens s4" "steps 6 s s5"
    "\<And>f x. means s4 f x \<Longrightarrow> means s5 f x" "ps_interner s5 = ps_interner s4"
    by (rule steps_alloc [where e = e]) blast
  let ?e = "EFieldAccess i y (hash_field f)"
  have run: "parse_field e s1 = (Ok ?e, s5)"
    using e(2) t2 y(1,2) i(1,6) by (simp add: parse_field_def bindS_def next_run getS_def okS_def)
  have turn: "infix_turn ?sub p e (peek s1) = Some (parse_field e)"
    using a(2) q e(2) by (simp add: infix_turn_def peek_def)
  have rest: "ps_tokens s5 = rest" using i(3) y(3) t2 by simp
  have "means s5 e x" using i(5) [OF y(5)] e(3) by simp
  then have "means s5 ?e (XField x f)"
    using i(2,6) y(2) by (auto simp: means_def stored_def intro!: denotes.field)
  moreover have "parse_expr d (Suc left) p s = infix_loop n ?sub p ?e s5" if "length rest < n" for n
    using e(4) [of "Suc (length (ps_tokens s1))"] loop_turn [OF turn run shrinks_expr, of n] that rest e(2) by simp
  ultimately show "\<exists>e s'. steps 2 s s' \<and> ps_tokens s' = rest \<and> means s' e (XField x f)
      \<and> (\<forall>n. length rest < n \<longrightarrow> parse_expr d (Suc left) p s = infix_loop n ?sub p e s')"
    using rest steps_weaken [OF i(4), of 2] by auto
qed

lemma binding_powers:
  "0 < fst (infix_binding_power op)" "snd (infix_binding_power op) = Suc (fst (infix_binding_power op))"
  "fst (infix_binding_power op) \<le> 20"
  by (cases op; simp)+

lemma bp_of_op [simp]: "bp_of (op_token op) = Some (fst (infix_binding_power op))"
  by (cases op) (auto simp: bp_of_def)

lemma op_token_not_paren [simp]: "op_token op \<noteq> KLParen"
  by (cases op) auto

lemma reads_bin:
  assumes l: "reads d (fst (infix_binding_power op)) l" and r: "reads d (snd (infix_binding_power op)) r"
    and q: "q \<le> fst (infix_binding_power op)"
  shows "reads d q (XBin l op r)"
  unfolding reads_def
proof (intro allI impI)
  fix left p s rest
  assume a: "levels q (XBin l op r) \<le> left" "p \<le> q" "ready s" "ps_tokens s = print_syn q (XBin l op r) @ rest" "follow q rest"
  let ?lb = "fst (infix_binding_power op)" and ?rb = "snd (infix_binding_power op)"
  let ?sub = "parse_expr d left" and ?mid = "op_token op # print_syn ?rb r @ rest"
  obtain left' where left: "left = Suc left'" "levels ?rb r \<le> left'" using a(1) q by (cases left) auto
  obtain e s1 where e: "steps 2 s s1" "ps_tokens s1 = ?mid" "means s1 e l"
    "\<And>n. length ?mid < n \<Longrightarrow> parse_expr d (Suc left) p s = infix_loop n ?sub p e s1"
    by (rule readsD [OF l, of left p s ?mid]) (use a q binding_powers [of op] in \<open>auto simp: follow_def wrap_def\<close>)
  let ?s2 = "drop_token s1"
  have d: "steps 5 s ?s2" using steps_drop [OF e(1,2)] by simp
  have f: "follow ?rb rest" "stops ?rb rest"
    using follow_mono [OF a(5), of ?rb] follow_stops [OF a(5), of ?rb] binding_powers(2) [of op] q by auto
  obtain e2 s3 where e2: "steps 2 ?s2 s3" "ps_tokens s3 = rest" "means s3 e2 r" "parse_expr d (Suc left') ?rb ?s2 = (Ok e2, s3)"
    by (rule reads_stop [OF r left(2) order_refl steps_ready [OF d] _ f]) (use e(2) in auto)
  have m: "means s3 e l" using steps_means [OF e(3) steps_drop [OF steps_refl e(2)]] steps_means [OF _ e2(1)] e(3) by simp
  have "steps (Suc 6) s s3" using steps_trans [OF d e2(1)] by simp
  then obtain i s4 where i: "allocS e s3 = (Ok i, s4)" "stored s4 i e" "ps_tokens s4 = ps_tokens s3" "steps 6 s s4"
    "\<And>f x. means s3 f x \<Longrightarrow> means s4 f x" by (rule steps_alloc [where e = e]) blast
  have "steps (Suc 5) s s4" using i(4) by simp
  then obtain j s5 where j: "allocS e2 s4 = (Ok j, s5)" "stored s5 j e2" "ps_tokens s5 = ps_tokens s4" "steps 5 s s5"
    "\<And>k f. stored s4 k f \<Longrightarrow> stored s5 k f" "\<And>f x. means s4 f x \<Longrightarrow> means s5 f x" by (rule steps_alloc [where e = e2]) blast
  let ?e = "EBinaryOp i op j"
  have run: "parse_binary ?sub e op s1 = (Ok ?e, s5)"
    using e(2) e2(4) i(1) j(1) left(1) by (simp add: parse_binary_def bindS_def next_run okS_def)
  have turn: "infix_turn ?sub p e (peek s1) = Some (parse_binary ?sub e op)"
    using a(2) q e(2) by (cases op) (auto simp: infix_turn_def peek_def)
  have rest: "ps_tokens s5 = rest" using i(3) j(3) e2(2) by simp
  have "means s5 ?e (XBin l op r)"
    using j(2) j(5) [OF i(2)] j(6) [OF i(5) [OF m]] j(6) [OF i(5) [OF e2(3)]]
    by (auto simp: means_def stored_def intro!: denotes.bin)
  moreover have "parse_expr d (Suc left) p s = infix_loop n ?sub p ?e s5" if "length rest < n" for n
    using e(4) [of "Suc (length (ps_tokens s1))"] loop_turn [OF turn run shrinks_expr, of n] that rest e(2) by simp
  ultimately show "\<exists>e s'. steps 2 s s' \<and> ps_tokens s' = rest \<and> means s' e (XBin l op r)
      \<and> (\<forall>n. length rest < n \<longrightarrow> parse_expr d (Suc left) p s = infix_loop n ?sub p e s')"
    using rest steps_weaken [OF j(4), of 2] by auto
qed

lemma reads_if:
  assumes c: "reads d 1 c" and x: "reads d 0 x" and y: "reads d 0 y"
  shows "reads d 0 (XIf c x y)"
  unfolding reads_def
proof (intro allI impI)
  fix left p :: nat and s rest
  assume a: "levels 0 (XIf c x y) \<le> left" "p \<le> 0" "ready s" "ps_tokens s = print_syn 0 (XIf c x y) @ rest" "follow 0 rest"
  let ?sub = "parse_expr d left" and ?mid = "KQuestion # print_syn 0 x @ KColon # print_syn 0 y @ rest"
  obtain left' where left: "left = Suc left'" "levels 0 x \<le> left'" "levels 0 y \<le> left'" using a(1) by (cases left) auto
  obtain e s1 where e: "steps 2 s s1" "ps_tokens s1 = ?mid" "means s1 e c"
    "\<And>n. length ?mid < n \<Longrightarrow> parse_expr d (Suc left) p s = infix_loop n ?sub p e s1"
    by (rule readsD [OF c, of left p s ?mid]) (use a in \<open>auto simp: follow_def bp_of_def wrap_def\<close>)
  let ?s2 = "drop_token s1"
  have d: "steps 5 s ?s2" using steps_drop [OF e(1,2)] by simp
  obtain ex s3 where ex: "steps 2 ?s2 s3" "ps_tokens s3 = KColon # print_syn 0 y @ rest" "means s3 ex x"
    "parse_expr d (Suc left') 0 ?s2 = (Ok ex, s3)"
    by (rule reads_stop [OF x left(2) order_refl steps_ready [OF d], of "KColon # print_syn 0 y @ rest"])
      (use e(2) in \<open>auto simp: follow_def stops_def bp_of_def\<close>)
  let ?s4 = "drop_token s3"
  have d4: "steps 10 s ?s4" using steps_drop [OF steps_trans [OF d ex(1)] ex(2)] by simp
  obtain ey s5 where ey: "steps 2 ?s4 s5" "ps_tokens s5 = rest" "means s5 ey y" "parse_expr d (Suc left') 0 ?s4 = (Ok ey, s5)"
    by (rule reads_stop [OF y left(3) order_refl steps_ready [OF d4] _ a(5)])
      (use ex(2) follow_stops [OF a(5), of 0] in auto)
  have m: "means s5 e c" "means s5 ex x"
    using steps_means [OF _ ey(1)] steps_means [OF _ ex(1)] e(3) ex(3) by simp_all
  have "steps (Suc 11) s s5" using steps_trans [OF d4 ey(1)] by simp
  then obtain i s6 where i: "allocS e s5 = (Ok i, s6)" "stored s6 i e" "ps_tokens s6 = ps_tokens s5" "steps 11 s s6"
    "\<And>f x. means s5 f x \<Longrightarrow> means s6 f x" by (rule steps_alloc [where e = e]) blast
  have "steps (Suc 10) s s6" using i(4) by simp
  then obtain j s7 where j: "allocS ex s6 = (Ok j, s7)" "stored s7 j ex" "ps_tokens s7 = ps_tokens s6" "steps 10 s s7"
    "\<And>k f. stored s6 k f \<Longrightarrow> stored s7 k f" "\<And>f x. means s6 f x \<Longrightarrow> means s7 f x" by (rule steps_alloc [where e = ex]) blast
  have "steps (Suc 9) s s7" using j(4) by simp
  then obtain k s8 where k: "allocS ey s7 = (Ok k, s8)" "stored s8 k ey" "ps_tokens s8 = ps_tokens s7" "steps 9 s s8"
    "\<And>k f. stored s7 k f \<Longrightarrow> stored s8 k f" "\<And>f x. means s7 f x \<Longrightarrow> means s8 f x" by (rule steps_alloc [where e = ey]) blast
  let ?e = "EIfElse i j k"
  have run: "parse_ternary ?sub e s1 = (Ok ?e, s8)"
    using e(2) ex(4) ey(4) i(1) j(1) k(1) left(1) expect_run [OF ex(2)]
    by (simp add: parse_ternary_def bindS_def next_run okS_def)
  have turn: "infix_turn ?sub p e (peek s1) = Some (parse_ternary ?sub e)"
    using a(2) e(2) by (auto simp: infix_turn_def peek_def)
  have rest: "ps_tokens s8 = rest" using i(3) j(3) k(3) ey(2) by simp
  have "means s8 ?e (XIf c x y)"
    using k(2) k(5) [OF j(2)] k(5) [OF j(5) [OF i(2)]] k(6) [OF j(6) [OF i(5) [OF m(1)]]] k(6) [OF j(6) [OF i(5) [OF m(2)]]]
      k(6) [OF j(6) [OF i(5) [OF ey(3)]]]
    by (auto simp: means_def stored_def intro!: denotes.cond)
  moreover have "parse_expr d (Suc left) p s = infix_loop n ?sub p ?e s8" if "length rest < n" for n
    using e(4) [of "Suc (length (ps_tokens s1))"] loop_turn [OF turn run shrinks_expr, of n] that rest e(2) by simp
  ultimately show "\<exists>e s'. steps 2 s s' \<and> ps_tokens s' = rest \<and> means s' e (XIf c x y)
      \<and> (\<forall>n. length rest < n \<longrightarrow> parse_expr d (Suc left) p s = infix_loop n ?sub p e s')"
    using rest steps_weaken [OF k(4), of 2] by auto
qed

lemma print_syn_head: "\<exists>k ts. print_syn q x = k # ts \<and> k \<noteq> KRParen"
proof (induction q x rule: print_syn.induct)
  case (8 q l op r)
  then show ?case by (fastforce simp: wrap_def)
next
  case (9 q c a b)
  then show ?case by (fastforce simp: wrap_def)
next
  case (10 q x n)
  then show ?case by fastforce
qed (auto simp: wrap_def)

definition separated :: "token list list \<Rightarrow> token list" where
  "separated tss = (if tss = [] then [] else KComma # commas tss)"

lemma commas_Cons: "commas (ts # tss) = ts @ separated tss"
  by (cases tss) (simp_all add: separated_def)

lemma args_run:
  assumes "\<And>x. x \<in> set xs \<Longrightarrow> reads d 0 x \<and> levels 0 x \<le> left" "ready s"
    and "ps_tokens s = commas (map (print_syn 0) xs) @ KRParen # rest" "length xs < n"
  shows "\<exists>es s'. parse_args n (parse_expr d (Suc left)) s = (Ok es, s') \<and> steps (2 * length xs) s s'
      \<and> ps_tokens s' = KRParen # rest \<and> list_all2 (means s') es xs"
  using assms
proof (induction xs arbitrary: s n)
  case Nil
  then obtain m where "n = Suc m" by (cases n) auto
  then show ?case using Nil steps_refl by (auto simp: bindS_def getS_def peek_def okS_def)
next
  case (Cons x xs)
  obtain m where n: "n = Suc m" "length xs < m" using Cons.prems(4) by (cases n) auto
  let ?tail = "separated (map (print_syn 0) xs) @ KRParen # rest"
  have toks: "ps_tokens s = print_syn 0 x @ ?tail" using Cons.prems(3) by (simp add: commas_Cons)
  obtain e s1 where e: "steps 2 s s1" "ps_tokens s1 = ?tail" "means s1 e x" "parse_expr d (Suc left) 0 s = (Ok e, s1)"
    by (rule reads_stop [of d 0 x left 0 s ?tail])
      (use Cons.prems toks in \<open>auto simp: follow_def stops_def separated_def bp_of_def\<close>)
  obtain s2 where s2: "skip_comma s1 = (Ok (), s2)" "ps_tokens s2 = commas (map (print_syn 0) xs) @ KRParen # rest"
    "steps 0 s1 s2" "\<And>f y. means s2 f y = means s1 f y"
  proof (cases xs)
    case Nil
    have "skip_comma s1 = (Ok (), s1)"
      using e(2) Nil by (simp add: skip_comma_def bindS_def getS_def peek_def okS_def separated_def)
    then show thesis using that [of s1] e(2) Nil steps_refl [OF steps_ready [OF e(1)]] by (simp add: separated_def)
  next
    case (Cons y ys)
    then have t: "ps_tokens s1 = KComma # commas (map (print_syn 0) xs) @ KRParen # rest"
      using e(2) by (simp add: separated_def)
    have "skip_comma s1 = (Ok (), drop_token s1)"
      using t by (simp add: skip_comma_def bindS_def getS_def peek_def okS_def next_run)
    then show thesis using that [of "drop_token s1"] t drop_steps [OF steps_ready [OF e(1)] t] steps_weaken by auto
  qed
  obtain es s3 where es: "parse_args m (parse_expr d (Suc left)) s2 = (Ok es, s3)" "steps (2 * length xs) s2 s3"
    "ps_tokens s3 = KRParen # rest" "list_all2 (means s3) es xs"
    using Cons.IH [OF _ steps_ready [OF s2(3)] s2(2) n(2)] Cons.prems(1) by auto
  have "peek s \<noteq> Some KRParen \<and> peek s \<noteq> None"
    using print_syn_head [of 0 x] toks by (auto simp: peek_def)
  then have "parse_args n (parse_expr d (Suc left)) s = (Ok (e # es), s3)"
    using e(4) s2(1) es(1) n(1) by (simp add: bindS_def getS_def okS_def)
  moreover have "steps (2 * length (x # xs)) s s3"
    using steps_trans [OF steps_trans [OF e(1) s2(3)] es(2)] by (simp add: algebra_simps)
  moreover have "means s3 e x"
    using steps_means [OF _ es(2)] s2(4) e(3) by simp
  ultimately show ?case using es(3,4) by auto
qed

lemma alloc_all:
  assumes "steps (length es + k) s s1"
  shows "\<exists>ids s2. mapS allocS es s1 = (Ok ids, s2) \<and> list_all2 (stored s2) ids es \<and> ps_tokens s2 = ps_tokens s1
     \<and> steps k s s2 \<and> steps 0 s2 s2 \<and> (\<forall>f x. means s1 f x \<longrightarrow> means s2 f x) \<and> (\<forall>j f. stored s1 j f \<longrightarrow> stored s2 j f)"
  using assms
proof (induction es arbitrary: s1)
  case Nil
  then show ?case using steps_refl [OF steps_ready] by (auto simp: okS_def)
next
  case (Cons e es)
  have "steps (Suc (length es + k)) s s1" using Cons.prems by simp
  then obtain i s2 where i: "allocS e s1 = (Ok i, s2)" "stored s2 i e" "ps_tokens s2 = ps_tokens s1" "steps (length es + k) s s2"
    "\<And>j f. stored s1 j f \<Longrightarrow> stored s2 j f" "\<And>f x. means s1 f x \<Longrightarrow> means s2 f x" by (rule steps_alloc [where e = e]) blast
  obtain ids s3 where ids: "mapS allocS es s2 = (Ok ids, s3)" "list_all2 (stored s3) ids es" "ps_tokens s3 = ps_tokens s2"
    "steps k s s3" "steps 0 s3 s3" "\<forall>f x. means s2 f x \<longrightarrow> means s3 f x" "\<forall>j f. stored s2 j f \<longrightarrow> stored s3 j f"
    using Cons.IH [OF i(4)] by blast
  have "mapS allocS (e # es) s1 = (Ok (i # ids), s3)" using i(1) ids(1) by (simp add: bindS_def okS_def)
  then show ?case using i ids by auto
qed

lemma push_run:
  assumes "steps (length ids + k) s s1"
  shows "\<exists>st s2. push_argsS ids s1 = (Ok (st, length ids), s2) \<and> arena_args (ps_arena s2) st (length ids) = Ok ids
     \<and> ps_tokens s2 = ps_tokens s1 \<and> steps k s s2 \<and> (\<forall>f x. means s1 f x \<longrightarrow> means s2 f x) \<and> (\<forall>j f. stored s1 j f \<longrightarrow> stored s2 j f)"
proof -
  let ?ar = "ps_arena s1"
  have l: "length (args_pool ?ar) < 2 ^ 32" "length ids < 2 ^ 32"
    using assms by (auto simp: steps_def ready_def cost_def)
  obtain ar where p: "push_args ?ar ids = (Ok (length (args_pool ?ar), length ids), ar)"
    and ar: "args_pool ar = args_pool ?ar @ ids" "nodes ar = nodes ?ar"
    using l by (intro that [of "?ar\<lparr>args_pool := args_pool ?ar @ ids\<rparr>"]) (simp_all add: push_args_def)
  let ?s = "s1\<lparr>ps_arena := ar\<rparr>"
  have x: "extends ?ar ar" using push_args_extends [OF p] .
  have "steps k s ?s"
    using assms ar extends_trans [OF _ x, of "ps_arena s"] by (auto simp: steps_def ready_def cost_def)
  moreover have "means ?s f y" if "means s1 f y" for f y
    using that denotes_mono [OF _ x, of _ f y] by (simp add: means_def keeps_def)
  moreover have "stored ?s j f" if "stored s1 j f" for j f
    using that arena_get_mono [OF _ x] by (simp add: stored_def)
  ultimately show ?thesis
    using p push_args_roundtrip [OF p] by (auto simp: push_argsS_def intro!: exI [of _ ?s])
qed

lemma fold_max_le: "(\<forall>x \<in> set xs. f x \<le> m) \<and> a \<le> m" if "fold max (map f xs) a \<le> (m :: nat)"
  using that
proof (induction xs arbitrary: a)
  case (Cons x xs)
  have "(\<forall>y \<in> set xs. f y \<le> m) \<and> max (f x) a \<le> m" using Cons.IH [of "max (f x) a"] Cons.prems by simp
  then show ?case by simp
qed simp

lemma commas_shorter: "length xs \<le> length (commas (map (print_syn 0) xs))"
proof (induction xs)
  case (Cons x xs)
  obtain k ts where "print_syn 0 x = k # ts" using print_syn_head by blast
  then show ?case using Cons by (cases xs) (auto simp: commas_Cons separated_def)
qed simp

lemma reads_call:
  assumes xs: "\<And>x. x \<in> set xs \<Longrightarrow> reads d 0 x" and n: "n \<notin> {''if'', ''sort'', ''filter'', ''get_system_time''}"
  shows "reads d q (XCall n xs)"
proof (rule reads_prefix)
  fix left s rest
  assume a: "levels q (XCall n xs) \<le> left" "ready s" "ps_tokens s = print_syn q (XCall n xs) @ rest" "follow q rest"
  let ?args = "commas (map (print_syn 0) xs) @ KRParen # rest"
  let ?s1 = "drop_token s" and ?s2 = "drop_token (drop_token s)" and ?sub = "parse_expr d left"
  obtain left' where left: "left = Suc left'" "fold max (map (levels 0) xs) 0 \<le> left'" using a(1) by (cases left) auto
  have s: "ps_tokens s = KIdent n # KLParen # ?args" using a(3) by simp
  have s1: "ps_tokens ?s1 = KLParen # ?args" and s2: "ps_tokens ?s2 = ?args" using s by simp_all
  have d: "steps 6 s ?s2" using steps_drop [OF drop_steps [OF a(2) s] s1] by simp
  have fuel: "length xs < Suc (length (ps_tokens ?s2))" using s2 commas_shorter [of xs] by simp
  have sub: "reads d 0 x \<and> levels 0 x \<le> left'" if "x \<in> set xs" for x
    using xs that fold_max_le [OF left(2)] by blast
  obtain es s3 where es: "parse_args (Suc (length (ps_tokens ?s2))) (parse_expr d (Suc left')) ?s2 = (Ok es, s3)"
    "steps (2 * length xs) ?s2 s3" "ps_tokens s3 = KRParen # rest" "list_all2 (means s3) es xs"
    using args_run [OF sub steps_ready [OF d] s2 fuel] by blast
  have len: "length es = length xs" using es(4) by (rule list_all2_lengthD)
  let ?s4 = "drop_token s3"
  have "steps (length es + (length es + 9)) s ?s4"
    using steps_drop [OF steps_trans [OF d es(2)] es(3)] len by (simp add: algebra_simps)
  then obtain ids s5 where ids: "mapS allocS es ?s4 = (Ok ids, s5)" "list_all2 (stored s5) ids es" "ps_tokens s5 = ps_tokens ?s4"
    "steps (length es + 9) s s5" "\<forall>f x. means ?s4 f x \<longrightarrow> means s5 f x"
    using alloc_all [of es "length es + 9" s ?s4] by blast
  have li: "length ids = length es" using ids(2) by (rule list_all2_lengthD)
  then obtain st s6 where st: "push_argsS ids s5 = (Ok (st, length ids), s6)" "arena_args (ps_arena s6) st (length ids) = Ok ids"
    "ps_tokens s6 = ps_tokens s5" "steps (Suc 8) s s6" "\<forall>f x. means s5 f x \<longrightarrow> means s6 f x" "\<forall>j f. stored s5 j f \<longrightarrow> stored s6 j f"
    using push_run [of ids "Suc 8" s s5] ids(4) by auto
  obtain y s7 where y: "internS n s6 = (Ok y, s7)" "resolve (ps_interner s7) y = Some n" "ps_tokens s7 = ps_tokens s6"
    "steps 8 s s7" "\<And>j f. stored s6 j f \<Longrightarrow> stored s7 j f" "\<And>f x. means s6 f x \<Longrightarrow> means s7 f x" "ps_arena s7 = ps_arena s6"
    by (rule steps_intern [OF st(4), of n]) blast
  have "call_args ?sub n ?s2 = (Ok es, s3)"
    using n es(1) left(1) by (simp add: call_args_def bindS_def getS_def del: parse_args.simps)
  then have run: "parse_prefix ?sub (Some (KIdent n)) ?s1 = (Ok (EFunctionCall y st (length xs)), s7)"
    using s1 n expect_run [OF es(3)] ids(1) st(1) y(1) len li
    by (simp add: parse_ident_def parse_call_def bindS_def getS_def peek_def next_run okS_def)
  have "list_all2 (\<lambda>i x. \<exists>e. arena_get (ps_arena s7) i = Ok e \<and> denotes (ps_interner s7) (ps_arena s7) e x) ids xs"
  proof (rule list_all2_trans [OF _ ids(2) es(4)])
    fix i e x assume "stored s5 i e" "means s3 e x"
    moreover from this(2) have "means ?s4 e x" by simp
    ultimately have "stored s7 i e" "means s7 e x" using ids(5) st(5,6) y(5,6) by blast+
    then show "\<exists>e. arena_get (ps_arena s7) i = Ok e \<and> denotes (ps_interner s7) (ps_arena s7) e x"
      by (auto simp: stored_def means_def)
  qed
  then have "means s7 (EFunctionCall y st (length xs)) (XCall n xs)"
    using st(2) y(2,7) len li by (auto simp: means_def intro!: denotes.call)
  then show "\<exists>k ts e s'. ps_tokens s = k # ts \<and> k \<noteq> KIdent ''if'' \<and>
      parse_prefix ?sub (Some k) (drop_token s) = (Ok e, s') \<and>
      steps 2 s s' \<and> ps_tokens s' = rest \<and> means s' e (XCall n xs)"
    using s n run y(3,4) st(3) ids(3) es(3) steps_weaken [OF y(4), of 2] by auto
qed

lemma reads_syn: "syn_ok x \<Longrightarrow> q \<le> 50 \<Longrightarrow> reads d q x"
proof (induction x arbitrary: q)
  case (XNum s)
  then obtain v where "parse_number s = Ok v" by (cases "parse_number s") auto
  then show ?case
    by (intro reads_literal [where k = "KNum s" and v = v]) (auto simp: comput_defs intro: denotes.num)
next
  case (XBool b)
  show ?case by (rule reads_literal [where k = "KBool b" and v = "VBool b"]) (auto simp: comput_defs intro: denotes.bool)
next
  case (XStr s)
  show ?case by (rule reads_literal [where k = "KStr s" and v = "VString s"]) (auto simp: comput_defs intro: denotes.str)
next
  case (XVar n)
  then show ?case by (simp add: reads_var)
next
  case (XCall n xs)
  then show ?case by (intro reads_call) (auto simp: list_all_iff)
next
  case (XNeg x)
  then have n: "reads d q' (XNeg x)" if "q' \<le> 30" for q' by (intro reads_neg that) simp_all
  show ?case
  proof (cases "q \<le> 30")
    case False
    then show ?thesis by (intro reads_wrapped [OF n]) (simp_all add: wrap_def)
  qed (rule n)
next
  case (XNot x)
  then have n: "reads d q' (XNot x)" if "q' \<le> 30" for q' by (intro reads_not that) simp_all
  show ?case
  proof (cases "q \<le> 30")
    case False
    then show ?thesis by (intro reads_wrapped [OF n]) (simp_all add: wrap_def)
  qed (rule n)
next
  case (XBin l op r)
  have "fst (infix_binding_power op) \<le> 50" "snd (infix_binding_power op) \<le> 50" using binding_powers [of op] by auto
  with XBin have n: "reads d q' (XBin l op r)" if "q' \<le> fst (infix_binding_power op)" for q'
    by (intro reads_bin that) simp_all
  show ?case
  proof (cases "q \<le> fst (infix_binding_power op)")
    case False
    then show ?thesis by (intro reads_wrapped [OF n]) (simp_all add: wrap_def)
  qed (rule n)
next
  case (XIf c a b)
  then have n: "reads d 0 (XIf c a b)" by (intro reads_if) auto
  show ?case
  proof (cases "q = 0")
    case False
    then show ?thesis by (intro reads_wrapped [OF n]) (simp_all add: wrap_def)
  qed (simp add: n)
next
  case (XField x n)
  then show ?case by (intro reads_field) auto
qed



end
