(* ===== verification/Mizu_Urls.thy ===== *)
theory Mizu_Urls
  imports Mizu_Session
begin

text \<open>
  The compile-time registry of endpoints (\<^verbatim>\<open>parser/urls/mod.rs\<close>): one alias per line of the
  \<^verbatim>\<open>urls\<close> block, with the check of its target.
\<close>

text \<open>The \<open>n\<close>-th field of a line: trimmed, and missing when nothing is left.\<close>

definition line_field :: "string list \<Rightarrow> nat \<Rightarrow> string option" where
  "line_field parts n =
     (if n < length parts \<and> trim (parts ! n) \<noteq> [] then Some (trim (parts ! n)) else None)"

definition url_error :: "nat \<Rightarrow> string \<Rightarrow> 'a outcome" where
  "url_error line_no msg = Err (ParseError (''urls line '' @ show_nat line_no @ '': '' @ msg))"

definition endpoint_kind_of :: "nat \<Rightarrow> string \<Rightarrow> string \<Rightarrow> string \<Rightarrow> endpoint_kind outcome" where
  "endpoint_kind_of line_no keyword alias target =
     (if keyword = ''api''
      then if \<not> prefix ''/'' target
        then url_error line_no (''api endpoint `'' @ alias @ ''` target `'' @ target
               @ ''` must start with `/` (got a non-relative path)'')
        else Ok Api
      else if keyword = ''media''
      then if \<not> prefix ''mizu://'' target
        then url_error line_no (''media endpoint `'' @ alias @ ''` target `'' @ target
               @ ''` must start with `mizu://` (got a non-absolute URL)'')
        else Ok Media
      else url_error line_no (''unknown endpoint keyword `'' @ keyword @ ''`; expected `api` or `media`''))"

definition parse_url_line :: "nat \<Rightarrow> string \<Rightarrow> (endpoint_kind \<times> string \<times> string) outcome" where
  "parse_url_line line_no trimmed =
     (let parts = splitn_white 3 trimmed []; keyword = hd parts in
      case line_field parts 1 of
        None \<Rightarrow> url_error line_no (''missing alias after `'' @ keyword @ ''`'')
      | Some alias \<Rightarrow>
          (case line_field parts 2 of
             None \<Rightarrow> url_error line_no (''missing target after alias `'' @ alias @ ''`'')
           | Some target \<Rightarrow> bindO (endpoint_kind_of line_no keyword alias target) (\<lambda>kind. Ok (kind, alias, target))))"

definition add_endpoint :: "nat \<Rightarrow> endpoint_kind \<times> string \<times> string \<Rightarrow> url_registry \<Rightarrow> (string_interner, url_registry) comput" where
  "add_endpoint line_no entry registry =
     (case entry of (kind, alias, target) \<Rightarrow>
        \<lambda>t. case get_or_intern t alias of (y, t') \<Rightarrow>
          (if registry y \<noteq> None
           then (url_error line_no (''duplicate alias `'' @ alias @ ''` '' @ em_dash
                   @ '' each alias must be unique within the `urls` block''), t')
           else (Ok (registry(y \<mapsto> \<lparr>ep_kind = kind, raw_target = target\<rparr>)), t')))"

fun parse_url_lines :: "string list \<Rightarrow> nat \<Rightarrow> url_registry \<Rightarrow> (string_interner, url_registry) comput" where
  "parse_url_lines [] line_no registry = okS registry"
| "parse_url_lines (raw_line # ls) line_no registry =
     (if trim raw_line = [] then parse_url_lines ls (Suc line_no) registry
      else bindS (liftS (parse_url_line line_no (trim raw_line))) (\<lambda>entry.
           bindS (add_endpoint line_no entry registry) (\<lambda>registry'.
           parse_url_lines ls (Suc line_no) registry')))"

definition parse_urls :: "string \<Rightarrow> (string_interner, url_registry) comput" where
  "parse_urls content = parse_url_lines (lines content) 1 Map.empty"

section \<open>What an accepted block says\<close>

text \<open>An endpoint whose target has the shape its kind asks for.\<close>

definition endpoint_ok :: "url_endpoint \<Rightarrow> bool" where
  "endpoint_ok ep \<longleftrightarrow>
     (case ep_kind ep of Api \<Rightarrow> prefix ''/'' (raw_target ep) | Media \<Rightarrow> prefix ''mizu://'' (raw_target ep))"

definition registry_ok :: "url_registry \<Rightarrow> bool" where
  "registry_ok registry \<longleftrightarrow> (\<forall>y ep. registry y = Some ep \<longrightarrow> endpoint_ok ep)"

lemma parse_url_line_ok:
  "parse_url_line n line = Ok (kind, alias, target) \<Longrightarrow> endpoint_ok \<lparr>ep_kind = kind, raw_target = target\<rparr>"
  by (auto simp: parse_url_line_def endpoint_kind_of_def url_error_def endpoint_ok_def Let_def bindO_Ok
      split: option.splits if_splits)

lemma add_endpoint_ok:
  assumes "registry_ok registry" "endpoint_ok \<lparr>ep_kind = kind, raw_target = target\<rparr>"
    and "add_endpoint n (kind, alias, target) registry t = (Ok registry', t')"
  shows "registry_ok registry' \<and> (\<exists>y. registry y = None \<and> registry' = registry(y \<mapsto> \<lparr>ep_kind = kind, raw_target = target\<rparr>))"
  using assms by (auto simp: add_endpoint_def registry_ok_def url_error_def split: prod.splits if_splits)

lemma parse_url_lines_ok:
  "registry_ok registry \<Longrightarrow> parse_url_lines ls n registry t = (Ok registry', t') \<Longrightarrow> registry_ok registry'"
proof (induction ls arbitrary: n registry t)
  case (Cons raw_line ls)
  show ?case
  proof (cases "trim raw_line = []")
    case False
    then obtain kind nm target r1 t1 where
      l: "parse_url_line n (trim raw_line) = Ok (kind, nm, target)"
      and a: "add_endpoint n (kind, nm, target) registry t = (Ok r1, t1)"
      and r: "parse_url_lines ls (Suc n) r1 t1 = (Ok registry', t')"
      using Cons.prems(2) by (auto simp: bindS_def liftS_def split: prod.splits outcome.splits)
    show ?thesis
      using Cons.IH [OF _ r] add_endpoint_ok [OF Cons.prems(1) parse_url_line_ok [OF l] a] by blast
  qed (use Cons in auto)
qed (auto simp: okS_def)

text \<open>
  Every alias of an accepted \<^verbatim>\<open>urls\<close> block stands for a target of the right shape: an
  \<^verbatim>\<open>api\<close> endpoint for a path that begins with a slash, a \<^verbatim>\<open>media\<close> endpoint for an absolute
  \<^verbatim>\<open>mizu://\<close> address.
\<close>

theorem registry_targets_checked:
  assumes "parse_urls content t = (Ok registry, t')"
  shows "registry_ok registry"
  using parse_url_lines_ok [of Map.empty] assms by (simp add: parse_urls_def registry_ok_def)

theorem registry_targets_checked_witness:
  "\<exists>registry. fst (parse_urls ''api items /items'' interner_new) = Ok registry \<and> registry_ok registry"
proof -
  have "is_ok (fst (parse_urls ''api items /items'' interner_new))"
    by (simp add: parse_urls_def lines_def strip_cr_def newline_def trim_plain plain_def parse_url_line_def line_field_def
        endpoint_kind_of_def bindS_def liftS_def add_endpoint_def get_or_intern_def interner_new_def okS_def)
  then obtain registry t' where "parse_urls ''api items /items'' interner_new = (Ok registry, t')"
    by (cases "parse_urls ''api items /items'' interner_new"; cases "fst (parse_urls ''api items /items'' interner_new)") auto
  from registry_targets_checked [OF this] this show ?thesis by auto
qed

text \<open>Two blanks after the keyword, as in the syntax the module documents, are a missing alias.\<close>

lemma two_blanks_refused:
  "fst (parse_urls ''api   items  /items'' interner_new) = url_error 1 ''missing alias after `api`''"
    by (simp add: parse_urls_def lines_def strip_cr_def newline_def trim_plain plain_def parse_url_line_def line_field_def
        bindS_def liftS_def url_error_def trim_Nil)
end
