(* ===== verification/Mizu_Parse_Action.thy ===== *)
theory Mizu_Parse_Action
  imports Mizu_Parser_Props Mizu_Urls
begin

text \<open>
  The action grammar (\<^verbatim>\<open>parser/logic/parse/action.rs\<close>) with its scanning helpers
  (\<^verbatim>\<open>parse/helpers.rs\<close>): what follows the arrow of an event becomes an \<^typ>\<open>action\<close>. Network calls
  are checked against the registry of the \<^verbatim>\<open>urls\<close> block and the list of reserved headers.

  The parameters are gathered in \<open>parse_env\<close>: the depth limit of the configuration, the syntax
  check of header names, which belongs to the \<^verbatim>\<open>http\<close> crate and gives its message when it
  refuses a name, and the Unicode classes of characters outside ASCII.
\<close>

record parse_env =
  pe_max_depth :: nat
  pe_header_error :: "string \<Rightarrow> string option"
  pe_alphabetic :: "string \<Rightarrow> bool"
  pe_alphanumeric :: "string \<Rightarrow> bool"

section \<open>Scanning\<close>

text \<open>The position of the first \<^verbatim>\<open>=\<close> that is no part of a comparison, \<open>prev\<close> being the byte before.\<close>

fun assignment_eq :: "char option \<Rightarrow> string \<Rightarrow> nat option" where
  "assignment_eq prev [] = None"
| "assignment_eq prev (c # cs) =
     (if c = CHR ''='' \<and> prev \<notin> {Some CHR ''!'', Some CHR ''<'', Some CHR ''>'', Some CHR ''=''}
          \<and> (cs = [] \<or> hd cs \<noteq> CHR ''='')
      then Some 0 else map_option Suc (assignment_eq (Some c) cs))"

definition find_assignment_eq :: "string \<Rightarrow> nat option" where
  "find_assignment_eq s = assignment_eq None s"

text \<open>The characters of a string, each with its continuation bytes.\<close>

function utf8_chars :: "string \<Rightarrow> string list" where
  "utf8_chars [] = []"
| "utf8_chars (c # cs) = (c # takeWhile is_continuation cs) # utf8_chars (dropWhile is_continuation cs)"
  by pat_completeness auto
termination
  by (relation "measure length") (auto simp: le_imp_less_Suc length_dropWhile_le)

definition char_is_alphabetic :: "parse_env \<Rightarrow> string \<Rightarrow> bool" where
  "char_is_alphabetic env ch = (case ch of [c] \<Rightarrow> is_alpha c | _ \<Rightarrow> pe_alphabetic env ch)"

definition char_is_alphanumeric :: "parse_env \<Rightarrow> string \<Rightarrow> bool" where
  "char_is_alphanumeric env ch = (case ch of [c] \<Rightarrow> is_alpha c \<or> is_digit c | _ \<Rightarrow> pe_alphanumeric env ch)"

definition looks_like_binding :: "parse_env \<Rightarrow> string \<Rightarrow> bool" where
  "looks_like_binding env line =
     (case find_assignment_eq line of
        None \<Rightarrow> False
      | Some eq_pos \<Rightarrow>
          let lhs = trim (take eq_pos line) in
          lhs \<noteq> [] \<and> (char_is_alphabetic env (hd (utf8_chars lhs)) \<or> hd (utf8_chars lhs) = ''_'')
          \<and> list_all (\<lambda>ch. char_is_alphanumeric env ch \<or> ch = ''_'') (utf8_chars lhs))"

text \<open>The position of the bracket that closes the first one, strings skipped.\<close>

fun matching_paren :: "bool \<Rightarrow> int \<Rightarrow> string \<Rightarrow> nat option" where
  "matching_paren in_string depth [] = None"
| "matching_paren in_string depth (c # cs) =
     (if in_string
      then (if c = CHR 0x5C
            then (case cs of [] \<Rightarrow> None | _ # ds \<Rightarrow> map_option (\<lambda>i. i + 2) (matching_paren True depth ds))
            else map_option Suc (matching_paren (c \<noteq> CHR 0x22) depth cs))
      else if c = CHR 0x22 then map_option Suc (matching_paren True depth cs)
      else if c = CHR ''('' then map_option Suc (matching_paren False (depth + 1) cs)
      else if c = CHR '')''
      then (if depth - 1 = 0 then Some 0 else map_option Suc (matching_paren False (depth - 1) cs))
      else map_option Suc (matching_paren False depth cs))"

definition find_matching_paren :: "string \<Rightarrow> nat \<Rightarrow> nat option" where
  "find_matching_paren s open_idx = map_option (\<lambda>i. open_idx + i) (matching_paren False 0 (drop open_idx s))"

section \<open>Header names\<close>

definition RESERVED_HEADER_NAMES_EXACT :: "string list" where
  "RESERVED_HEADER_NAMES_EXACT =
     [''host'', ''content-length'', ''content-type'', ''authorization'', ''connection'', ''transfer-encoding'',
      ''upgrade'', ''te'', ''trailer'']"

definition header_reserved :: "string \<Rightarrow> bool" where
  "header_reserved name =
     (let lower = map ascii_lower name in
      lower \<in> set RESERVED_HEADER_NAMES_EXACT \<or> prefix ''proxy-'' lower \<or> prefix ''sec-'' lower \<or> prefix ''mizu-'' lower)"

definition validate_header_name :: "parse_env \<Rightarrow> string \<Rightarrow> string \<Rightarrow> unit outcome" where
  "validate_header_name env name method_name =
     (case pe_header_error env name of
        Some e \<Rightarrow> Err (ParseError (''network call `'' @ method_name @ ''`: invalid header name `'' @ name @ ''`: '' @ e))
      | None \<Rightarrow>
          if header_reserved name
          then Err (ParseError (''network call `'' @ method_name @ ''`: header `'' @ name
                 @ ''` is reserved and cannot be set by a document (see the Fetch spec's forbidden-header-name list; ''
                 @ ''`Content-Type` is owned by the `as <format>` clause, `Authorization` by the vault mechanism, ''
                 @ ''and the `Mizu-` prefix is reserved for the runtime's own signaling headers)''))
          else Ok ())"

section \<open>Network calls\<close>

type_synonym 'a interning = "(string_interner, 'a) comput"

definition parse_source :: "parse_env \<Rightarrow> string \<Rightarrow> (expr_tree \<times> token list) interning" where
  "parse_source env src = bindS (liftS (lex src)) (parse_expr_tree (pe_max_depth env))"

definition call_error :: "network_method \<Rightarrow> string \<Rightarrow> 'a outcome" where
  "call_error mth msg = Err (ParseError (''network call `'' @ method_as_str mth @ msg))"

definition head_token :: "token list \<Rightarrow> token option" where
  "head_token ts = (case ts of [] \<Rightarrow> None | t # _ \<Rightarrow> Some t)"

definition parse_target :: "network_method \<Rightarrow> token list \<Rightarrow> (string \<times> token list) outcome" where
  "parse_target mth ts =
     (case ts of
        KIdent name # rest \<Rightarrow> Ok (name, rest)
      | _ \<Rightarrow> call_error mth (''`: expected a target variable name after `->`, got '' @ debug_next (head_token ts)))"

definition parse_format :: "network_method \<Rightarrow> token list \<Rightarrow> (payload_format \<times> token list) outcome" where
  "parse_format mth ts =
     (if head_token ts = Some (KIdent ''as'')
      then (case tl ts of
              KIdent kw # rest \<Rightarrow>
                (case from_keyword kw of
                   Some f \<Rightarrow> Ok (f, rest)
                 | None \<Rightarrow> call_error mth (''`: unknown payload format `'' @ kw
                     @ ''`; expected one of: json, form, text, yaml, multipart''))
            | us \<Rightarrow> call_error mth (''`: expected a payload format keyword after `as`, got '' @ debug_next (head_token us)))
      else Ok (FJson, ts))"

text \<open>The header clauses; every one takes tokens, so the number of tokens left is fuel enough.\<close>

primrec parse_headers ::
  "nat \<Rightarrow> parse_env \<Rightarrow> network_method \<Rightarrow> token list \<Rightarrow> ((string \<times> expr_tree) list \<times> token list) interning" where
  "parse_headers 0 env mth ts = failS OutOfFuel"
| "parse_headers (Suc n) env mth ts =
     (if head_token ts \<noteq> Some (KIdent ''header'') then okS ([], ts)
      else case tl ts of
        KStr name # us \<Rightarrow>
          bindS (liftS (validate_header_name env name (method_as_str mth))) (\<lambda>_.
          bindS (parse_expr_tree (pe_max_depth env) us) (\<lambda>(value_expr, rest).
          bindS (parse_headers n env mth rest) (\<lambda>(hs, rest').
            okS ((name, value_expr) # hs, rest'))))
      | us \<Rightarrow> liftS (call_error mth (''`: expected a string header name after `header`, got '' @ debug_next (head_token us))))"

definition has_body :: "network_method \<Rightarrow> bool" where
  "has_body mth \<longleftrightarrow> mth = Post \<or> mth = Put \<or> mth = Query"

definition check_alias :: "network_method \<Rightarrow> string \<Rightarrow> symbol \<Rightarrow> url_registry option \<Rightarrow> unit outcome" where
  "check_alias mth alias_str y registry =
     (case registry of
        None \<Rightarrow> Ok ()
      | Some reg \<Rightarrow>
          (case reg y of
             None \<Rightarrow> call_error mth (''('' @ alias_str @ '')`: alias `'' @ alias_str @ ''` is not defined in the `urls` block'')
           | Some ep \<Rightarrow>
               if ep_kind ep \<noteq> Api
               then call_error mth (''('' @ alias_str @ '')`: alias `'' @ alias_str @ ''` is a `media` endpoint, not an `api` endpoint'')
               else Ok ()))"

definition parse_optional :: "parse_env \<Rightarrow> string option \<Rightarrow> expr_tree option interning" where
  "parse_optional env src =
     (case src of None \<Rightarrow> okS None | Some s \<Rightarrow> bindS (parse_source env s) (\<lambda>(tree, _). okS (Some tree)))"

text \<open>A trimmed argument, missing when it is empty.\<close>

definition call_arg :: "string list \<Rightarrow> nat \<Rightarrow> string option" where
  "call_arg parts n = (if n < length parts \<and> parts ! n \<noteq> [] then Some (parts ! n) else None)"

definition parse_call_slots ::
  "parse_env \<Rightarrow> network_method \<Rightarrow> string option \<Rightarrow> string option \<Rightarrow> (expr_tree option \<times> expr_tree option) interning" where
  "parse_call_slots env mth second third =
     (if has_body mth
      then bindS (parse_optional env second) (\<lambda>payload.
           bindS (parse_optional env third) (\<lambda>path_param. okS (payload, path_param)))
      else if third \<noteq> None
      then liftS (call_error mth (''` does not accept a body argument: use `'' @ method_as_str mth @ ''(alias[, path_param]) -> var`''))
      else bindS (parse_optional env second) (\<lambda>path_param. okS (None, path_param)))"

definition split_call :: "network_method \<Rightarrow> string \<Rightarrow> (string \<times> string) outcome" where
  "split_call mth rest =
     (case split_char CHR ''('' rest of
        None \<Rightarrow> call_error mth (''` missing `(`: expected `'' @ method_as_str mth @ ''(alias) -> var`'')
      | Some (before, _) \<Rightarrow>
          let opn = length before in
          (case find_matching_paren rest opn of
             None \<Rightarrow> call_error mth (''` missing `)`: expected `'' @ method_as_str mth @ ''(alias) -> var`'')
           | Some close \<Rightarrow>
               let args_str = trim (drop (opn + 1) (take close rest)); after_close = trim (drop (close + 1) rest) in
               (case strip_prefix ''->'' after_close of
                  None \<Rightarrow> call_error mth ''` missing `-> target_var` after `)`''
                | Some stripped \<Rightarrow> Ok (args_str, trim stripped))))"

text \<open>The clauses after the arrow: target, payload format and headers.\<close>

definition parse_clauses ::
  "parse_env \<Rightarrow> network_method \<Rightarrow> string \<Rightarrow> (string \<times> payload_format \<times> (string \<times> expr_tree) list) interning" where
  "parse_clauses env mth arrow_rhs =
     bindS (liftS (lex arrow_rhs)) (\<lambda>rhs_tokens.
     bindS (liftS (parse_target mth rhs_tokens)) (\<lambda>(target_var, ts).
     bindS (liftS (parse_format mth ts)) (\<lambda>(fmt, us).
     bindS (parse_headers (Suc (length us)) env mth us) (\<lambda>(headers, left).
     bindS (liftS (assert_cursor_empty left (''network call `'' @ method_as_str mth @ ''`''))) (\<lambda>_.
       okS (target_var, fmt, headers))))))"

text \<open>The arguments of the call: the alias, checked against the registry, and the expressions.\<close>

definition parse_call_args_of ::
  "parse_env \<Rightarrow> network_method \<Rightarrow> string \<Rightarrow> url_registry option
     \<Rightarrow> (symbol \<times> expr_tree option \<times> expr_tree option) interning" where
  "parse_call_args_of env mth args_str registry =
     (let arg_parts = map trim (splitn_char 3 CHR '','' args_str) in
      case call_arg arg_parts 0 of
        None \<Rightarrow> liftS (call_error mth ''` missing alias argument'')
      | Some alias_str \<Rightarrow>
          bindS (\<lambda>t. case get_or_intern t alias_str of (y, t') \<Rightarrow> (Ok y, t')) (\<lambda>alias_sym.
          bindS (liftS (check_alias mth alias_str alias_sym registry)) (\<lambda>_.
          bindS (parse_call_slots env mth (call_arg arg_parts 1) (call_arg arg_parts 2)) (\<lambda>(payload, path_param).
            okS (alias_sym, payload, path_param)))))"

definition parse_network_call ::
  "parse_env \<Rightarrow> network_method \<Rightarrow> string \<Rightarrow> url_registry option \<Rightarrow> action interning" where
  "parse_network_call env mth rest registry =
     bindS (liftS (split_call mth rest)) (\<lambda>(args_str, arrow_rhs).
     bindS (parse_clauses env mth arrow_rhs) (\<lambda>(target_var, fmt, headers).
     bindS (parse_call_args_of env mth args_str registry) (\<lambda>(alias_sym, payload, path_param).
       okS (ANetworkCall mth alias_sym payload path_param target_var fmt headers))))"

section \<open>Actions\<close>

definition http_verb :: "string \<Rightarrow> network_method option" where
  "http_verb s = find (\<lambda>mth. prefix (method_as_str mth @ ''('') s) [Get, Post, Put, Delete, Query]"

text \<open>A verb in the wrong case, in the call form and in the form with a blank.\<close>

definition wrong_case :: "string \<Rightarrow> string option" where
  "wrong_case s =
     (case find (\<lambda>mth. prefix (method_as_str mth @ ''('') (map ascii_upper s)) [Get, Post, Put, Delete, Query] of
        Some mth \<Rightarrow>
          Some (''lowercase `'' @ take (length (method_as_str mth)) s
            @ ''` is not a valid action; use the uppercase registry form: '' @ method_as_str mth @ ''(alias) -> var'')
      | None \<Rightarrow>
          map_option (\<lambda>verb. ''lowercase `'' @ verb @ ''` is not a valid action; use the uppercase registry form: ''
              @ map ascii_upper verb @ ''(alias) -> var'')
            (find (\<lambda>verb. prefix (verb @ '' '') (map ascii_lower s)) [''get'', ''post'', ''put'', ''delete'']))"

definition check_download :: "string \<Rightarrow> symbol \<Rightarrow> url_registry option \<Rightarrow> unit outcome" where
  "check_download name y registry =
     (case registry of
        None \<Rightarrow> Ok ()
      | Some reg \<Rightarrow>
          (case reg y of
             None \<Rightarrow> Err (ParseError (''download alias `'' @ name @ ''` is not declared in the `urls` block''))
           | Some ep \<Rightarrow>
               if ep_kind ep \<noteq> Media
               then Err (ParseError (''download alias `'' @ name @ ''` must be a `media` endpoint, not `api`''))
               else Ok ()))"

text \<open>The tree of \<^verbatim>\<open>download(alias)\<close>, whose argument is the alias and no expression.\<close>

definition download_tree :: "symbol \<Rightarrow> symbol \<Rightarrow> expr_tree outcome" where
  "download_tree download_sym alias_sym =
     (case alloc arena_new (EVariable alias_sym) of (arg, ar1) \<Rightarrow>
      case push_args ar1 [arg] of
        (Fail f, _) \<Rightarrow> Fail f
      | (Ok (args_start, args_len), ar2) \<Rightarrow>
          (case alloc ar2 (EFunctionCall download_sym args_start args_len) of (i, ar3) \<Rightarrow>
             Ok \<lparr>tree_arena = ar3, tree_root = i\<rparr>))"

definition parse_download :: "string \<Rightarrow> url_registry option \<Rightarrow> action interning" where
  "parse_download s registry =
     (case rsplit_char CHR '')'' s of
        None \<Rightarrow> errS (ParseError ''download: missing `)`: expected `download(alias)`'')
      | Some (before, _) \<Rightarrow>
          let name = trim (drop 9 before) in
          if name = [] then errS (ParseError ''download: alias cannot be empty: expected `download(alias)`'')
          else bindS (\<lambda>t. case get_or_intern t name of (y, t') \<Rightarrow> (Ok y, t')) (\<lambda>alias_sym.
               bindS (liftS (check_download name alias_sym registry)) (\<lambda>_.
               bindS (\<lambda>t. case get_or_intern t ''download'' of (y, t') \<Rightarrow> (Ok y, t')) (\<lambda>download_sym.
               bindS (liftS (download_tree download_sym alias_sym)) (\<lambda>tree. okS (AEval tree))))))"

text \<open>An expression that must be all there is.\<close>

definition parse_whole :: "parse_env \<Rightarrow> string \<Rightarrow> string \<Rightarrow> expr_tree interning" where
  "parse_whole env src context =
     bindS (parse_source env src) (\<lambda>(tree, rest). bindS (liftS (assert_cursor_empty rest context)) (\<lambda>_. okS tree))"

definition parse_assignment :: "parse_env \<Rightarrow> string \<Rightarrow> string \<Rightarrow> nat \<Rightarrow> action interning" where
  "parse_assignment env act s eq_pos =
     (let lhs = trim (take eq_pos s); rhs = trim (drop (eq_pos + 1) s) in
      if lhs = [] \<or> rhs = [] then errS (ParseError (''invalid assignment action: `'' @ act @ ''`''))
      else bindS (parse_whole env rhs (''`'' @ lhs @ '' = ...`'')) (\<lambda>tree. okS (AAssign lhs tree)))"

definition parse_action_with_urls :: "parse_env \<Rightarrow> string \<Rightarrow> url_registry option \<Rightarrow> action interning" where
  "parse_action_with_urls env act registry =
     (let s = trim act in
      case http_verb s of
        Some mth \<Rightarrow> parse_network_call env mth (drop (length (method_as_str mth)) s) registry
      | None \<Rightarrow>
          (case wrong_case s of
             Some msg \<Rightarrow> errS (ParseError msg)
           | None \<Rightarrow>
               if prefix ''download('' s then parse_download s registry
               else case strip_prefix ''navigate '' s of
                 Some rest \<Rightarrow> bindS (parse_whole env (trim rest) ''`navigate ...`'') (\<lambda>url. okS (ANavigate url))
               | None \<Rightarrow>
                   (case find_assignment_eq s of
                      Some eq_pos \<Rightarrow> parse_assignment env act s eq_pos
                    | None \<Rightarrow>
                        if s = [] then errS (ParseError ''action cannot be empty'')
                        else bindS (parse_whole env s (''`'' @ s @ ''`'')) (\<lambda>tree. okS (AEval tree)))))"

definition parse_action :: "parse_env \<Rightarrow> string \<Rightarrow> action interning" where
  "parse_action env act = parse_action_with_urls env act None"

section \<open>What a parsed action satisfies\<close>

text \<open>Failures of the parser on parts of a source: its errors, or the negation of the least integer.\<close>

definition fault_in :: "string \<Rightarrow> fault \<Rightarrow> bool" where
  "fault_in src f \<longleftrightarrow> (\<exists>msg. f = Error (ParseError msg)) \<or>
     (f = Panic \<and> (\<exists>part toks. sublist part src \<and> lex part = Ok toks \<and> \<not> list_all safe_token toks))"

definition tokens_of :: "string \<Rightarrow> token list \<Rightarrow> bool" where
  "tokens_of src toks \<longleftrightarrow> length toks < 2 ^ 31 \<and>
     (list_all safe_token toks \<or> (\<exists>part toks'. sublist part src \<and> lex part = Ok toks' \<and> \<not> list_all safe_token toks'))"

abbreviation yields :: "string \<Rightarrow> 'a interning \<Rightarrow> ('a \<Rightarrow> bool) \<Rightarrow> bool" where
  "yields src m A \<equiv> valid (\<lambda>_. True) m (\<lambda>v _. A v) (\<lambda>f _. fault_in src f)"

lemma yields_bind:
  "yields src m A \<Longrightarrow> (\<And>v. A v \<Longrightarrow> yields src (f v) B) \<Longrightarrow> yields src (bindS m f) B"
  by (rule valid_bind_inv [where A = A]) auto

lemma yields_lift: "parse_result x \<Longrightarrow> (\<And>v. x = Ok v \<Longrightarrow> A v) \<Longrightarrow> yields src (liftS x) A"
  by (cases x) (auto simp: valid_def liftS_def parse_result_def fault_in_def)

lemma yields_error: "yields src (errS (ParseError msg)) A"
  by (auto simp: valid_def failS_def fault_in_def)

lemma yields_ok: "A v \<Longrightarrow> yields src (okS v) A"
  by (auto simp: valid_def okS_def)

lemma yields_intern: "yields src (\<lambda>t. case get_or_intern t name of (y, t') \<Rightarrow> (Ok y, t')) (\<lambda>_. True)"
  by (auto simp: valid_def split: prod.splits)

lemma tokens_of_suffix: "tokens_of src toks \<Longrightarrow> suffix rest toks \<Longrightarrow> tokens_of src rest"
  by (auto simp: tokens_of_def suffix_def)

lemma tokens_of_lex: "length src < 2 ^ 28 \<Longrightarrow> sublist part src \<Longrightarrow> lex part = Ok toks \<Longrightarrow> tokens_of src toks"
  using lex_length [of part toks] sublist_length_le [of part src] by (auto simp: tokens_of_def)

definition good_tree :: "expr_tree \<Rightarrow> bool" where
  "good_tree tree \<longleftrightarrow> tree_wf tree \<and> parsed_tree tree"

lemma yields_tree:
  assumes "tokens_of src toks"
  shows "yields src (parse_expr_tree max_depth toks)
     (\<lambda>(tree, rest). good_tree tree \<and> tokens_of src rest \<and> length rest < length toks)"
proof (rule validI; clarify?)
  have l: "length toks < 2 ^ 31" using assms by (simp add: tokens_of_def)
  {
    fix t tree rest t'
    assume "parse_expr_tree max_depth toks t = (Ok (tree, rest), t')"
    from tree_parser_ok [OF l this]
    show "good_tree tree \<and> tokens_of src rest \<and> length rest < length toks"
      using assms by (auto simp: good_tree_def tokens_of_def)
  }
  fix t f t' assume "parse_expr_tree max_depth toks t = (Fail f, t')"
  from tree_parser_ok [OF l this] show "fault_in src f"
    using assms by (auto simp: fault_in_def tokens_of_def)
qed

lemma yields_source:
  assumes "length src < 2 ^ 28" "sublist part src"
  shows "yields src (parse_source env part) (\<lambda>(tree, rest). good_tree tree)"
  unfolding parse_source_def
  by (rule yields_bind [where A = "tokens_of src"], rule yields_lift [OF lex_result],
      use tokens_of_lex [OF assms] in simp, rule valid_weaken [OF yields_tree]) auto

lemma yields_whole:
  assumes "length src < 2 ^ 28" "sublist part src"
  shows "yields src (parse_whole env part context) good_tree"
  unfolding parse_whole_def
  by (rule yields_bind [OF yields_source [OF assms]])
    (auto intro!: yields_bind [where A = "\<lambda>_. True"] yields_lift yields_ok cursor_empty_result)

lemma yields_optional:
  assumes "length src < 2 ^ 28" "\<And>s. part = Some s \<Longrightarrow> sublist s src"
  shows "yields src (parse_optional env part) (\<lambda>tree. \<forall>e. tree = Some e \<longrightarrow> good_tree e)"
  unfolding parse_optional_def
  by (auto split: option.splits simp: assms(2) intro!: yields_ok yields_bind [OF yields_source [OF assms(1)]])

text \<open>An alias that is an endpoint of the kind asked for, where there is a registry.\<close>

definition declared :: "url_registry option \<Rightarrow> endpoint_kind \<Rightarrow> symbol \<Rightarrow> bool" where
  "declared registry kind y \<longleftrightarrow> (\<forall>reg. registry = Some reg \<longrightarrow> (\<exists>ep. reg y = Some ep \<and> ep_kind ep = kind))"

definition header_allowed :: "parse_env \<Rightarrow> string \<Rightarrow> bool" where
  "header_allowed env name \<longleftrightarrow> pe_header_error env name = None \<and> \<not> header_reserved name"

fun request_allowed :: "parse_env \<Rightarrow> url_registry option \<Rightarrow> action \<Rightarrow> bool" where
  "request_allowed env registry (ANetworkCall mth y p pp tv fmt hs) \<longleftrightarrow>
     declared registry Api y \<and> list_all (\<lambda>h. header_allowed env (fst h)) hs \<and> (p \<noteq> None \<longrightarrow> has_body mth)"
| "request_allowed env registry a \<longleftrightarrow> True"

definition download_of :: "url_registry option \<Rightarrow> action \<Rightarrow> bool" where
  "download_of registry a \<longleftrightarrow>
     (\<exists>d y tree. a = AEval tree \<and> download_tree d y = Ok tree \<and> declared registry Media y)"

lemma trees_in_wf: "list_all good_tree (trees_in a) \<Longrightarrow> action_wf a"
  by (cases a) (auto simp: good_tree_def pred_option_def list_all_iff split: option.splits)

lemma call_error_fails [simp]: "call_error mth msg \<noteq> Ok v"
  by (simp add: call_error_def)

lemma parse_target_ok: "parse_target mth ts = Ok (v, us) \<Longrightarrow> suffix us ts"
  by (auto simp: parse_target_def call_error_def suffix_def split: list.splits token.splits)

lemma parse_format_ok: "parse_format mth ts = Ok (v, us) \<Longrightarrow> suffix us ts"
  by (cases ts; cases "tl ts"; cases "hd (tl ts)")
    (auto simp: parse_format_def call_error_def suffix_def split: option.splits if_splits)

lemma call_results:
  "parse_result (call_error mth msg)" "parse_result (split_call mth rest)" "parse_result (parse_target mth ts)"
  "parse_result (parse_format mth ts)" "parse_result (validate_header_name env name m)"
  "parse_result (check_alias mth al y registry)" "parse_result (check_download al y registry)"
  by (auto simp: call_error_def split_call_def parse_target_def parse_format_def validate_header_name_def
      check_alias_def check_download_def Let_def split: option.splits list.splits token.splits)

lemma split_call_parts: "split_call mth rest = Ok (args, rhs) \<Longrightarrow> sublist args rest \<and> sublist rhs rest"
proof -
  have d: "sublist (trim (drop n (take m s))) s" "sublist (trim (drop n s)) s" for n m and s :: string
    by (meson sublist_trim sublist_drop sublist_take sublist_order.order_trans)+
  assume "split_call mth rest = Ok (args, rhs)"
  then obtain n m k r where "args = trim (drop n (take m rest))" "trim (drop k rest) = ''->'' @ r" "rhs = trim r"
    by (auto simp: split_call_def call_error_def Let_def split: option.splits)
  moreover from this have "sublist (trim r) (trim (drop k rest))"
    by (metis sublist_order.order_trans sublist_trim suffixI suffix_imp_sublist)
  ultimately show ?thesis using d sublist_order.order_trans by blast
qed

lemma header_clauses_ok:
  assumes "tokens_of src ts" "length ts < n"
  shows "yields src (parse_headers n env mth ts)
     (\<lambda>(hs, rest). list_all (\<lambda>h. header_allowed env (fst h) \<and> good_tree (snd h)) hs)"
  using assms
proof (induction n arbitrary: ts)
  case (Suc n)
  have h: "validate_header_name env name m = Ok v \<Longrightarrow> header_allowed env name" for name m v
    by (auto simp: validate_header_name_def header_allowed_def split: option.splits if_splits)
  show ?case
  proof (cases "\<exists>name us. ts = KIdent ''header'' # KStr name # us")
    case True
    then obtain name us where ts: "ts = KIdent ''header'' # KStr name # us" by blast
    have us: "tokens_of src us" using tokens_of_suffix [OF Suc.prems(1)] by (simp add: ts suffix_def)
    have "yields src (bindS (parse_headers n env mth rest) (\<lambda>(hs, rest'). okS ((name, e) # hs, rest')))
        (\<lambda>(hs, rest). list_all (\<lambda>h. header_allowed env (fst h) \<and> good_tree (snd h)) hs)"
      if "header_allowed env name" "good_tree e" "tokens_of src rest" "length rest < length us" for e rest
      by (rule yields_bind [OF Suc.IH]) (use that Suc.prems in \<open>auto simp: ts intro!: yields_ok\<close>)
    then show ?thesis
      by (auto simp: ts head_token_def intro!: yields_bind [OF yields_lift [OF call_results(5) h]] yields_bind [OF yields_tree [OF us]])
  next
    case False
    then show ?thesis
      by (cases ts; cases "tl ts"; cases "hd (tl ts)")
        (auto simp: head_token_def intro!: yields_ok yields_lift call_results)
  qed
qed simp

lemma yields_weaken: "yields src m A \<Longrightarrow> (\<And>v. A v \<Longrightarrow> B v) \<Longrightarrow> yields src m B"
  by (rule valid_weaken)

lemma slots_ok:
  assumes "length src < 2 ^ 28" "\<And>s. second = Some s \<or> third = Some s \<Longrightarrow> sublist s src"
  shows "yields src (parse_call_slots env mth second third)
     (\<lambda>(p, pp). (\<forall>e. p = Some e \<or> pp = Some e \<longrightarrow> good_tree e) \<and> (p \<noteq> None \<longrightarrow> has_body mth))"
proof -
  have a: "yields src (parse_optional env second) (\<lambda>tree. \<forall>e. tree = Some e \<longrightarrow> good_tree e)"
    "yields src (parse_optional env third) (\<lambda>tree. \<forall>e. tree = Some e \<longrightarrow> good_tree e)"
    using assms by (auto intro: yields_optional)
  show ?thesis
    proof (cases "has_body mth")
    case True
    then show ?thesis
      by (simp add: parse_call_slots_def, intro yields_bind [OF a(1)] yields_bind [OF a(2)] yields_ok) auto
  next
    case False
    then show ?thesis
      by (simp add: parse_call_slots_def)
        (intro conjI impI yields_lift [OF call_results(1)] yields_bind [OF a(1)] yields_ok; simp)
  qed
qed

lemma call_arg_sublist: "call_arg (map trim (splitn_char n c args)) k = Some s \<Longrightarrow> sublist s args"
  by (auto simp: call_arg_def split: if_splits)
    (metis nth_mem sublist_splitn sublist_order.order_trans sublist_trim)

lemma clauses_ok:
  assumes "length src < 2 ^ 28" "sublist rhs src"
  shows "yields src (parse_clauses env mth rhs)
     (\<lambda>(var, fmt, hs). list_all (\<lambda>h. header_allowed env (fst h) \<and> good_tree (snd h)) hs)"
  unfolding parse_clauses_def
proof (rule yields_bind [OF yields_lift [OF lex_result tokens_of_lex [OF assms]]], assumption)
  fix toks assume toks: "tokens_of src toks"
  have t: "case p of (_, ts) \<Rightarrow> tokens_of src ts" if "parse_target mth toks = Ok p" for p
    using that parse_target_ok tokens_of_suffix [OF toks] by (cases p) blast
  have f: "case p of (_, us) \<Rightarrow> tokens_of src us" if "tokens_of src ts" "parse_format mth ts = Ok p" for ts p
    using that parse_format_ok tokens_of_suffix by (cases p) blast
  show "yields src
     (bindS (liftS (parse_target mth toks)) (\<lambda>(target_var, ts).
      bindS (liftS (parse_format mth ts)) (\<lambda>(fmt, us).
      bindS (parse_headers (Suc (length us)) env mth us) (\<lambda>(headers, left).
      bindS (liftS (assert_cursor_empty left (''network call `'' @ method_as_str mth @ ''`''))) (\<lambda>_.
        okS (target_var, fmt, headers))))))
     (\<lambda>(var, fmt, hs). list_all (\<lambda>h. header_allowed env (fst h) \<and> good_tree (snd h)) hs)"
    by (rule yields_bind [OF yields_lift [OF call_results(3) t]], assumption, clarify,
        rule yields_bind [OF yields_lift [OF call_results(4) f]], assumption+, clarify,
        rule yields_bind [OF header_clauses_ok], assumption, simp, clarify,
        rule yields_bind [OF yields_lift [OF cursor_empty_result, where A = "\<lambda>_. True"]], simp, rule yields_ok, simp)
qed

lemma request_args_ok:
  assumes l: "length src < 2 ^ 28" and args: "sublist args src"
  shows "yields src (parse_call_args_of env mth args registry)
     (\<lambda>(y, p, pp). declared registry Api y \<and> (\<forall>e. p = Some e \<or> pp = Some e \<longrightarrow> good_tree e) \<and> (p \<noteq> None \<longrightarrow> has_body mth))"
proof -
  let ?parts = "map trim (splitn_char 3 CHR '','' args)"
  have arg: "sublist s src" if "call_arg ?parts k = Some s" for k s
    using call_arg_sublist [OF that] args sublist_order.order_trans by blast
  have slots: "yields src (parse_call_slots env mth (call_arg ?parts 1) (call_arg ?parts 2))
     (\<lambda>(p, pp). (\<forall>e. p = Some e \<or> pp = Some e \<longrightarrow> good_tree e) \<and> (p \<noteq> None \<longrightarrow> has_body mth))"
    by (rule slots_ok [OF l]) (use arg in auto)
  have al: "declared registry Api y" if "check_alias mth al y registry = Ok u" for al y u
    using that by (auto simp: check_alias_def declared_def split: option.splits if_splits)
  show ?thesis
    unfolding parse_call_args_of_def Let_def
    by (rule valid_option, rule yields_lift [OF call_results(1)], simp, rule yields_bind [OF yields_intern],
        rule yields_bind [OF yields_lift [OF call_results(6) al]], assumption, rule yields_bind [OF slots], clarify, rule yields_ok)
      auto
qed

lemma request_ok:
  assumes l: "length src < 2 ^ 28" and r: "sublist rest src"
  shows "yields src (parse_network_call env mth rest registry)
     (\<lambda>a. list_all good_tree (trees_in a) \<and> request_allowed env registry a)"
proof -
  have s: "case v of (args, rhs) \<Rightarrow> sublist args src \<and> sublist rhs src" if "split_call mth rest = Ok v" for v
    using that split_call_parts r sublist_order.order_trans by (cases v) blast
  show ?thesis
    unfolding parse_network_call_def
    by (rule yields_bind [OF yields_lift [OF call_results(2) s]], assumption, clarify,
        rule yields_bind [OF clauses_ok [OF l]], assumption, clarify,
        rule yields_bind [OF request_args_ok [OF l]], assumption, clarify, rule yields_ok)
      (auto simp: list_all_iff split: option.splits)
qed

lemma download_action_ok: "yields src (parse_download s registry)
     (\<lambda>a. list_all good_tree (trees_in a) \<and> request_allowed env registry a \<and> download_of registry a)"
proof -
  have media: "declared registry Media y" if "check_download al y registry = Ok u" for al y u
    using that by (auto simp: check_download_def declared_def split: option.splits if_splits)
  have tree: "\<exists>tree. download_tree d y = Ok tree \<and> good_tree tree" for d y
    by (simp add: download_tree_def alloc_def arena_new_def push_args_def good_tree_def tree_wf_def parsed_tree_def
        children_first_def expr_children_def wf_defs less_Suc_eq)
  have whole: "yields src (bindS (liftS (download_tree d y)) (\<lambda>tree. okS (AEval tree)))
      (\<lambda>a. list_all good_tree (trees_in a) \<and> request_allowed env registry a \<and> download_of registry a)"
    if "declared registry Media y" for d y
    using tree [of d y] that by (fastforce simp: valid_def bindS_def liftS_def okS_def download_of_def)
  show ?thesis
    unfolding parse_download_def Let_def
    by (rule valid_option, rule yields_error, simp split: prod.splits,
        intro allI impI conjI yields_error yields_bind [OF yields_intern]
          yields_bind [OF yields_lift [OF call_results(7) media]] whole)
qed

lemma assignment_ok:
  assumes l: "length src < 2 ^ 28" and s: "sublist s src"
  shows "yields src (parse_assignment env act s eq_pos)
     (\<lambda>a. list_all good_tree (trees_in a) \<and> request_allowed env registry a)"
proof -
  have r: "sublist (trim (drop n s)) src" for n
    by (meson s sublist_trim sublist_drop sublist_order.order_trans)
  show ?thesis
    unfolding parse_assignment_def Let_def
    by (rule valid_if, rule yields_error, rule yields_bind [OF yields_whole [OF l r]], rule yields_ok) simp
qed

lemma expression_action_ok:
  assumes l: "length src < 2 ^ 28" and s: "sublist s src"
  shows "yields src (bindS (parse_whole env s context) (\<lambda>tree. okS (AEval tree)))
     (\<lambda>a. list_all good_tree (trees_in a) \<and> request_allowed env registry a)"
    "yields src (bindS (parse_whole env (trim s) context) (\<lambda>url. okS (ANavigate url)))
     (\<lambda>a. list_all good_tree (trees_in a) \<and> request_allowed env registry a)"
proof -
  have t: "sublist (trim s) src" using s sublist_order.order_trans [OF sublist_trim] by blast
  show "yields src (bindS (parse_whole env s context) (\<lambda>tree. okS (AEval tree)))
     (\<lambda>a. list_all good_tree (trees_in a) \<and> request_allowed env registry a)"
    by (rule yields_bind [OF yields_whole [OF l s]], rule yields_ok) simp
  show "yields src (bindS (parse_whole env (trim s) context) (\<lambda>url. okS (ANavigate url)))
     (\<lambda>a. list_all good_tree (trees_in a) \<and> request_allowed env registry a)"
    by (rule yields_bind [OF yields_whole [OF l t]], rule yields_ok) simp
qed

lemma http_verb_no_download: "http_verb s = Some mth \<Longrightarrow> \<not> prefix ''download('' s"
  by (auto simp: http_verb_def prefix_def split: if_splits)

lemma action_with_urls_ok:
  assumes l: "length act < 2 ^ 28"
  shows "yields act (parse_action_with_urls env act registry)
     (\<lambda>a. list_all good_tree (trees_in a) \<and> request_allowed env registry a
        \<and> (prefix ''download('' (trim act) \<longrightarrow> download_of registry a))"
proof -
  let ?s = "trim act" and ?A = "\<lambda>a. list_all good_tree (trees_in a) \<and> request_allowed env registry a"
  let ?B = "\<lambda>a. list_all good_tree (trees_in a) \<and> request_allowed env registry a
        \<and> (prefix ''download('' ?s \<longrightarrow> download_of registry a)"
  have d: "sublist (drop n ?s) act" for n
    by (meson sublist_trim sublist_drop sublist_order.order_trans)
  have n: "sublist rest act" if "strip_prefix ''navigate '' ?s = Some rest" for rest
    using that d [of 9] by simp
  have plain: "yields act m ?B" if "yields act m ?A" "\<not> prefix ''download('' ?s" for m
    by (rule yields_weaken [OF that(1)]) (use that(2) in auto)
  have dl: "yields act (parse_download ?s registry) ?B"
    by (rule yields_weaken [OF download_action_ok [where env = env]]) auto
  show ?thesis
    unfolding parse_action_with_urls_def Let_def
  proof (rule valid_option [rotated], goal_cases)
    case (1 mth)
    show ?case by (rule plain [OF request_ok [OF l d]]) (rule http_verb_no_download [OF 1])
  next
    case 2
    show ?case
    proof (rule valid_option [rotated], rule yields_error, rule valid_if, rule dl, rule valid_option [rotated])
      fix rest assume "strip_prefix ''navigate '' ?s = Some rest" "\<not> prefix ''download('' ?s"
      then show "yields act (bindS (parse_whole env (trim rest) ''`navigate ...`'') (\<lambda>url. okS (ANavigate url))) ?B"
        by (intro plain expression_action_ok(2) [OF l] n)
    next
      assume nd: "\<not> prefix ''download('' ?s"
      show "yields act
        (case find_assignment_eq ?s of
           Some eq_pos \<Rightarrow> parse_assignment env act ?s eq_pos
         | None \<Rightarrow>
             if ?s = [] then errS (ParseError ''action cannot be empty'')
             else bindS (parse_whole env ?s (''`'' @ ?s @ ''`'')) (\<lambda>tree. okS (AEval tree))) ?B"
        by (intro plain [OF _ nd] valid_option valid_if yields_error assignment_ok [OF l] expression_action_ok(1) [OF l]
            sublist_trim)
    qed
  qed
qed


text \<open>A registry with one endpoint, and an environment that refuses no header name.\<close>

definition sample_env :: parse_env where
  "sample_env = \<lparr>pe_max_depth = 256, pe_header_error = (\<lambda>_. None), pe_alphabetic = (\<lambda>_. False), pe_alphanumeric = (\<lambda>_. False)\<rparr>"


text \<open>Text after the payload of a call is dropped, where every other expression is checked to its end.\<close>

lemmas lex_eval = lex_def lines_def newline_def strip_cr_def trim_plain trim_sides_plain plain_def leading_spaces_def
  open_line_def top_level_def lex_step_def ident_start_def ident_char_def is_alpha_def word_token_def Let_def is_digit_def
lemma lex_two_words: "lex ''a b'' = Ok [KIdent ''a'', KIdent ''b'', KNewline]"
  by (simp add: lex_eval)

lemma two_words_tree:
  "\<exists>tree t'. parse_expr_tree d [KIdent ''a'', KIdent ''b'', KNewline] t = (Ok (tree, [KIdent ''b'', KNewline]), t')"
  by (cases "get_or_intern t ''a''")
    (simp add: parse_expr_tree_def comput_defs next_tok_def peek_def infix_turn_def parse_ident_def internS_def split: prod.split)

lemma payload_end_unchecked:
  "is_ok (fst (parse_optional env (Some ''a b'') t)) \<and> \<not> is_ok (fst (parse_whole env ''a b'' context t))"
  using two_words_tree [of "pe_max_depth env" t]
  by (auto simp: parse_optional_def parse_whole_def parse_source_def lex_two_words comput_defs)

text \<open>An equals sign inside a string makes an assignment of the call around it.\<close>

lemma string_equals_is_assignment:
  "find_assignment_eq (''f('' @ [CHR 0x22] @ ''a=b'' @ [CHR 0x22] @ '')'') = Some 4"
  by (simp add: find_assignment_eq_def)

end
