(* ===== verification/Mizu_Call_Graph.thy ===== *)
theory Mizu_Call_Graph
  imports Mizu_Typecheck
begin

text \<open>
  The check against recursion (\<^verbatim>\<open>check_dag\<close> of \<^verbatim>\<open>parser/logic/parse/entry.rs\<close>): a topological sort of
  the call graph of a document's functions. It accepts exactly the tables without a cycle, in
  whatever order they are iterated, and the walks it is built on never fail on parsed trees.
\<close>

section \<open>The graph\<close>

definition callees :: "function_list \<Rightarrow> symbol \<times> mizu_function \<Rightarrow> (symbol \<times> symbol list) outcome" where
  "callees fs entry =
     (case entry of (y, func) \<Rightarrow>
        bindO (tree_calls (set (map fst fs)) (fn_body func)) (\<lambda>calls.
          Ok (y, filter (\<lambda>c. c \<in> set (map fst fs)) (sorted_list_of_set calls))))"

definition in_degrees :: "(symbol \<times> symbol list) list \<Rightarrow> symbol \<Rightarrow> nat" where
  "in_degrees edges = fold (\<lambda>(_, cs). fold (\<lambda>c deg. deg(c := deg c + 1)) cs) edges (\<lambda>_. 0)"

text \<open>The neighbours of one node: their degrees fall, saturating, and who has none left is queued.\<close>

fun relax_calls :: "symbol list \<Rightarrow> (symbol \<Rightarrow> nat) \<Rightarrow> symbol list \<Rightarrow> (symbol \<Rightarrow> nat) \<times> symbol list" where
  "relax_calls [] deg queue = (deg, queue)"
| "relax_calls (c # cs) deg queue =
     relax_calls cs (deg(c := deg c - 1)) (if deg c - 1 = 0 then queue @ [c] else queue)"

text \<open>The loop counts the nodes it visits. A node enters the queue once, so their number is fuel enough.\<close>

fun dag_loop :: "nat \<Rightarrow> (symbol \<times> symbol list) list \<Rightarrow> (symbol \<Rightarrow> nat) \<Rightarrow> symbol list \<Rightarrow> nat \<Rightarrow> nat outcome" where
  "dag_loop n edges deg [] visited = Ok visited"
| "dag_loop 0 edges deg (y # queue) visited = Fail OutOfFuel"
| "dag_loop (Suc n) edges deg (y # queue) visited =
     (case relax_calls (case map_of edges y of None \<Rightarrow> [] | Some cs \<Rightarrow> cs) deg queue of
        (deg', queue') \<Rightarrow> dag_loop n edges deg' queue' (Suc visited))"

definition cycle_message :: string where
  "cycle_message = ''Recursion and infinite loops are strictly forbidden: a cycle was detected in the function call graph''"

definition check_dag :: "function_list \<Rightarrow> unit outcome" where
  "check_dag functions =
     bindO (mapO (callees functions) functions) (\<lambda>edges.
     bindO (dag_loop (length functions) edges (in_degrees edges)
              (filter (\<lambda>y. in_degrees edges y = 0) (map fst functions)) 0) (\<lambda>visited.
       if visited \<noteq> length functions then Err (ParseError cycle_message) else Ok ()))"

section \<open>Walks over parsed trees\<close>

lemma walk_returns:
  assumes "\<And>i out. i \<in> set ids \<Longrightarrow> \<exists>e out'. arena_get ar i = Ok e \<and> f e out = Ok out'"
  shows "\<exists>out'. walk f ar ids out = Ok out'"
  using assms
proof (induction ids arbitrary: out)
  case (Cons i ids)
  then obtain e out1 where "arena_get ar i = Ok e" "f e out = Ok out1" by fastforce
  then show ?case using Cons by fastforce
qed simp

lemma child_ready:
  assumes "arena_ok ar" "children_first ar" "node_ok ar e" "\<forall>j \<in> set (expr_children ar e). j < Suc n" "j \<in> set (expr_children ar e)"
  shows "arena_get ar j = Ok (nodes ar ! j) \<and> node_ok ar (nodes ar ! j) \<and> (\<forall>k \<in> set (expr_children ar (nodes ar ! j)). k < n)"
proof -
  have j: "j < length (nodes ar)"
    using assms(1,3,5)
    by (cases e) (auto simp: expr_children_def node_ok_def arena_ok_def list_all_iff dest!: in_set_takeD in_set_dropD)
  then show ?thesis
    using assms by (fastforce simp: arena_get_def index_or_panic_def arena_ok_def list_all_length children_first_def)
qed

lemma children_args:
  "node_ok ar (EFunctionCall y s l) \<Longrightarrow> arena_args ar s l = Ok (expr_children ar (EFunctionCall y s l))"
  by (simp add: node_ok_def arena_args_def expr_children_def)

lemma collect_calls_returns:
  assumes "arena_ok ar" "children_first ar"
  shows "node_ok ar e \<Longrightarrow> \<forall>j \<in> set (expr_children ar e). j < n \<Longrightarrow> \<exists>S. collect_calls (Suc n) ar names e out = Ok S"
proof (induction n arbitrary: e out)
  case 0
  then show ?case by (cases e) (auto simp: expr_children_def arena_args_def node_ok_def)
next
  case (Suc n)
  have w: "\<exists>S. walk (collect_calls (Suc n) ar names) ar ids out' = Ok S" if "set ids \<subseteq> set (expr_children ar e)" for ids out'
    by (rule walk_returns) (use child_ready [OF assms Suc.prems] Suc.IH that in blast)
  show ?case
    unfolding collect_calls.simps(2) [of "Suc n"] Let_def
    using w Suc.prems(1) children_args
    by (cases e) (auto simp: expr_children_def simp del: collect_calls.simps walk.simps)
qed

lemma collect_vars_returns:
  assumes "arena_ok ar" "children_first ar"
  shows "node_ok ar e \<Longrightarrow> \<forall>j \<in> set (expr_children ar e). j < n \<Longrightarrow> \<exists>S. collect_vars (Suc n) ar e out = Ok S"
proof (induction n arbitrary: e out)
  case 0
  then show ?case by (cases e) (auto simp: expr_children_def arena_args_def node_ok_def)
next
  case (Suc n)
  have w: "\<exists>S. walk (collect_vars (Suc n) ar) ar ids out' = Ok S" if "set ids \<subseteq> set (expr_children ar e)" for ids out'
    by (rule walk_returns) (use child_ready [OF assms Suc.prems] Suc.IH that in blast)
  show ?case
    unfolding collect_vars.simps(2) [of "Suc n"] Let_def
    using w Suc.prems(1) children_args
    by (cases e) (auto simp: expr_children_def simp del: collect_vars.simps walk.simps)
qed

lemma collect_free_vars_returns:
  assumes "arena_ok ar" "children_first ar"
  shows "node_ok ar e \<Longrightarrow> \<forall>j \<in> set (expr_children ar e). j < n \<Longrightarrow> \<exists>S. collect_free_vars (Suc n) ar B e out = Ok S"
proof (induction n arbitrary: e out B)
  case 0
  then show ?case by (cases e) (auto simp: expr_children_def arena_args_def node_ok_def)
next
  case (Suc n)
  have w: "\<exists>S. walk (collect_free_vars (Suc n) ar B') ar ids out' = Ok S" if "set ids \<subseteq> set (expr_children ar e)" for ids out' B'
    by (rule walk_returns) (use child_ready [OF assms Suc.prems] Suc.IH that in blast)
  show ?case
  proof (cases e)
    case (ELet y v b)
    then obtain S where "walk (collect_free_vars (Suc n) ar B) ar [v] out = Ok S"
      using w [of "[v]" B out] by (auto simp: expr_children_def simp del: collect_free_vars.simps walk.simps)
    moreover obtain S' where "walk (collect_free_vars (Suc n) ar (insert y B)) ar [b] S = Ok S'"
      using w [of "[b]" "insert y B" S] ELet by (auto simp: expr_children_def simp del: collect_free_vars.simps walk.simps)
    ultimately show ?thesis
      unfolding collect_free_vars.simps(2) [of "Suc n"] Let_def ELet by (simp del: collect_free_vars.simps walk.simps)
  qed (unfold collect_free_vars.simps(2) [of "Suc n"] Let_def,
      insert w Suc.prems(1) children_args, auto simp: expr_children_def simp del: collect_free_vars.simps walk.simps)
qed

lemma parsed_root:
  assumes "parsed_tree t"
  obtains e where "root_expr t = Ok e" "node_ok (tree_arena t) e"
    "\<forall>j \<in> set (expr_children (tree_arena t) e). j < length (nodes (tree_arena t))"
    "arena_ok (tree_arena t)" "children_first (tree_arena t)"
proof (rule that)
  let ?ar = "tree_arena t"
  have wf: "arena_ok ?ar" "children_first ?ar" "tree_root t < length (nodes ?ar)" using assms by (auto simp: parsed_tree_def)
  show "arena_ok ?ar" "children_first ?ar" by (rule wf)+
  show "root_expr t = Ok (nodes ?ar ! tree_root t)" using wf by (simp add: root_expr_def arena_get_def index_or_panic_def)
  show "node_ok ?ar (nodes ?ar ! tree_root t)" using wf by (simp add: arena_ok_def list_all_length)
  show "\<forall>j \<in> set (expr_children ?ar (nodes ?ar ! tree_root t)). j < length (nodes ?ar)"
    using wf by (fastforce simp: children_first_def)
qed

lemma tree_calls_returns: "parsed_tree t \<Longrightarrow> \<exists>C. tree_calls names t = Ok C"
  by (erule parsed_root)
    (auto simp: tree_calls_def walk_fuel_def simp del: collect_calls.simps intro!: collect_calls_returns)

lemma free_reads_returns: "parsed_tree (fn_body f) \<Longrightarrow> \<exists>S. free_reads f out = Ok S"
  by (erule parsed_root)
    (auto simp: free_reads_def walk_fuel_def simp del: collect_free_vars.simps intro!: collect_free_vars_returns)

lemma reads_loop_returns:
  "list_all (\<lambda>(_, f). parsed_tree (fn_body f)) fl \<Longrightarrow> \<exists>S. reads_loop fl ys visited out = Ok S"
proof (induction fl ys visited out rule: reads_loop.induct)
  case (2 fl y ys visited out)
  show ?case
  proof (cases "y \<in> visited \<or> map_of fl y = None")
    case False
    then obtain f where f: "y \<notin> visited" "map_of fl y = Some f" by auto
    then have p: "parsed_tree (fn_body f)" using 2(4) by (auto simp: list_all_iff dest!: map_of_SomeD)
    obtain S C where s: "free_reads f out = Ok S" and c: "tree_calls (set (map fst fl)) (fn_body f) = Ok C"
      using free_reads_returns [OF p] tree_calls_returns [OF p] by blast
    show ?thesis using 2(3) [OF f 2(4)] f s c by simp
  next
    case True
    then show ?thesis using 2(1,2,4) by (cases "y \<in> visited") simp_all
  qed
qed simp

lemma comp_dependencies_returns:
  assumes "parsed_tree t" "list_all (\<lambda>(_, f). parsed_tree (fn_body f)) fl"
  shows "\<exists>deps. comp_dependencies name t fl = Ok deps"
proof -
  obtain e where e: "root_expr t = Ok e" "node_ok (tree_arena t) e"
    "\<forall>j \<in> set (expr_children (tree_arena t) e). j < length (nodes (tree_arena t))"
    using parsed_root [OF assms(1)] by blast
  obtain S where "collect_vars (walk_fuel (tree_arena t)) (tree_arena t) e {} = Ok S"
    using collect_vars_returns [OF _ _ e(2,3)] assms(1) unfolding walk_fuel_def parsed_tree_def by blast
  moreover obtain C where "tree_calls (set (map fst fl)) t = Ok C" using tree_calls_returns [OF assms(1)] by blast
  moreover obtain S' where "reads_loop fl (rev (sorted_list_of_set C)) {} S = Ok S'"
    using reads_loop_returns [OF assms(2)] by blast
  ultimately show ?thesis
    using e(1) by (simp add: comp_dependencies_def collect_reachable_function_reads_def)
qed

section \<open>The sort\<close>

definition graph_rel :: "(symbol \<times> symbol list) list \<Rightarrow> (symbol \<times> symbol) set" where
  "graph_rel edges = {(x, c). \<exists>cs. (x, cs) \<in> set edges \<and> c \<in> set cs}"

definition graph_ok :: "(symbol \<times> symbol list) list \<Rightarrow> bool" where
  "graph_ok edges \<longleftrightarrow> distinct (map fst edges) \<and>
     (\<forall>(y, cs) \<in> set edges. distinct cs \<and> set cs \<subseteq> set (map fst edges))"

text \<open>The callers of \<open>c\<close> that have not been visited.\<close>

definition callers :: "(symbol \<times> symbol list) list \<Rightarrow> symbol set \<Rightarrow> symbol \<Rightarrow> nat" where
  "callers edges V c = length (filter (\<lambda>(x, cs). x \<notin> V \<and> c \<in> set cs) edges)"

lemma count_distinct: "distinct cs \<Longrightarrow> count_list cs c = (if c \<in> set cs then 1 else 0)"
  by (induction cs) auto

lemma in_degrees_callers:
  assumes "\<forall>(y, cs) \<in> set edges. distinct cs"
  shows "in_degrees edges c = callers edges {} c"
proof -
  have i: "fold (\<lambda>c deg. deg(c := Suc (deg c))) cs d c = d c + count_list cs c" for cs and d :: "symbol \<Rightarrow> nat"
    by (induction cs arbitrary: d) auto
  have "fold (\<lambda>(_, cs). fold (\<lambda>c deg. deg(c := deg c + 1)) cs) edges d c = d c + callers edges {} c" for d
    using assms by (induction edges arbitrary: d) (auto simp: i callers_def count_distinct)
  then show ?thesis by (simp add: in_degrees_def)
qed

lemma callers_visit:
  "distinct (map fst edges) \<Longrightarrow> (y, cs) \<in> set edges \<Longrightarrow> y \<notin> V \<Longrightarrow>
   callers edges V c = callers edges (insert y V) c + (if c \<in> set cs then 1 else 0)"
proof (induction edges)
  case (Cons p edges)
  obtain x ds where p: "p = (x, ds)" by fastforce
  show ?case
  proof (cases "x = y")
    case True
    then have "ds = cs" using Cons.prems p by (auto simp: image_iff)
    moreover have "callers edges (insert y V) c = callers edges V c"
      unfolding callers_def
      by (rule arg_cong [where f = length], rule filter_cong) (use Cons.prems(1) True p in \<open>auto simp: image_iff\<close>)
    ultimately show ?thesis using True Cons.prems(3) by (simp add: callers_def p)
  next
    case False
    then show ?thesis using Cons p by (auto simp: callers_def)
  qed
qed simp

lemma callers_zero: "callers edges V c = 0 \<longleftrightarrow> (\<forall>x. (x, c) \<in> graph_rel edges \<longrightarrow> x \<in> V)"
  by (auto simp: callers_def graph_rel_def filter_empty_conv)

lemma relax_calls_result:
  "distinct cs \<Longrightarrow> \<forall>c \<in> set cs. 0 < deg c \<Longrightarrow>
   relax_calls cs deg q = (\<lambda>y. if y \<in> set cs then deg y - 1 else deg y, q @ filter (\<lambda>c. deg c = 1) cs)"
proof (induction cs arbitrary: deg q)
  case (Cons c cs)
  then have d: "deg c - 1 = 0 \<longleftrightarrow> deg c = 1" by fastforce
  have f: "filter (\<lambda>x. (deg(c := deg c - 1)) x = 1) cs = filter (\<lambda>x. deg x = 1) cs"
    using Cons.prems(1) by (intro filter_cong) auto
  have "relax_calls cs (deg(c := deg c - 1)) q' =
      (\<lambda>y. if y \<in> set cs then (deg(c := deg c - 1)) y - 1 else (deg(c := deg c - 1)) y, q' @ filter (\<lambda>x. deg x = 1) cs)" for q'
    using Cons.IH [of "deg(c := deg c - 1)"] Cons.prems unfolding f by fastforce
  then show ?case using Cons.prems d by (auto simp: fun_eq_iff)
qed simp

definition dag_inv :: "(symbol \<times> symbol list) list \<Rightarrow> symbol list \<Rightarrow> (symbol \<Rightarrow> nat) \<Rightarrow> symbol list \<Rightarrow> bool" where
  "dag_inv edges ord deg q \<longleftrightarrow> distinct (ord @ q) \<and> set (ord @ q) \<subseteq> set (map fst edges)
     \<and> (\<forall>c \<in> set (map fst edges). deg c = callers edges (set ord) c)
     \<and> (\<forall>c \<in> set (map fst edges). deg c = 0 \<longleftrightarrow> c \<in> set (ord @ q))
     \<and> (\<forall>xs c ys. ord = xs @ c # ys \<longrightarrow> (\<forall>x. (x, c) \<in> graph_rel edges \<longrightarrow> x \<in> set xs))"

lemma dag_step:
  assumes g: "graph_ok edges" and inv: "dag_inv edges ord deg (y # q)"
  obtains cs deg' q' where "map_of edges y = Some cs" "relax_calls cs deg q = (deg', q')" "dag_inv edges (ord @ [y]) deg' q'"
proof -
  let ?K = "set (map fst edges)"
  have y: "y \<in> ?K" "y \<notin> set ord" "deg y = 0" using inv by (auto simp: dag_inv_def)
  then obtain cs where cs: "(y, cs) \<in> set edges" by auto
  then have m: "map_of edges y = Some cs" using g by (simp add: graph_ok_def)
  have c: "distinct cs" "set cs \<subseteq> ?K" using g cs by (auto simp: graph_ok_def)
  have v: "callers edges (set ord) c = callers edges (set (ord @ [y])) c + (if c \<in> set cs then 1 else 0)" for c
    using callers_visit [OF _ cs y(2)] g by (simp add: graph_ok_def)
  have d: "deg c = callers edges (set ord) c" if "c \<in> ?K" for c
    using inv that unfolding dag_inv_def by blast
  have pos: "\<forall>c \<in> set cs. 0 < deg c" 
  proof
    fix c assume cs: "c \<in> set cs"
    then have "deg c = callers edges (set ord) c" using d c(2) by blast
    then show "0 < deg c" using v [of c] cs by simp
  qed
  let ?deg = "\<lambda>z. if z \<in> set cs then deg z - 1 else deg z" and ?q = "q @ filter (\<lambda>c. deg c = 1) cs"
  have fresh: "c \<notin> set ord \<and> c \<noteq> y \<and> c \<notin> set q" if "c \<in> set cs" for c
  proof -
    have "c \<in> ?K" "deg c \<noteq> 0" using that c(2) pos by auto
    then show ?thesis using inv by (auto simp: dag_inv_def)
  qed
  have "dag_inv edges (ord @ [y]) ?deg ?q"
    unfolding dag_inv_def
  proof (intro conjI ballI allI impI)
    show "distinct ((ord @ [y]) @ ?q)" using inv fresh c(1) by (auto simp: dag_inv_def)
    show "set ((ord @ [y]) @ ?q) \<subseteq> ?K" using inv c(2) by (auto simp: dag_inv_def)
    show "?deg z = callers edges (set (ord @ [y])) z" if "z \<in> ?K" for z using v [of z] d [OF that] by simp
    show "(?deg z = 0) = (z \<in> set ((ord @ [y]) @ ?q))" if "z \<in> ?K" for z
    proof (cases "z \<in> set cs")
      case True
      have "0 < deg z" using True pos by blast
      then have "deg z - 1 = 0 \<longleftrightarrow> deg z = 1" by linarith
      then show ?thesis using fresh [OF True] True by simp
    next
      case False
      have "deg z = 0 \<longleftrightarrow> z \<in> set (ord @ y # q)" using inv that unfolding dag_inv_def by blast
      then show ?thesis using False by auto
    qed
    show "x \<in> set xs" if "ord @ [y] = xs @ c # ys" "(x, c) \<in> graph_rel edges" for xs c ys x
    proof (cases "ys = []")
      case True
      then have "c = y" "xs = ord" using that(1) by auto
      then show ?thesis using that(2) d [OF y(1)] y(3) callers_zero [of edges "set ord" y] by auto
    next
      case False
      then obtain zs z where "ys = zs @ [z]" by (metis rev_exhaust)
      then have "ord = xs @ c # zs" using that(1) by auto
      then show ?thesis using inv that(2) by (auto simp: dag_inv_def)
    qed
  qed
  then show thesis using that [OF m relax_calls_result [OF c(1) pos]] by blast
qed

lemma dag_loop_result:
  assumes "graph_ok edges" "dag_inv edges ord deg q" "length edges \<le> n + length ord"
  shows "\<exists>ord' deg'. dag_loop n edges deg q (length ord) = Ok (length ord') \<and> dag_inv edges ord' deg' []"
  using assms(2,3)
proof (induction n arbitrary: ord deg q)
  case 0
  have "length (ord @ q) \<le> length edges"
    using 0(1) card_mono [of "set (map fst edges)" "set (ord @ q)"] distinct_card [of "ord @ q"] card_length [of "map fst edges"]
    by (auto simp: dag_inv_def)
  then have "length q = 0" unfolding length_append using 0(2) by linarith
  then have "q = []" by (simp only: length_0_conv)
  then show ?case using 0(1) by auto
next
  case (Suc n)
  show ?case
  proof (cases q)
    case Nil
    then show ?thesis using Suc.prems by auto
  next
    case (Cons y q')
    obtain cs deg' q'' where st: "map_of edges y = Some cs" "relax_calls cs deg q' = (deg', q'')" "dag_inv edges (ord @ [y]) deg' q''"
      using dag_step [OF assms(1)] Suc.prems(1) Cons by blast
    have "length edges \<le> n + length (ord @ [y])" using Suc.prems(2) by simp
    from Suc.IH [OF st(3) this] show ?thesis using st Cons by simp
  qed
qed

lemma takeWhile_tail: "x \<notin> set as \<Longrightarrow> takeWhile (\<lambda>z. z \<noteq> x) (as @ x # bs) = as"
  by (induction as) auto

lemma sorted_acyclic:
  assumes "\<And>xs c ys x. ord = xs @ c # ys \<Longrightarrow> (x, c) \<in> R \<Longrightarrow> x \<in> set xs" "\<And>x c. (x, c) \<in> R \<Longrightarrow> c \<in> set ord"
  shows "acyclic R"
proof -
  let ?pos = "\<lambda>x. length (takeWhile (\<lambda>z. z \<noteq> x) ord)"
  have "?pos x < ?pos c" if r: "(x, c) \<in> R" for x c
  proof -
    obtain xs ys where o: "ord = xs @ c # ys" "c \<notin> set xs"
      using assms(2) [OF r] by (meson split_list_first)
    have x: "x \<in> set xs" using assms(1) [OF o(1) r] .
    have "takeWhile (\<lambda>z. z \<noteq> c) ord = xs" using o by (simp add: takeWhile_tail)
    moreover have "?pos x < length xs"
    proof -
      obtain as bs where "xs = as @ x # bs" "x \<notin> set as" using x by (meson split_list_first)
      moreover from this have "takeWhile (\<lambda>z. z \<noteq> x) ord = as" using o(1) by (simp add: takeWhile_tail)
      ultimately show ?thesis by simp
    qed
    ultimately show ?thesis by simp
  qed
  then have "R \<subseteq> measure ?pos" by auto
  then show ?thesis by (meson acyclic_subset wf_acyclic wf_measure)
qed

lemma stuck_cyclic:
  assumes "finite S" "S \<noteq> {}" "\<And>c. c \<in> S \<Longrightarrow> \<exists>x \<in> S. (x, c) \<in> R"
  shows "\<not> acyclic R"
proof
  assume "acyclic R"
  then have "wf (R \<inter> S \<times> S)"
    using assms(1) by (intro finite_acyclic_wf) (auto intro: finite_subset [of _ "S \<times> S"] acyclic_subset)
  then obtain m where "m \<in> S" "\<And>x. (x, m) \<in> R \<inter> S \<times> S \<Longrightarrow> x \<notin> S"
    using assms(2) by (meson ex_in_conv wfE_min)
  then show False using assms(3) by blast
qed

lemma dag_loop_exact:
  assumes g: "graph_ok edges"
  shows "\<exists>visited. dag_loop (length edges) edges (in_degrees edges) (filter (\<lambda>y. in_degrees edges y = 0) (map fst edges)) 0 = Ok visited
     \<and> (visited = length edges \<longleftrightarrow> acyclic (graph_rel edges))"
proof -
  let ?K = "set (map fst edges)"
  have k: "distinct (map fst edges)" using g by (simp add: graph_ok_def)
  have deg: "in_degrees edges c = callers edges {} c" for c
    by (rule in_degrees_callers) (use g in \<open>auto simp: graph_ok_def\<close>)
  have "dag_inv edges [] (in_degrees edges) (filter (\<lambda>y. in_degrees edges y = 0) (map fst edges))"
    using k by (auto simp: dag_inv_def deg)
  then obtain ord deg where o: "dag_loop (length edges) edges (in_degrees edges)
        (filter (\<lambda>y. in_degrees edges y = 0) (map fst edges)) 0 = Ok (length ord)" and inv: "dag_inv edges ord deg []"
    using dag_loop_result [OF g, of "[]" _ _ "length edges"] by fastforce
  have sub: "distinct ord" "set ord \<subseteq> ?K" using inv by (auto simp: dag_inv_def)
  have len: "length ord = length edges \<longleftrightarrow> set ord = ?K"
  proof
    assume "length ord = length edges"
    then have "card (set ord) = card ?K" using sub(1) k by (metis distinct_card length_map)
    then show "set ord = ?K" using sub(2) by (intro card_subset_eq) simp_all
  next
    assume "set ord = ?K"
    then have "card (set ord) = card ?K" by simp
    then show "length ord = length edges" using sub(1) k by (metis distinct_card length_map)
  qed
  have targets: "x \<in> ?K \<and> c \<in> ?K" if "(x, c) \<in> graph_rel edges" for x c
    using that g by (force simp: graph_rel_def graph_ok_def)
  have "set ord = ?K \<longleftrightarrow> acyclic (graph_rel edges)"
  proof
    assume "set ord = ?K"
    then show "acyclic (graph_rel edges)"
      by (intro sorted_acyclic [of ord]) (use inv targets in \<open>auto simp: dag_inv_def\<close>)
  next
    assume a: "acyclic (graph_rel edges)"
    show "set ord = ?K"
    proof (rule ccontr)
      assume "set ord \<noteq> ?K"
      then have ne: "?K - set ord \<noteq> {}" using sub by blast
      have "\<exists>x \<in> ?K - set ord. (x, c) \<in> graph_rel edges" if "c \<in> ?K - set ord" for c
      proof -
        have "deg c \<noteq> 0" "deg c = callers edges (set ord) c" using that inv by (auto simp: dag_inv_def)
        then show ?thesis using callers_zero [of edges "set ord" c] targets by auto
      qed
      then show False using stuck_cyclic [OF _ ne] a by blast
    qed
  qed
  then show ?thesis using o len by blast
qed

section \<open>The check\<close>

text \<open>Calls between the functions of a table, as \<^verbatim>\<open>collect_calls\<close> sees them in the bodies.\<close>

definition calls_of :: "function_list \<Rightarrow> (symbol \<times> symbol) set" where
  "calls_of functions =
     {(x, c). \<exists>f C. (x, f) \<in> set functions \<and> tree_calls (set (map fst functions)) (fn_body f) = Ok C \<and> c \<in> C
        \<and> c \<in> set (map fst functions)}"

lemma call_edges:
  assumes "list_all (\<lambda>(_, f). parsed_tree (fn_body f)) functions" "distinct (map fst functions)"
  shows "\<exists>edges. mapO (callees functions) functions = Ok edges \<and> map fst edges = map fst functions
     \<and> graph_ok edges \<and> graph_rel edges = calls_of functions"
proof -
  let ?n = "set (map fst functions)"
  define cs where "cs = (\<lambda>f :: mizu_function. case tree_calls ?n (fn_body f) of Ok C \<Rightarrow> filter (\<lambda>c. c \<in> ?n) (sorted_list_of_set C) | Fail _ \<Rightarrow> [])"
  have one: "callees functions (y, f) = Ok (y, cs f) \<and> distinct (cs f) \<and> set (cs f) \<subseteq> ?n
      \<and> (\<forall>c. c \<in> set (cs f) \<longleftrightarrow> (\<exists>C. tree_calls ?n (fn_body f) = Ok C \<and> c \<in> C \<and> c \<in> ?n))"
    if f: "(y, f) \<in> set functions" for y f
  proof -
    have "parsed_tree (fn_body f)" using assms(1) f by (auto simp: list_all_iff)
    then obtain C where C: "tree_calls ?n (fn_body f) = Ok C" using tree_calls_returns by blast
    then have "finite C" by (rule tree_calls_finite)
    then show ?thesis using C by (auto simp: callees_def cs_def)
  qed
  let ?e = "map (\<lambda>(y, f). (y, cs f)) functions"
  have "mapO (callees functions) functions = Ok ?e"
    unfolding mapO_Ok by (simp add: list.rel_map list_all2_same) (use one in auto)
  moreover have fst: "map fst ?e = map fst functions" by (auto simp: case_prod_beta)
  moreover have "graph_ok ?e" using assms(2) one by (auto simp: graph_ok_def fst simp del: map_map)
  moreover have "graph_rel ?e = calls_of functions"
  proof (rule set_eqI, clarify)
    fix x c
    have "(x, c) \<in> graph_rel ?e \<longleftrightarrow> (\<exists>f. (x, f) \<in> set functions \<and> c \<in> set (cs f))"
      by (auto simp: graph_rel_def)
    also have "\<dots> \<longleftrightarrow> (\<exists>f C. (x, f) \<in> set functions \<and> tree_calls ?n (fn_body f) = Ok C \<and> c \<in> C \<and> c \<in> ?n)"
      using one by meson
    finally show "(x, c) \<in> graph_rel ?e \<longleftrightarrow> (x, c) \<in> calls_of functions" by (simp add: calls_of_def)
  qed
  ultimately show ?thesis by blast
qed

lemma check_dag_result:
  assumes "list_all (\<lambda>(_, f). parsed_tree (fn_body f)) functions" "distinct (map fst functions)"
  shows "check_dag functions = (if acyclic (calls_of functions) then Ok () else Err (ParseError cycle_message))"
proof -
  obtain edges where e: "mapO (callees functions) functions = Ok edges" "map fst edges = map fst functions"
    "graph_ok edges" "graph_rel edges = calls_of functions"
    using call_edges [OF assms] by blast
  have "length edges = length functions" using e(2) by (metis length_map)
  then show ?thesis using dag_loop_exact [OF e(3)] e by (auto simp: check_dag_def)
qed

text \<open>
  (C11) \<^verbatim>\<open>check_dag\<close> is exact on the functions of a parsed document: it accepts them when no chain of
  calls leads from a function back to itself, reports the recursion otherwise, and has no other
  outcome, whatever the order of the table.
\<close>

theorem check_dag_exact:
  assumes "list_all (\<lambda>(_, f). parsed_tree (fn_body f)) functions" "distinct (map fst functions)"
  shows "check_dag functions = (if acyclic (calls_of functions) then Ok () else Err (ParseError cycle_message))"
  by (rule check_dag_result [OF assms])

text \<open>Two functions that refer to each other.\<close>

definition mutual_functions :: function_list where
  "mutual_functions =
     [(0, \<lparr>fn_params = [], fn_body = \<lparr>tree_arena = \<lparr>nodes = [EVariable 1], args_pool = []\<rparr>, tree_root = 0\<rparr>\<rparr>),
      (1, \<lparr>fn_params = [], fn_body = \<lparr>tree_arena = \<lparr>nodes = [EVariable 0], args_pool = []\<rparr>, tree_root = 0\<rparr>\<rparr>)]"

theorem check_dag_exact_witness:
  "check_dag mutual_functions = Err (ParseError cycle_message)"
proof -
  have "parsed_tree \<lparr>tree_arena = \<lparr>nodes = [EVariable y], args_pool = []\<rparr>, tree_root = 0\<rparr>" for y
    by (simp add: parsed_tree_def children_first_def arena_ok_def node_ok_def expr_children_def)
  then have e: "check_dag mutual_functions = (if acyclic (calls_of mutual_functions) then Ok () else Err (ParseError cycle_message))"
    by (intro check_dag_exact) (simp_all add: mutual_functions_def)
  have "(0, 1) \<in> calls_of mutual_functions" "(1, 0) \<in> calls_of mutual_functions"
    by (simp_all add: calls_of_def mutual_functions_def tree_calls_def root_expr_def arena_get_def index_or_panic_def walk_fuel_def)
  then have "(0, 0) \<in> (calls_of mutual_functions)\<^sup>+" by (meson trancl.simps)
  then have "\<not> acyclic (calls_of mutual_functions)" by (auto simp: acyclic_def)
  then show ?thesis using e by simp
qed

end
