(* ===== verification/Mizu_Parse_Logic.thy ===== *)
theory Mizu_Parse_Logic
  imports Mizu_Parse_Action Mizu_Call_Graph
begin

text \<open>
  The logic block of a document: function blocks with their typed parameters
  (\<^verbatim>\<open>parser/logic/parse/functions.rs\<close>), the table of functions and the timers
  (\<^verbatim>\<open>parser/logic/parse/entry.rs\<close>), and the computed variables
  (\<^verbatim>\<open>parse_computed_with_functions\<close> of \<^verbatim>\<open>parser/logic/comp.rs\<close>). The last part puts them together as
  loading a document does, and shows that what is accepted meets the assumptions of the type
  check and of the session.
\<close>

section \<open>Lines of a block\<close>

definition block_baseline :: "string list \<Rightarrow> nat" where
  "block_baseline ls =
     (case filter (\<lambda>l. trim l \<noteq> []) ls of
        [] \<Rightarrow> 0
      | l # rest \<Rightarrow> fold (\<lambda>x least. min (leading_spaces x) least) rest (leading_spaces l))"

definition is_timer_line :: "string \<Rightarrow> bool" where
  "is_timer_line stripped \<longleftrightarrow> prefix ''timer '' (trim_start stripped) \<or> trim stripped = ''timer''"

definition is_comp_line :: "string \<Rightarrow> bool" where
  "is_comp_line stripped \<longleftrightarrow> prefix ''comp '' (trim_start stripped)"

definition flush_group :: "string list \<Rightarrow> string list list" where
  "flush_group current = (if current = [] then [] else [current])"

text \<open>One group of lines for each function; timers and computed variables end a group.\<close>

fun group_lines :: "nat \<Rightarrow> string list \<Rightarrow> string list \<Rightarrow> string list list" where
  "group_lines baseline current [] = flush_group current"
| "group_lines baseline current (line # ls) =
     (if trim line = [] then group_lines baseline current ls
      else let stripped = drop baseline line in
        if leading_spaces line = baseline
        then if is_timer_line stripped \<or> is_comp_line stripped
          then flush_group current @ group_lines baseline [] ls
          else flush_group current @ group_lines baseline [stripped] ls
        else group_lines baseline (current @ [stripped]) ls)"

section \<open>Types\<close>

definition type_syntax :: "string \<Rightarrow> 'a outcome" where
  "type_syntax msg = Err (ParseError msg)"

definition skip_token :: "token \<Rightarrow> token list \<Rightarrow> token list" where
  "skip_token t ts = (if head_token ts = Some t then tl ts else ts)"

type_synonym type_parser = "token list \<Rightarrow> (value_type \<times> token list) outcome"

definition parse_list_type :: "type_parser \<Rightarrow> type_parser" where
  "parse_list_type sub ts =
     (if head_token ts \<noteq> Some KLt then type_syntax (''expected `<` after `list`, got '' @ debug_next (head_token ts))
      else bindO (sub (tl ts)) (\<lambda>(inner, us).
        if head_token us \<noteq> Some KGt then type_syntax (''expected `>` after list type, got '' @ debug_next (head_token us))
        else Ok (TList inner, tl us)))"

primrec parse_record_fields :: "nat \<Rightarrow> type_parser \<Rightarrow> token list \<Rightarrow> ((string \<times> value_type) list \<times> token list) outcome" where
  "parse_record_fields 0 sub ts = Fail OutOfFuel"
| "parse_record_fields (Suc n) sub ts =
     (if head_token ts = None \<or> head_token ts = Some KRBrace then Ok ([], ts)
      else case ts of
        KIdent field_name # us \<Rightarrow>
          if head_token us \<noteq> Some KColon then type_syntax (''expected `:` after field name, got '' @ debug_next (head_token us))
          else bindO (sub (tl us)) (\<lambda>(field_type, vs).
               bindO (parse_record_fields n sub (skip_token KComma vs)) (\<lambda>(fs, ws).
                 Ok ((field_name, field_type) # fs, ws)))
      | _ \<Rightarrow> type_syntax (''expected field name, got '' @ debug_next (head_token ts)))"

definition parse_record_type :: "type_parser \<Rightarrow> type_parser" where
  "parse_record_type sub ts =
     (if head_token ts \<noteq> Some KLBrace then type_syntax (''expected `{` after `record`, got '' @ debug_next (head_token ts))
      else bindO (parse_record_fields (Suc (length ts)) sub (tl ts)) (\<lambda>(fs, us).
        if head_token us \<noteq> Some KRBrace then type_syntax (''expected `}` after record fields, got '' @ debug_next (head_token us))
        else Ok (TRecord (sort_key fst fs), tl us)))"

definition parse_base_type :: "type_parser \<Rightarrow> type_parser" where
  "parse_base_type sub ts =
     (case ts of
        KIdent name # us \<Rightarrow>
          let lower = map ascii_lower name in
          if lower = ''num'' \<or> lower = ''number'' then Ok (TNum, us)
          else if lower = ''string'' \<or> lower = ''str'' then Ok (TStr, us)
          else if lower = ''bool'' \<or> lower = ''boolean'' then Ok (TBool, us)
          else if lower = ''list'' then parse_list_type sub us
          else if lower = ''record'' then parse_record_type sub us
          else if lower = ''dict'' \<or> lower = ''any''
          then type_syntax (''type `'' @ name @ ''` is not supported; use: num, string, bool, list<T>, record{...}, or T?'')
          else type_syntax (''unknown type `'' @ lower @ ''`; valid types: num, string, bool, list<T>, record{...}, or T?'')
      | _ \<Rightarrow> type_syntax (''expected type name, got '' @ debug_next (head_token ts)))"

text \<open>
  The type of a parameter. Every nested type takes a token, so one level more than there are
  tokens is fuel enough; the source has no limit of its own.
\<close>

primrec parse_type :: "nat \<Rightarrow> type_parser" where
  "parse_type 0 ts = Fail OutOfFuel"
| "parse_type (Suc n) ts =
     bindO (parse_base_type (parse_type n) ts) (\<lambda>(base_type, us).
       Ok (if head_token us = Some KQuestion then (TNullable base_type, tl us) else (base_type, us)))"

section \<open>Parameters\<close>

definition intern_name :: "string \<Rightarrow> symbol interning" where
  "intern_name name t = (case get_or_intern t name of (y, t') \<Rightarrow> (Ok y, t'))"

definition context_name :: "string \<Rightarrow> string" where
  "context_name header = trim (case split_char CHR ''('' header of None \<Rightarrow> header | Some (before, _) \<Rightarrow> before)"

primrec parse_param_list :: "nat \<Rightarrow> string \<Rightarrow> token list \<Rightarrow> (symbol \<times> value_type) list interning" where
  "parse_param_list 0 header ts = failS OutOfFuel"
| "parse_param_list (Suc n) header ts =
     (if head_token ts = None \<or> head_token ts = Some KNewline then okS []
      else case ts of
        KIdent name # us \<Rightarrow>
          if head_token us \<noteq> Some KColon
          then errS (ParseError (''function `'' @ context_name header @ ''`: parameter `'' @ name @ ''` requires a type annotation''))
          else bindS (liftS (parse_type (Suc (length us)) (tl us))) (\<lambda>(vtype, vs).
               bindS (intern_name name) (\<lambda>y.
               bindS (parse_param_list n header (skip_token KComma vs)) (\<lambda>params.
                 okS ((y, vtype) # params))))
      | _ \<Rightarrow> errS (ParseError (''expected parameter name, got '' @ debug_next (head_token ts))))"

definition parse_params :: "string \<Rightarrow> string \<Rightarrow> (symbol \<times> value_type) list interning" where
  "parse_params param_str header =
     (if trim param_str = [] then okS []
      else bindS (liftS (lex param_str)) (\<lambda>toks. parse_param_list (Suc (length toks)) header toks))"

section \<open>Bodies\<close>

text \<open>The expression at the start of a line, its nodes going to the arena of the body.\<close>

definition line_expr :: "parse_env \<Rightarrow> string \<Rightarrow> expr parser" where
  "line_expr env src =
     bindS (liftS (lex src)) (\<lambda>toks.
     bindS (modS (\<lambda>s. s\<lparr>ps_tokens := toks\<rparr>)) (\<lambda>_.
       parse_expr (pe_max_depth env) (Suc (pe_max_depth env)) 0))"

text \<open>The bindings before the result, the innermost first.\<close>

primrec wrap_bindings :: "parse_env \<Rightarrow> string \<Rightarrow> string list \<Rightarrow> expr \<Rightarrow> expr parser" where
  "wrap_bindings env func_name [] result_expr = okS result_expr"
| "wrap_bindings env func_name (binding_line # ls) result_expr =
     (if \<not> looks_like_binding env binding_line
      then parse_errorS (''non-final body line `'' @ binding_line @ ''` in function `'' @ func_name
             @ ''` must be an assignment (e.g., `result = a * b`)'')
      else case split_char CHR ''='' binding_line of
        None \<Rightarrow> parse_errorS (''expected `=` in binding `'' @ binding_line @ ''` of function `'' @ func_name @ ''`'')
      | Some (lhs, rhs) \<Rightarrow>
          bindS (line_expr env (trim rhs)) (\<lambda>bind_expr.
          bindS (internS (trim lhs)) (\<lambda>bind_sym.
          bindS (allocS bind_expr) (\<lambda>v.
          bindS (allocS result_expr) (\<lambda>body.
            wrap_bindings env func_name ls (ELet bind_sym v body))))))"

definition body_nodes :: "parse_env \<Rightarrow> string \<Rightarrow> string list \<Rightarrow> expr_id parser" where
  "body_nodes env func_name ls =
     bindS (line_expr env (last ls)) (\<lambda>result_expr.
     bindS (wrap_bindings env func_name (rev (butlast ls)) result_expr) allocS)"

definition parse_multiline_body :: "parse_env \<Rightarrow> string list \<Rightarrow> string \<Rightarrow> expr_tree interning" where
  "parse_multiline_body env body_lines func_name =
     (if body_lines = [] then errS (ParseError (''multi-line function `'' @ func_name @ ''` has an empty body''))
      else let ls = filter (\<lambda>l. l \<noteq> []) (map trim body_lines) in
        if ls = [] then errS (ParseError (''multi-line function `'' @ func_name @ ''` has only blank body lines''))
        else if looks_like_binding env (last ls)
        then errS (ParseError (''the last line of multi-line function `'' @ func_name
               @ ''` must be a bare expression, not an assignment''))
        else (\<lambda>t. case body_nodes env func_name ls \<lparr>ps_tokens = [], ps_interner = t, ps_arena = arena_new\<rparr> of
                (Fail f, s) \<Rightarrow> (Fail f, ps_interner s)
              | (Ok root_id, s) \<Rightarrow> (Ok \<lparr>tree_arena = ps_arena s, tree_root = root_id\<rparr>, ps_interner s)))"

section \<open>Function blocks\<close>

definition start_tree :: "parse_env \<Rightarrow> string \<Rightarrow> expr_tree interning" where
  "start_tree env src = bindS (parse_source env src) (\<lambda>(tree, _). okS tree)"

text \<open>A line \<^verbatim>\<open>name = expr\<close>, which is a function without parameters.\<close>

definition parse_variable_block :: "parse_env \<Rightarrow> string \<Rightarrow> (string \<times> mizu_function) interning" where
  "parse_variable_block env header =
     (case split_char CHR ''='' header of
        None \<Rightarrow> errS (ParseError (''expected `=` in variable definition: `'' @ header @ ''`''))
      | Some (lhs, rhs) \<Rightarrow>
          if trim lhs = [] \<or> trim rhs = [] then errS (ParseError (''invalid variable definition: `'' @ header @ ''`''))
          else bindS (start_tree env (trim rhs)) (\<lambda>tree. okS (trim lhs, \<lparr>fn_params = [], fn_body = tree\<rparr>)))"

definition parse_body :: "parse_env \<Rightarrow> string \<Rightarrow> string \<Rightarrow> string list \<Rightarrow> expr_tree interning" where
  "parse_body env func_name rest_after_paren body_lines =
     (case strip_prefix '':'' rest_after_paren of
        Some colon_body \<Rightarrow>
          if trim colon_body = []
          then errS (ParseError (''inline function `'' @ func_name @ ''` has `:` but no body expression''))
          else start_tree env (trim colon_body)
      | None \<Rightarrow>
          if body_lines \<noteq> [] then parse_multiline_body env body_lines func_name
          else errS (ParseError (''function `'' @ func_name @ ''` has no body (no `:` and no indented block)'')))"

text \<open>The parameters and the body, after the name and the opening bracket.\<close>

definition parse_after_paren :: "parse_env \<Rightarrow> string \<Rightarrow> string \<Rightarrow> string \<Rightarrow> string list \<Rightarrow> (string \<times> mizu_function) interning" where
  "parse_after_paren env header func_name after_paren body_lines =
     (case split_char CHR '')'' after_paren of
        None \<Rightarrow> errS (ParseError (''expected `)` in function definition header: `'' @ header @ ''`''))
      | Some (param_str, rest) \<Rightarrow>
          bindS (parse_params param_str header) (\<lambda>params.
          bindS (parse_body env func_name (trim rest) body_lines) (\<lambda>body.
            okS (func_name, \<lparr>fn_params = params, fn_body = body\<rparr>))))"

definition parse_named_block :: "parse_env \<Rightarrow> string \<Rightarrow> string list \<Rightarrow> (string \<times> mizu_function) interning" where
  "parse_named_block env header body_lines =
     (case split_char CHR ''('' header of
        None \<Rightarrow> errS (ParseError (''expected `(` in function definition header: `'' @ header @ ''`''))
      | Some (before, after_paren) \<Rightarrow>
          if trim before = [] then errS (ParseError ''function name must not be empty'')
          else parse_after_paren env header (trim before) after_paren body_lines)"

definition parse_function_block :: "parse_env \<Rightarrow> string list \<Rightarrow> (string \<times> mizu_function) interning" where
  "parse_function_block env ls =
     bindS (liftS (index_or_panic ls 0)) (\<lambda>header.
       if looks_like_binding env header then parse_variable_block env header
       else parse_named_block env header (tl ls))"

text \<open>\<^verbatim>\<open>HashMap::insert\<close>: a later definition replaces an earlier one.\<close>

definition insert_function :: "symbol \<Rightarrow> mizu_function \<Rightarrow> function_list \<Rightarrow> function_list" where
  "insert_function y f fs = (y, f) # filter (\<lambda>p. fst p \<noteq> y) fs"

fun parse_groups :: "parse_env \<Rightarrow> string list list \<Rightarrow> function_list \<Rightarrow> function_list interning" where
  "parse_groups env [] functions = okS functions"
| "parse_groups env (g # groups) functions =
     bindS (parse_function_block env g) (\<lambda>(name, func).
     bindS (intern_name name) (\<lambda>y. parse_groups env groups (insert_function y func functions)))"

definition parse_logic :: "parse_env \<Rightarrow> string \<Rightarrow> function_list interning" where
  "parse_logic env logic_content =
     (let all_lines = lines logic_content in
      bindS (parse_groups env (group_lines (block_baseline all_lines) [] all_lines) []) (\<lambda>functions.
      bindS (liftS (check_dag functions)) (\<lambda>_. okS functions)))"

section \<open>Timers\<close>

definition parse_u64 :: "string \<Rightarrow> nat option" where
  "parse_u64 s =
     (let body = (case s of CHR ''+'' # ds \<Rightarrow> ds | _ \<Rightarrow> s) in
      if body = [] \<or> \<not> list_all is_digit body \<or> digits_val body > u64_max then None else Some (digits_val body))"

definition parse_interval :: "string \<Rightarrow> timer_interval" where
  "parse_interval interval_str =
     (case strip_suffix ''ms'' interval_str of
        Some ms_str \<Rightarrow>
          (case parse_u64 (trim ms_str) of Some ms \<Rightarrow> Millis ms | None \<Rightarrow> IntervalVariable (trim ms_str))
      | None \<Rightarrow>
          (case strip_suffix ''s'' interval_str of
             Some s_str \<Rightarrow>
               (case parse_f64 (trim s_str) of
                  Some s_val \<Rightarrow> Millis (as_u64 (f64_times s_val 1000))
                | None \<Rightarrow> IntervalVariable (trim s_str))
           | None \<Rightarrow>
               (case parse_u64 interval_str of Some ms \<Rightarrow> Millis ms | None \<Rightarrow> IntervalVariable interval_str)))"

definition too_many_timers :: "nat \<Rightarrow> string" where
  "too_many_timers limit =
     ''document declares more than '' @ show_nat limit @ '' root `timer` declarations; each one is an ''
     @ ''independent event source and the total dispatch rate must stay bounded''"

text \<open>The lines of the block, with the number of timers before; \<open>limit\<close> is \<^verbatim>\<open>MAX_ROOT_TIMERS\<close>.\<close>

fun parse_timer_lines :: "parse_env \<Rightarrow> nat \<Rightarrow> nat \<Rightarrow> nat \<Rightarrow> string list \<Rightarrow> root_timer list interning" where
  "parse_timer_lines env limit baseline made [] = okS []"
| "parse_timer_lines env limit baseline made (raw_line # ls) =
     (if trim raw_line = [] \<or> leading_spaces raw_line \<noteq> baseline then parse_timer_lines env limit baseline made ls
      else let stripped = trim_end (drop baseline raw_line) in
        case strip_prefix ''timer '' stripped of
          None \<Rightarrow> parse_timer_lines env limit baseline made ls
        | Some rest \<Rightarrow>
            (case split_str ''->'' rest of
               None \<Rightarrow> errS (ParseError (''timer declaration missing `->`: `'' @ stripped @ ''`''))
             | Some (before, after) \<Rightarrow>
                 if made = limit then errS (ParseError (too_many_timers limit))
                 else bindS (parse_action env (trim after)) (\<lambda>a.
                      bindS (parse_timer_lines env limit baseline (Suc made) ls) (\<lambda>timers.
                        okS (\<lparr>timer_interval = parse_interval (trim before), timer_action = a\<rparr> # timers)))))"

definition parse_root_timers :: "parse_env \<Rightarrow> nat \<Rightarrow> string \<Rightarrow> root_timer list interning" where
  "parse_root_timers env limit logic_content =
     (let all_lines = lines logic_content in parse_timer_lines env limit (block_baseline all_lines) 0 all_lines)"

section \<open>Computed variables\<close>

definition parse_comp :: "parse_env \<Rightarrow> function_list \<Rightarrow> string \<Rightarrow> string \<Rightarrow> computed_binding interning" where
  "parse_comp env functions stripped rest =
     (case split_char CHR ''='' rest of
        None \<Rightarrow> errS (ParseError (''comp declaration missing `=`: `'' @ trim stripped @ ''`''))
      | Some (lhs, rhs) \<Rightarrow>
          if trim lhs = [] \<or> trim rhs = [] then errS (ParseError (''invalid comp declaration: `'' @ trim stripped @ ''`''))
          else bindS (parse_whole env (trim rhs) (trim rhs)) (\<lambda>expr.
               bindS (intern_name (trim lhs)) (\<lambda>name_sym.
               bindS (liftS (comp_dependencies name_sym expr functions)) (\<lambda>dep_set.
                 okS \<lparr>cb_name = name_sym, cb_expr = expr, cb_depends_on = sorted_list_of_set dep_set, cb_tainted = False\<rparr>))))"

fun parse_comp_lines :: "parse_env \<Rightarrow> function_list \<Rightarrow> nat \<Rightarrow> string list \<Rightarrow> computed_binding list interning" where
  "parse_comp_lines env functions baseline [] = okS []"
| "parse_comp_lines env functions baseline (raw_line # ls) =
     (if trim raw_line = [] \<or> leading_spaces raw_line \<noteq> baseline then parse_comp_lines env functions baseline ls
      else let stripped = drop baseline raw_line in
        case strip_prefix ''comp '' (trim_start stripped) of
          None \<Rightarrow> parse_comp_lines env functions baseline ls
        | Some rest \<Rightarrow>
            bindS (parse_comp env functions stripped rest) (\<lambda>cb.
            bindS (parse_comp_lines env functions baseline ls) (\<lambda>cbs. okS (cb # cbs))))"

definition too_many_comps :: "nat \<Rightarrow> nat \<Rightarrow> string" where
  "too_many_comps n limit =
     ''document declares '' @ show_nat n @ '' `comp` bindings, exceeding the maximum of '' @ show_nat limit
     @ '' (MAX_COMP_BINDINGS); split the logic across fewer computed variables or reduce reliance on derived state''"

definition parse_computed_with_functions ::
  "parse_env \<Rightarrow> string \<Rightarrow> function_list \<Rightarrow> nat \<Rightarrow> computed_binding list interning" where
  "parse_computed_with_functions env logic_content functions max_comp_bindings =
     (let all_lines = lines logic_content in
      bindS (parse_comp_lines env functions (block_baseline all_lines) all_lines) (\<lambda>bindings.
        if length bindings > max_comp_bindings then errS (ParseError (too_many_comps (length bindings) max_comp_bindings))
        else liftS (topo_sort_computed bindings)))"

definition parse_computed :: "parse_env \<Rightarrow> string \<Rightarrow> computed_binding list interning" where
  "parse_computed env logic_content = parse_computed_with_functions env logic_content [] 500"

section \<open>Loading\<close>

text \<open>The registry and the logic of a document, as \<^verbatim>\<open>run\<close> compiles them at startup.\<close>

definition compile_logic ::
  "parse_env \<Rightarrow> nat \<Rightarrow> nat \<Rightarrow> string \<Rightarrow> string
     \<Rightarrow> (url_registry \<times> function_list \<times> computed_binding list \<times> root_timer list) interning" where
  "compile_logic env max_comp_bindings max_root_timers urls_block logic_block =
     bindS (if trim urls_block \<noteq> [] then parse_urls urls_block else okS Map.empty) (\<lambda>registry.
     bindS (parse_logic env logic_block) (\<lambda>logic_fns.
     bindS (parse_computed_with_functions env logic_block logic_fns max_comp_bindings) (\<lambda>computed_bindings.
     bindS (parse_root_timers env max_root_timers logic_block) (\<lambda>root_timers.
       okS (registry, logic_fns, computed_bindings, root_timers)))))"

section \<open>Lines are parts of the block\<close>

lemma sublist_strip_cr: "sublist (strip_cr l) l"
  by (simp add: strip_cr_def butlast_conv_take)

lemma lines_loop_sublist: "l \<in> set (lines_loop s acc) \<Longrightarrow> sublist l (rev acc @ s)"
proof (induction s acc rule: lines_loop.induct)
  case (2 c cs acc)
  show ?case
  proof (cases "c = newline \<and> l = strip_cr (rev acc)")
    case True
    then show ?thesis using sublist_strip_cr [of "rev acc"] sublist_order.order_trans [of _ "rev acc" "rev acc @ c # cs"]
      by (simp add: prefix_imp_sublist)
  next
    case False
    then have "sublist l (rev acc @ [c] @ cs) \<or> sublist l cs" using 2 by (auto split: if_splits)
    then show ?thesis
    proof
      assume l: "sublist l cs"
      have "sublist cs (rev acc @ c # cs)" by (auto simp: sublist_def intro: exI [of _ "rev acc @ [c]"] exI [of _ "[]"])
      then show ?thesis using l sublist_order.order_trans by blast
    qed simp
  qed
qed (auto split: if_splits)

lemma lines_sublist: "l \<in> set (lines s) \<Longrightarrow> sublist l s"
  using lines_loop_sublist [of l s "[]"] by (simp add: lines_def)

lemma split_char_sublist: "split_char c s = Some (a, b) \<Longrightarrow> sublist a s \<and> sublist b s"
  by (drule split_char_Some) (auto simp: sublist_def intro: exI [of _ "a @ [c]"] exI [of _ "[]"])

lemma split_str_sublist: "split_str pat s = Some (a, b) \<Longrightarrow> sublist a s \<and> sublist b s"
  by (drule split_str_Some) (auto simp: sublist_def intro: exI [of _ "a @ pat"] exI [of _ "[]"])

text \<open>The groups hold the lines of the block, in all no longer than it.\<close>

definition group_size :: "string list \<Rightarrow> nat" where
  "group_size ls = sum_list (map (\<lambda>l. Suc (length l)) ls)"

lemma group_lines_ok:
  assumes "\<forall>l \<in> set ls. sublist l src" "\<forall>l \<in> set current. sublist l src"
  shows "g \<in> set (group_lines baseline current ls) \<Longrightarrow>
     g \<noteq> [] \<and> (\<forall>l \<in> set g. sublist l src) \<and> group_size g \<le> group_size current + group_size ls"
  using assms
proof (induction baseline current ls arbitrary: g rule: group_lines.induct)
  case (2 baseline current line ls)
  have d: "sublist (drop baseline line) src" using 2(6) sublist_order.order_trans [OF sublist_drop] by auto
  consider "trim line = []" | "trim line \<noteq> []" "g \<in> set (flush_group current)"
    | "trim line \<noteq> []" "leading_spaces line = baseline" "is_timer_line (drop baseline line) \<or> is_comp_line (drop baseline line)"
      "g \<in> set (group_lines baseline [] ls)"
    | "trim line \<noteq> []" "leading_spaces line = baseline" "\<not> (is_timer_line (drop baseline line) \<or> is_comp_line (drop baseline line))"
      "g \<in> set (group_lines baseline [drop baseline line] ls)"
    | "trim line \<noteq> []" "leading_spaces line \<noteq> baseline" "g \<in> set (group_lines baseline (current @ [drop baseline line]) ls)"
    using 2(5) by (fastforce simp: Let_def split: if_splits)
  then show ?case
  proof cases
    case 1
    then show ?thesis using 2(1) [OF 1, of g] 2(5-7) by (auto simp: group_size_def)
  next
    case 2
    then show ?thesis using \<open>\<forall>l \<in> set current. sublist l src\<close> by (auto simp: flush_group_def group_size_def split: if_splits)
  next
    case 3
    then show ?thesis using 2(2) [OF 3(1) refl 3(2,3,4)] 2(6) by (auto simp: group_size_def)
  next
    case 4
    then show ?thesis using 2(3) [OF 4(1) refl 4(2,3,4)] 2(6) d by (auto simp: group_size_def)
  next
    case 5
    then show ?thesis using 2(4) [OF 5(1) refl 5(2,3)] 2(6,7) d by (auto simp: group_size_def)
  qed
qed (auto simp: flush_group_def group_size_def split: if_splits)

section \<open>Types and parameters return\<close>

text \<open>A type takes at least one token, and fails with an error of the parser only.\<close>

definition takes_type :: "nat \<Rightarrow> type_parser \<Rightarrow> bool" where
  "takes_type n p \<longleftrightarrow> (\<forall>ts. length ts \<le> n \<longrightarrow> parse_result (p ts) \<and> (\<forall>ty us. p ts = Ok (ty, us) \<longrightarrow> length us < length ts))"

lemma type_syntax_result [simp]: "parse_result (type_syntax msg)" "type_syntax msg \<noteq> Ok v"
  by (simp_all add: type_syntax_def)

lemma head_token_simps [simp]:
  "head_token [] = None" "head_token (t # ts) = Some t"
  by (simp_all add: head_token_def)

lemma head_token_Some [simp]: "head_token ts = Some t \<longleftrightarrow> (\<exists>us. ts = t # us)"
  by (cases ts) auto

lemma length_skip_token: "length (skip_token t ts) \<le> length ts"
  by (simp add: skip_token_def)

lemma record_fields_take:
  assumes sub: "takes_type m sub"
  shows "length ts < n \<Longrightarrow> length ts \<le> m \<Longrightarrow> parse_result (parse_record_fields n sub ts)
     \<and> (\<forall>fs us. parse_record_fields n sub ts = Ok (fs, us) \<longrightarrow> length us \<le> length ts)"
proof (induction n arbitrary: ts)
  case (Suc n)
  show ?case
  proof (cases "\<exists>name us. ts = KIdent name # KColon # us")
    case True
    then obtain name us where ts: "ts = KIdent name # KColon # us" by blast
    show ?thesis
    proof (cases "sub us")
      case (Fail f)
      then show ?thesis using sub Suc.prems by (force simp: ts takes_type_def parse_result_def)
    next
      case (Ok p)
      obtain ty vs where p: "p = (ty, vs)" by fastforce
      have "length vs < length us" using sub Suc.prems Ok by (simp add: takes_type_def ts p)
      then have l: "length (skip_token KComma vs) < n" "length (skip_token KComma vs) \<le> m"
        "length (skip_token KComma vs) \<le> length us"
        using Suc.prems length_skip_token [of KComma vs] by (simp_all add: ts)
      show ?thesis using Suc.IH [OF l(1,2)] l(3)
        by (cases "parse_record_fields n sub (skip_token KComma vs)") (auto simp: ts Ok p parse_result_def)
    qed
  next
    case False
    then show ?thesis by (cases ts; cases "hd ts"; cases "tl ts") auto
  qed
qed simp

lemma list_type_takes:
  assumes "takes_type m sub" "length ts \<le> Suc m"
  shows "parse_result (parse_list_type sub ts) \<and> (\<forall>ty us. parse_list_type sub ts = Ok (ty, us) \<longrightarrow> length us < length ts)"
proof (cases ts)
  case (Cons t us)
  then have "case sub us of Ok (ty, vs) \<Rightarrow> length vs < length us | Fail f \<Rightarrow> \<exists>msg. f = Error (ParseError msg)"
    using assms by (auto simp: takes_type_def parse_result_def split: outcome.splits)
  then show ?thesis
    by (cases "sub us") (auto simp: Cons parse_list_type_def parse_result_def type_syntax_def split: if_splits)
qed (simp add: parse_list_type_def)

lemma record_type_takes:
  assumes "takes_type m sub" "length ts \<le> Suc m"
  shows "parse_result (parse_record_type sub ts) \<and> (\<forall>ty us. parse_record_type sub ts = Ok (ty, us) \<longrightarrow> length us < length ts)"
proof (cases ts)
  case (Cons t us)
  note f = record_fields_take [OF assms(1), of us "Suc (length ts)"]
  let ?fs = "parse_record_fields (Suc (length ts)) sub us"
  have "case ?fs of Ok (fs, vs) \<Rightarrow> length vs \<le> length us | Fail f \<Rightarrow> \<exists>msg. f = Error (ParseError msg)"
    using f assms(2) Cons by (auto simp: parse_result_def simp del: parse_record_fields.simps split: outcome.splits)
  then show ?thesis
    by (cases ?fs)
      (auto simp: Cons parse_record_type_def parse_result_def type_syntax_def simp del: parse_record_fields.simps split: if_splits)
qed (simp add: parse_record_type_def)

lemma base_type_takes:
  assumes "takes_type m sub" "length ts \<le> Suc (Suc m)"
  shows "parse_result (parse_base_type sub ts) \<and> (\<forall>ty us. parse_base_type sub ts = Ok (ty, us) \<longrightarrow> length us < length ts)"
proof (cases "\<exists>name us. ts = KIdent name # us")
  case True
  then obtain name us where ts: "ts = KIdent name # us" by blast
  have l: "length us \<le> Suc m" using assms(2) by (simp add: ts)
  show ?thesis
    using list_type_takes [OF assms(1) l] record_type_takes [OF assms(1) l]
    by (auto simp: ts parse_base_type_def Let_def intro: less_SucI)
next
  case False
  then show ?thesis by (cases ts; cases "hd ts") (auto simp: parse_base_type_def)
qed

lemma nullable_takes:
  assumes "parse_result (parse_base_type sub ts) \<and> (\<forall>ty us. parse_base_type sub ts = Ok (ty, us) \<longrightarrow> length us < length ts)"
  shows "parse_result (bindO (parse_base_type sub ts) (\<lambda>(base_type, us).
       Ok (if head_token us = Some KQuestion then (TNullable base_type, tl us) else (base_type, us))))
     \<and> (\<forall>ty us. bindO (parse_base_type sub ts) (\<lambda>(base_type, us).
       Ok (if head_token us = Some KQuestion then (TNullable base_type, tl us) else (base_type, us))) = Ok (ty, us)
         \<longrightarrow> length us < length ts)"
  using assms by (cases "parse_base_type sub ts") (force simp: parse_result_def)+

lemma type_takes: "takes_type n (parse_type (Suc n))"
proof (induction n)
  case 0
  show ?case by (auto simp: takes_type_def parse_base_type_def type_syntax_def)
next
  case (Suc n)
  show ?case
    unfolding takes_type_def parse_type.simps(2) [of "Suc n"]
    by (intro allI impI nullable_takes base_type_takes [OF Suc]) simp
qed

lemma yields_intern_name: "yields src (intern_name name) (\<lambda>_. True)"
  by (auto simp: valid_def intern_name_def split: prod.splits)

lemma yields_param_list: "length ts < n \<Longrightarrow> yields src (parse_param_list n header ts) (\<lambda>_. True)"
proof (induction n arbitrary: ts)
  case (Suc n)
  show ?case
  proof (cases "\<exists>name us. ts = KIdent name # KColon # us")
    case True
    then obtain name us where ts: "ts = KIdent name # KColon # us" by blast
    let ?ty = "parse_type (Suc (length (KColon # us))) us"
    have t: "parse_result ?ty" "?ty = Ok (ty, vs) \<Longrightarrow> length vs < length us" for ty vs
      using type_takes [of "length (KColon # us)"] by (auto simp: takes_type_def simp del: parse_type.simps)
    have more: "yields src (bindS (intern_name name) (\<lambda>y. bindS (parse_param_list n header (skip_token KComma vs)) (\<lambda>ps.
        okS ((y, ty) # ps)))) (\<lambda>_. True)" if "length vs < length us" for ty vs
      by (rule yields_bind [OF yields_intern_name], rule yields_bind [OF Suc.IH])
        (use that Suc.prems length_skip_token [of KComma vs] in \<open>auto simp: ts intro: yields_ok\<close>)
    have "yields src (bindS (liftS ?ty) (\<lambda>(ty, vs). bindS (intern_name name) (\<lambda>y.
        bindS (parse_param_list n header (skip_token KComma vs)) (\<lambda>ps. okS ((y, ty) # ps))))) (\<lambda>_. True)"
      by (rule yields_bind [OF yields_lift [OF t(1), where A = "\<lambda>(ty, vs). length vs < length us"]])
        (use t(2) more in \<open>auto simp del: parse_type.simps\<close>)
    then show ?thesis by (simp add: ts del: parse_type.simps)
  next
    case False
    then show ?thesis by (cases ts; cases "hd ts"; cases "tl ts") (auto intro!: yields_ok yields_error)
  qed
qed simp

lemma yields_params: "yields src (parse_params param_str header) (\<lambda>_. True)"
  unfolding parse_params_def
  by (rule valid_if, rule yields_ok, simp, rule yields_bind [OF yields_lift [OF lex_result, where A = "\<lambda>_. True"]], simp,
      rule yields_param_list) simp

section \<open>Bodies are well formed\<close>

definition unsafe_in :: "string \<Rightarrow> bool" where
  "unsafe_in src \<longleftrightarrow> (\<exists>part toks. sublist part src \<and> lex part = Ok toks \<and> \<not> list_all safe_token toks)"

lemma fault_in_unsafe: "fault_in src f \<longleftrightarrow> (\<exists>msg. f = Error (ParseError msg)) \<or> (f = Panic \<and> unsafe_in src)"
  by (simp add: fault_in_def unsafe_in_def)

text \<open>The arena of a body, with the expressions and nodes in hand; \<open>m\<close> bounds its size.\<close>

definition body_ok :: "string \<Rightarrow> nat \<Rightarrow> expr list \<Rightarrow> expr_id list \<Rightarrow> parser_state \<Rightarrow> bool" where
  "body_ok src m es ids s \<longleftrightarrow> good_arena (ps_arena s) \<and> length (nodes (ps_arena s)) + length (args_pool (ps_arena s)) \<le> m
     \<and> list_all (node_fits (ps_arena s)) es \<and> list_all (\<lambda>i. i < length (nodes (ps_arena s))) ids
     \<and> (list_all negatable es \<or> unsafe_in src)"

abbreviation body_step ::
  "string \<Rightarrow> (parser_state \<Rightarrow> bool) \<Rightarrow> 'a parser \<Rightarrow> ('a \<Rightarrow> parser_state \<Rightarrow> bool) \<Rightarrow> bool" where
  "body_step src P m Q \<equiv> valid P m Q (\<lambda>f _. fault_in src f)"

lemma body_weaken: "body_ok src m es ids s \<Longrightarrow> m \<le> m' \<Longrightarrow> body_ok src m' es ids s"
  by (auto simp: body_ok_def)

lemma line_expr_ok:
  assumes "sublist part src" "m + 8 * length part + 2 < 2 ^ 32"
  shows "body_step src (body_ok src m es []) (line_expr env part) (\<lambda>e. body_ok src (m + 8 * length part) (e # es) [])"
proof (cases "lex part")
  case (Fail f)
  then show ?thesis
    using lex_result [of part] by (auto simp: valid_def line_expr_def comput_defs fault_in_def parse_result_def)
next
  case (Ok toks)
  have len: "2 * length toks \<le> 8 * length part + 2" using lex_length [OF Ok] by simp
  let ?L = "\<lparr>lim_safe = list_all safe_token toks \<and> list_all negatable es, lim_charge = m + 2 * length toks, lim_tokens = length toks\<rparr>"
  have run: "line_expr env part s = parse_expr (pe_max_depth env) (Suc (pe_max_depth env)) 0 (s\<lparr>ps_tokens := toks\<rparr>)" for s
    by (simp add: line_expr_def Ok comput_defs)
  have h: "holds ?L 0 0 es [] (s\<lparr>ps_tokens := toks\<rparr>)" if "body_ok src m es [] s" for s
    using that assms(2) len by (auto simp: body_ok_def holds_def spent_def)
  have unsafe: "unsafe_in src" if "\<not> list_all safe_token toks"
    using that Ok assms(1) by (auto simp: unsafe_in_def)
  show ?thesis
  proof (rule validI)
    fix s e s' assume b: "body_ok src m es [] s" and r: "line_expr env part s = (Ok e, s')"
    have "holds ?L (0 + 2) (0 + 1) (e # es) [] s'" using validD_ok [OF pe.sub h [OF b]] r by (simp only: run)
    then show "body_ok src (m + 8 * length part) (e # es) [] s'"
      using len unsafe b by (auto simp: body_ok_def holds_def spent_def)
  next
    fix s f s' assume b: "body_ok src m es [] s" and r: "line_expr env part s = (Fail f, s')"
    have "parse_fault ?L f s'" using validD_fail [OF pe.sub h [OF b]] r by (simp only: run)
    then show "fault_in src f" using unsafe b by (auto simp: parse_fault_def fault_in_unsafe body_ok_def)
  qed
qed

lemma body_intern: "body_step src (body_ok src m es ids) (internS name) (\<lambda>_. body_ok src m es ids)"
  by (auto simp: valid_def internS_def body_ok_def split: prod.splits)

lemma body_alloc:
  assumes "m < 2 ^ 32" "e \<in> set es"
  shows "body_step src (body_ok src m es ids) (allocS e) (\<lambda>i. body_ok src (Suc m) es (i # ids))"
proof (rule validI)
  fix s i s' assume h: "body_ok src m es ids s" and r: "allocS e s = (Ok i, s')"
  then obtain ar where a: "alloc (ps_arena s) e = (i, ar)" and s': "s' = s\<lparr>ps_arena := ar\<rparr>"
    by (auto simp: allocS_def split: prod.splits)
  have g: "good_arena (ps_arena s)" and f: "node_fits (ps_arena s) e" and l: "length (nodes (ps_arena s)) < 2 ^ 32"
    using h assms by (auto simp: body_ok_def list_all_iff)
  have "good_arena ar" "i < length (nodes ar)" "extends (ps_arena s) ar"
    "length (nodes ar) = Suc (length (nodes (ps_arena s)))" "args_pool ar = args_pool (ps_arena s)"
    using good_alloc [OF g f l a] alloc_extends [OF a] alloc_id [OF l a] by auto
  then show "body_ok src (Suc m) es (i # ids) s'"
    using h by (auto simp: body_ok_def s' list_all_iff intro: node_fits_mono)
qed (auto simp: allocS_def split: prod.splits)

lemma body_let: "body_ok src m es (b # v # ids) s \<Longrightarrow> body_ok src m [ELet y v b] [] s"
  by (auto simp: body_ok_def node_fits_def expr_wf_def node_ok_def)

lemma group_size_simps [simp]: "group_size [] = 0" "group_size (l # ls) = Suc (length l) + group_size ls"
  "group_size (xs @ ys) = group_size xs + group_size ys" "group_size (rev ls) = group_size ls"
  by (auto simp: group_size_def rev_map [symmetric])

lemma wrap_bindings_ok:
  assumes "\<forall>l \<in> set ls. sublist l src" "m + 8 * group_size ls < 2 ^ 32"
  shows "body_step src (body_ok src m [e] []) (wrap_bindings env fname ls e) (\<lambda>e'. body_ok src (m + 8 * group_size ls) [e'] [])"
  using assms
proof (induction ls arbitrary: m e)
  case Nil
  then show ?case by (auto intro: valid_okS)
next
  case (Cons l ls)
  have er: "body_step src P (parse_errorS msg) Q" for P msg and Q :: "expr \<Rightarrow> parser_state \<Rightarrow> bool"
    by (rule valid_failS) (simp add: fault_in_def)
  have step: "body_step src (body_ok src m [e] [])
      (bindS (line_expr env (trim rhs)) (\<lambda>bind_expr. bindS (internS (trim lhs)) (\<lambda>y.
       bindS (allocS bind_expr) (\<lambda>v. bindS (allocS e) (\<lambda>b. wrap_bindings env fname ls (ELet y v b))))))
      (\<lambda>e'. body_ok src (m + 8 * group_size (l # ls)) [e'] [])" if sp: "split_char CHR ''='' l = Some (lhs, rhs)" for lhs rhs
  proof -
    let ?m = "m + 8 * length (trim rhs)"
    have p: "sublist (trim rhs) src"
      using split_char_sublist [OF sp] Cons.prems(1) sublist_order.order_trans [OF sublist_trim]
        sublist_order.order_trans by (metis list.set_intros(1))
    have len: "length (trim rhs) < length l"
      using length_trim [of rhs] split_char_length [OF sp] by simp
    then have le: "?m + 8 \<le> m + 8 * Suc (length l)" by simp
    have k: "?m + 2 < 2 ^ 32" using Cons.prems(2) le by simp
    have rest: "body_step src (body_ok src (Suc (Suc ?m)) [x, e] [b, v]) (wrap_bindings env fname ls (ELet y v b))
        (\<lambda>e'. body_ok src (m + 8 * group_size (l # ls)) [e'] [])" for x y v b
    proof -
      have "Suc (Suc ?m) + 8 * group_size ls \<le> m + 8 * group_size (l # ls)" using le by simp
      moreover have "Suc (Suc ?m) + 8 * group_size ls < 2 ^ 32" using Cons.prems(2) calculation by simp
      ultimately show ?thesis
        using Cons.prems(1)
        by (intro valid_weaken [OF Cons.IH [of "Suc (Suc ?m)" "ELet y v b"]]) (auto intro: body_let body_weaken)
    qed
    show ?thesis
      by (rule valid_bindS [OF line_expr_ok [OF p]], use k in simp, rule valid_bindS [OF body_intern],
          rule valid_bindS [OF body_alloc], use k in simp, simp, rule valid_bindS [OF body_alloc], use k in simp, simp, rule rest)
  qed
  show ?case
  proof (cases "looks_like_binding env l \<and> split_char CHR ''='' l \<noteq> None")
    case True
    then obtain lhs rhs where "split_char CHR ''='' l = Some (lhs, rhs)" by fastforce
    then show ?thesis using step True by simp
  next
    case False
    then show ?thesis
      by (cases "looks_like_binding env l"; cases "split_char CHR ''='' l") (simp_all add: er)
  qed
qed

lemma trim_lines_size: "group_size (filter (\<lambda>l. l \<noteq> []) (map trim ls)) \<le> group_size ls"
proof (induction ls)
  case (Cons l ls)
  then show ?case using length_trim [of l] by auto
qed simp

lemma multiline_body_ok:
  assumes "\<forall>l \<in> set body_lines. sublist l src" "8 * group_size body_lines < 2 ^ 32 - 8"
  shows "yields src (parse_multiline_body env body_lines fname) good_tree"
proof -
  define ls where "ls = filter (\<lambda>l. l \<noteq> []) (map trim body_lines)"
  have sub: "\<forall>l \<in> set ls. sublist l src"
    using assms(1) sublist_order.order_trans [OF sublist_trim] by (auto simp: ls_def)
  have size: "8 * group_size ls < 2 ^ 32 - 8" using trim_lines_size [of body_lines] assms(2) by (simp add: ls_def)
  have nodes: "body_step src (body_ok src 0 [] []) (body_nodes env fname ls) (\<lambda>i s. \<exists>m es. body_ok src m es [i] s)" if "ls \<noteq> []"
  proof -
    have g: "group_size ls = group_size (butlast ls) + Suc (length (last ls))"
      using that by (metis append_butlast_last_id group_size_simps(1-3) add.right_neutral)
    let ?m = "8 * length (last ls)"
    have "body_step src (body_ok src 0 [] []) (line_expr env (last ls)) (\<lambda>e. body_ok src ?m [e] [])"
      using line_expr_ok [of "last ls" src 0 "[]" env] sub size g that by auto
    moreover have "body_step src (body_ok src ?m [e] []) (wrap_bindings env fname (rev (butlast ls)) e)
        (\<lambda>e'. body_ok src (?m + 8 * group_size (rev (butlast ls))) [e'] [])" for e
      by (rule wrap_bindings_ok) (use sub size g in \<open>auto dest: in_set_butlastD\<close>)
    moreover have "body_step src (body_ok src (?m + 8 * group_size (rev (butlast ls))) [e'] []) (allocS e')
        (\<lambda>i s. \<exists>m es. body_ok src m es [i] s)" for e'
      by (rule valid_weaken [OF body_alloc]) (use size g in auto)
    ultimately show ?thesis
      unfolding body_nodes_def by (blast intro: valid_bindS)
  qed
  have new: "body_ok src 0 [] [] \<lparr>ps_tokens = [], ps_interner = t, ps_arena = arena_new\<rparr>" for t
    by (simp add: body_ok_def good_arena_new) (simp add: arena_new_def)
  have tree: "good_tree \<lparr>tree_arena = ps_arena s, tree_root = i\<rparr>" if "body_ok src m es [i] s" for m es i s
    using that by (auto simp: body_ok_def good_tree_def tree_wf_def parsed_tree_def good_arena_def arena_wf_def)
  have run: "yields src (\<lambda>t. case body_nodes env fname ls \<lparr>ps_tokens = [], ps_interner = t, ps_arena = arena_new\<rparr> of
        (Fail f, s) \<Rightarrow> (Fail f, ps_interner s)
      | (Ok root_id, s) \<Rightarrow> (Ok \<lparr>tree_arena = ps_arena s, tree_root = root_id\<rparr>, ps_interner s)) good_tree"
    if "ls \<noteq> []"
    using validD_ok [OF nodes [OF that] new] validD_fail [OF nodes [OF that] new] tree
    by (fastforce simp: valid_def split: prod.splits outcome.splits)
  show ?thesis
    unfolding parse_multiline_body_def Let_def ls_def [symmetric]
    by (intro valid_if yields_error run)
qed

section \<open>Function tables\<close>

definition good_functions :: "function_list \<Rightarrow> bool" where
  "good_functions fs \<longleftrightarrow> distinct (map fst fs) \<and> list_all (\<lambda>(_, f). good_tree (fn_body f)) fs"

lemma good_functions_parsed: "good_functions fs \<Longrightarrow> list_all (\<lambda>(_, f). parsed_tree (fn_body f)) fs"
  by (auto simp: good_functions_def good_tree_def list_all_iff)

lemma good_functions_wf: "good_functions fs \<Longrightarrow> functions_wf (map_of fs)"
  by (auto simp: good_functions_def good_tree_def functions_wf_def list_all_iff dest!: map_of_SomeD)

lemma yields_start_tree:
  assumes "length src < 2 ^ 28" "sublist part src"
  shows "yields src (start_tree env part) good_tree"
  unfolding start_tree_def by (rule yields_bind [OF yields_source [OF assms]]) (auto intro: yields_ok)

lemma trim_part: "sublist s src \<Longrightarrow> sublist (trim s) src"
  using sublist_order.order_trans [OF sublist_trim] .

lemma split_char_part: "split_char c s = Some (a, b) \<Longrightarrow> sublist s src \<Longrightarrow> sublist a src \<and> sublist b src"
  using split_char_sublist sublist_order.order_trans by blast

lemma variable_block_ok:
  assumes "length src < 2 ^ 28" "sublist header src"
  shows "yields src (parse_variable_block env header) (\<lambda>(_, f). good_tree (fn_body f))"
proof (cases "split_char CHR ''='' header")
  case (Some p)
  obtain lhs rhs where p: "p = (lhs, rhs)" by fastforce
  have "sublist (trim rhs) src" using trim_part split_char_part Some assms(2) p by blast
  then show ?thesis
    by (auto simp: parse_variable_block_def Some p intro!: valid_if yields_error yields_ok yields_bind [OF yields_start_tree [OF assms(1)]])
qed (simp add: parse_variable_block_def yields_error)

lemma body_parsed:
  assumes "length src < 2 ^ 28" "sublist rest src" "\<forall>l \<in> set ls. sublist l src" "8 * group_size ls < 2 ^ 32 - 8"
  shows "yields src (parse_body env fname rest ls) good_tree"
proof (cases "strip_prefix '':'' rest")
  case None
  then show ?thesis
    using multiline_body_ok [OF assms(3,4)] by (auto simp: parse_body_def intro: valid_if yields_error)
next
  case (Some b)
  then have "sublist b rest" by (simp add: suffix_imp_sublist suffix_ConsI)
  then have "sublist (trim b) src" using trim_part assms(2) sublist_order.order_trans by blast
  then show ?thesis
    using yields_start_tree [OF assms(1)] by (auto simp: parse_body_def Some simp del: strip_prefix_Some intro!: valid_if yields_error)
qed

lemma after_paren_ok:
  assumes "length src < 2 ^ 28" "sublist after src" "\<forall>l \<in> set ls. sublist l src" "8 * group_size ls < 2 ^ 32 - 8"
  shows "yields src (parse_after_paren env header fname after ls) (\<lambda>(_, f). good_tree (fn_body f))"
proof (cases "split_char CHR '')'' after")
  case (Some p)
  obtain ps rest where p: "p = (ps, rest)" by fastforce
  have "sublist (trim rest) src" using trim_part split_char_part Some assms(2) p by blast
  note body = body_parsed [OF assms(1) this assms(3,4)]
  have "yields src (bindS (parse_params ps header) (\<lambda>params. bindS (parse_body env fname (trim rest) ls) (\<lambda>body.
      okS (fname, \<lparr>fn_params = params, fn_body = body\<rparr>)))) (\<lambda>(_, f). good_tree (fn_body f))"
    by (rule yields_bind [OF yields_params], rule yields_bind [OF body]) (auto intro: yields_ok)
  then show ?thesis by (simp add: parse_after_paren_def Some p)
qed (simp add: parse_after_paren_def yields_error)

lemma named_block_ok:
  assumes "length src < 2 ^ 28" "sublist header src" "\<forall>l \<in> set ls. sublist l src" "8 * group_size ls < 2 ^ 32 - 8"
  shows "yields src (parse_named_block env header ls) (\<lambda>(_, f). good_tree (fn_body f))"
proof (cases "split_char CHR ''('' header")
  case (Some p)
  obtain before after where p: "p = (before, after)" by fastforce
  have "sublist after src" using split_char_part Some assms(2) p by blast
  from after_paren_ok [OF assms(1) this assms(3,4)] show ?thesis
    by (auto simp: parse_named_block_def Some p intro: valid_if yields_error)
qed (simp add: parse_named_block_def yields_error)

lemma function_block_ok:
  assumes l: "length src < 2 ^ 28" and ls: "ls \<noteq> []" "\<forall>l \<in> set ls. sublist l src" "8 * group_size ls < 2 ^ 32 - 8"
  shows "yields src (parse_function_block env ls) (\<lambda>(_, f). good_tree (fn_body f))"
proof -
  obtain header rest_lines where h: "ls = header # rest_lines" using ls(1) by (cases ls) auto
  have run: "parse_function_block env ls = (if looks_like_binding env header then parse_variable_block env header
      else parse_named_block env header rest_lines)"
    by (auto simp: parse_function_block_def h index_or_panic_def bindS_def liftS_def)
  have "sublist header src" "\<forall>l \<in> set rest_lines. sublist l src" "8 * group_size rest_lines < 2 ^ 32 - 8"
    using ls h by auto
  then show ?thesis
    unfolding run by (intro valid_if variable_block_ok [OF l] named_block_ok [OF l])
qed

lemma insert_function_ok: "good_functions fs \<Longrightarrow> good_tree (fn_body f) \<Longrightarrow> good_functions (insert_function y f fs)"
  by (auto simp: good_functions_def insert_function_def list_all_iff distinct_map_filter)

lemma parse_groups_ok:
  assumes l: "length src < 2 ^ 28"
    and g: "\<forall>g \<in> set groups. g \<noteq> [] \<and> (\<forall>l \<in> set g. sublist l src) \<and> 8 * group_size g < 2 ^ 32 - 8"
    and fs: "good_functions fs"
  shows "yields src (parse_groups env groups fs) good_functions"
  using g fs
proof (induction groups arbitrary: fs)
  case Nil
  then show ?case by (simp add: yields_ok)
next
  case (Cons g groups)
  have g: "g \<noteq> []" "\<forall>l \<in> set g. sublist l src" "8 * group_size g < 2 ^ 32 - 8"
    using Cons.prems(1) by simp_all
  have "yields src (parse_groups env groups (insert_function y f fs)) good_functions" if "good_tree (fn_body f)" for y f
    by (rule Cons.IH) (use Cons.prems insert_function_ok [OF _ that] in simp_all)
  then show ?case
    by (simp only: parse_groups.simps, intro yields_bind [OF function_block_ok [OF l g]], clarify,
        intro yields_bind [OF yields_intern_name])
qed

lemma lines_size: "group_size (lines s) \<le> Suc (length s)"
proof -
  have "group_size (lines_loop s acc) \<le> Suc (length s + length acc)" for acc
  proof (induction s acc rule: lines_loop.induct)
    case (2 c cs acc)
    then show ?case using strip_cr_length [of "rev acc"] by auto
  qed simp
  from this [of "[]"] show ?thesis by (simp add: lines_def)
qed

lemma check_dag_yields:
  "good_functions fs \<Longrightarrow> yields src (liftS (check_dag fs)) (\<lambda>_. acyclic (calls_of fs))"
  using check_dag_result [OF good_functions_parsed, of fs]
  by (intro yields_lift) (auto simp: good_functions_def split: if_splits)

lemma parse_logic_ok:
  assumes l: "length src < 2 ^ 28"
  shows "yields src (parse_logic env src) (\<lambda>fs. good_functions fs \<and> acyclic (calls_of fs))"
proof -
  let ?ls = "lines src"
  have "g \<noteq> [] \<and> (\<forall>l \<in> set g. sublist l src) \<and> 8 * group_size g < 2 ^ 32 - 8"
    if "g \<in> set (group_lines (block_baseline ?ls) [] ?ls)" for g
    using group_lines_ok [OF _ _ that, of src] lines_sublist lines_size [of src] l by fastforce
  then have "yields src (parse_groups env (group_lines (block_baseline ?ls) [] ?ls) []) good_functions"
    by (intro parse_groups_ok [OF l]) (auto simp: good_functions_def)
  then show ?thesis
    unfolding parse_logic_def Let_def
    by (rule yields_bind) (rule yields_bind [OF check_dag_yields], auto intro: yields_ok)
qed

section \<open>Timers and computed variables\<close>

lemma yields_part: "yields part m A \<Longrightarrow> sublist part src \<Longrightarrow> yields src m A"
  by (erule valid_weaken) (auto simp: fault_in_def intro: sublist_order.order_trans)

definition good_action :: "action \<Rightarrow> bool" where
  "good_action a \<longleftrightarrow> list_all good_tree (trees_in a)"

lemma parse_action_ok:
  assumes "length src < 2 ^ 28" "sublist part src"
  shows "yields src (parse_action env part) good_action"
proof -
  have "length part < 2 ^ 28" using sublist_length_le [OF assms(2)] assms(1) by simp
  then show ?thesis
    unfolding parse_action_def good_action_def
    by (intro yields_part [OF _ assms(2)] yields_weaken [OF action_with_urls_ok]) auto
qed

lemma timer_lines_ok:
  assumes l: "length src < 2 ^ 28"
  shows "\<forall>l \<in> set ls. sublist l src \<Longrightarrow> made \<le> limit \<Longrightarrow>
    yields src (parse_timer_lines env limit baseline made ls)
      (\<lambda>timers. made + length timers \<le> limit \<and> list_all (\<lambda>tm. good_action (timer_action tm)) timers)"
proof (induction ls arbitrary: made)
  case Nil
  then show ?case by (simp add: yields_ok)
next
  case (Cons line ls)
  let ?A = "\<lambda>timers. made + length timers \<le> limit \<and> list_all (\<lambda>tm. good_action (timer_action tm)) timers"
  let ?stripped = "trim_end (drop baseline line)"
  have st: "sublist ?stripped src"
    using Cons.prems(1) prefix_trim_end [of "drop baseline line"]
    by (meson list.set_intros(1) prefix_imp_sublist sublist_drop sublist_order.order_trans)
  have skip: "yields src (parse_timer_lines env limit baseline made ls) ?A"
    by (rule Cons.IH) (use Cons.prems in simp_all)
  have made: "yields src (bindS (parse_action env (trim after)) (\<lambda>a. bindS (parse_timer_lines env limit baseline (Suc made) ls)
      (\<lambda>timers. okS (\<lparr>timer_interval = parse_interval (trim before), timer_action = a\<rparr> # timers)))) ?A"
    if "sublist after src" "made \<noteq> limit" for before after
    by (rule yields_bind [OF parse_action_ok [OF l trim_part [OF that(1)]]], rule yields_bind [OF Cons.IH])
      (use Cons.prems that(2) in \<open>auto intro: yields_ok\<close>)
  show ?case
  proof (cases "trim line = [] \<or> leading_spaces line \<noteq> baseline \<or> strip_prefix ''timer '' ?stripped = None")
    case True
    then show ?thesis using skip by (auto simp: Let_def)
  next
    case False
    then obtain rest where rest: "strip_prefix ''timer '' ?stripped = Some rest" by blast
    then have "sublist rest ?stripped" by (auto simp: suffix_imp_sublist suffix_ConsI)
    then have r: "sublist rest src" using st sublist_order.order_trans by blast
    show ?thesis
    proof (cases "split_str ''->'' rest")
      case None
      then show ?thesis using False rest by (simp add: Let_def yields_error del: strip_prefix_Some)
    next
      case (Some p)
      obtain before after where p: "p = (before, after)" by fastforce
      have "sublist after src" using split_str_sublist Some p r sublist_order.order_trans by blast
      then show ?thesis
        using False rest Some p made by (auto simp: Let_def simp del: strip_prefix_Some intro!: valid_if yields_error)
    qed
  qed
qed

lemma root_timers_ok:
  assumes "length src < 2 ^ 28"
  shows "yields src (parse_root_timers env limit src)
     (\<lambda>timers. length timers \<le> limit \<and> list_all (\<lambda>tm. good_action (timer_action tm)) timers)"
  unfolding parse_root_timers_def Let_def
  using timer_lines_ok [OF assms, of "lines src" 0] lines_sublist by auto

definition good_binding :: "function_list \<Rightarrow> computed_binding \<Rightarrow> bool" where
  "good_binding fs cb \<longleftrightarrow> good_tree (cb_expr cb)
     \<and> comp_dependencies (cb_name cb) (cb_expr cb) fs = Ok (set (cb_depends_on cb))"

lemma collect_vars_finite: "collect_vars n ar e out = Ok S \<Longrightarrow> finite out \<Longrightarrow> finite S"
proof (induction n arbitrary: e out S)
  case (Suc n)
  note w = walk_finite [of "collect_vars n ar" ar, OF Suc.IH]
  from Suc.prems show ?case
    by (cases e) (auto simp: Let_def bindO_Ok simp del: walk.simps intro: w)
qed simp

lemma collect_free_vars_finite: "collect_free_vars n ar B e out = Ok S \<Longrightarrow> finite out \<Longrightarrow> finite S"
proof (induction n arbitrary: B e out S)
  case (Suc n)
  have w: "walk (collect_free_vars n ar B') ar ids o1 = Ok S' \<Longrightarrow> finite o1 \<Longrightarrow> finite S'" for B' ids o1 S'
    by (rule walk_finite [OF Suc.IH])
  from Suc.prems show ?case
    by (cases e) (auto simp: Let_def bindO_Ok simp del: walk.simps split: if_splits intro: w)
qed simp

lemma reads_loop_finite: "reads_loop fl ys visited out = Ok S \<Longrightarrow> finite out \<Longrightarrow> finite S"
proof (induction fl ys visited out rule: reads_loop.induct)
  case (2 fl y ys visited out)
  have f: "finite o1" if "free_reads f out = Ok o1" for f o1
    using that 2(5) by (auto simp: free_reads_def bindO_Ok intro: collect_free_vars_finite)
  show ?case
    using 2(1-4) 2(5) f by (auto simp: bindO_Ok split: if_splits option.splits)
qed simp

lemma comp_dependencies_finite: "comp_dependencies name t fs = Ok D \<Longrightarrow> finite D"
  by (auto simp: comp_dependencies_def collect_reachable_function_reads_def bindO_Ok
      dest!: collect_vars_finite reads_loop_finite)

lemma parse_comp_ok:
  assumes l: "length src < 2 ^ 28" and fs: "good_functions fs" and r: "sublist rest src"
  shows "yields src (parse_comp env fs stripped rest) (good_binding fs)"
proof (cases "split_char CHR ''='' rest")
  case (Some p)
  obtain lhs rhs where p: "p = (lhs, rhs)" by fastforce
  have rhs: "sublist (trim rhs) src" using trim_part split_char_part Some r p by blast
  have deps: "yields src (bindS (liftS (comp_dependencies y tree fs)) (\<lambda>dep_set.
      okS \<lparr>cb_name = y, cb_expr = tree, cb_depends_on = sorted_list_of_set dep_set, cb_tainted = False\<rparr>)) (good_binding fs)"
    if "good_tree tree" for y tree
  proof -
    obtain D where D: "comp_dependencies y tree fs = Ok D"
      using comp_dependencies_returns [of tree fs y] good_functions_parsed [OF fs] \<open>good_tree tree\<close> by (auto simp: good_tree_def)
    then show ?thesis
      using that comp_dependencies_finite [OF D] by (simp add: valid_def bindS_def liftS_def okS_def good_binding_def)
  qed
  have "yields src (bindS (parse_whole env (trim rhs) (trim rhs)) (\<lambda>expr. bindS (intern_name (trim lhs)) (\<lambda>y.
      bindS (liftS (comp_dependencies y expr fs)) (\<lambda>dep_set.
        okS \<lparr>cb_name = y, cb_expr = expr, cb_depends_on = sorted_list_of_set dep_set, cb_tainted = False\<rparr>)))) (good_binding fs)"
    by (rule yields_bind [OF yields_whole [OF l rhs]], rule yields_bind [OF yields_intern_name], rule deps)
  then show ?thesis by (auto simp: parse_comp_def Some p intro: valid_if yields_error)
qed (simp add: parse_comp_def yields_error)

lemma comp_lines_ok:
  assumes l: "length src < 2 ^ 28" and fs: "good_functions fs"
  shows "\<forall>l \<in> set ls. sublist l src \<Longrightarrow> yields src (parse_comp_lines env fs baseline ls) (list_all (good_binding fs))"
proof (induction ls)
  case (Cons line ls)
  let ?stripped = "drop baseline line"
  have st: "sublist (trim_start ?stripped) src"
    using Cons.prems suffix_trim_start [of ?stripped]
    by (meson list.set_intros(1) suffix_imp_sublist sublist_drop sublist_order.order_trans)
  have skip: "yields src (parse_comp_lines env fs baseline ls) (list_all (good_binding fs))"
    using Cons by simp
  have more: "yields src (bindS (parse_comp env fs ?stripped rest) (\<lambda>cb. bindS (parse_comp_lines env fs baseline ls)
      (\<lambda>cbs. okS (cb # cbs)))) (list_all (good_binding fs))" if "sublist rest src" for rest
    by (rule yields_bind [OF parse_comp_ok [OF l fs that]], rule yields_bind [OF skip], rule yields_ok) simp
  show ?case
  proof (cases "trim line = [] \<or> leading_spaces line \<noteq> baseline \<or> strip_prefix ''comp '' (trim_start ?stripped) = None")
    case True
    then show ?thesis using skip by (auto simp: Let_def)
  next
    case False
    then obtain rest where rest: "strip_prefix ''comp '' (trim_start ?stripped) = Some rest" by blast
    then have "sublist rest (trim_start ?stripped)" by (auto simp: suffix_imp_sublist suffix_ConsI)
    then have "sublist rest src" using st sublist_order.order_trans by blast
    then show ?thesis using False rest more by (simp add: Let_def del: strip_prefix_Some)
  qed
qed (simp add: yields_ok)

text \<open>The sort of the bindings returns whatever their names are.\<close>

lemma topo_sort_returns:
  "(\<exists>out. topo_sort_computed bs = Ok out \<and> mset out = mset bs)
   \<or> topo_sort_computed bs = Err (ParseError ''computed variable cycle detected'')"
proof (cases "bs = []")
  case False
  let ?n = "length bs" and ?ix = "comp_index bs" and ?deps = "\<lambda>i. if i < length bs then cb_depends_on (bs ! i) else []"
  obtain deg g where bg: "build_graph bs = (deg, g)" by fastforce
  have lt: "j < ?n" if "?ix d = Some j" for d j
    using map_of_SomeD [OF that [unfolded comp_index_def]] by (auto dest: set_zip_rightD)
  have "graph_is ?ix ?deps ?n (deg, g)" using build_graph_is [OF lt] bg by simp
  then have "kahn_inv ?n g deg (filter (\<lambda>i. deg ! i = 0) [0..<?n]) []"
    by (rule kahn_start [OF _ lt]) simp_all
  then obtain deg' order where o: "kahn_loop g deg (filter (\<lambda>i. deg ! i = 0) [0..<?n]) [] = Ok order" "kahn_inv ?n g deg' [] order"
    using kahn_loop_spec by blast
  then have "distinct order" "set order \<subseteq> {..<?n}" by (auto simp: kahn_inv_def)
  moreover from this have "take_items order (map Some bs) = Ok (map (nth bs) order)" by (intro take_items_map) auto
  ultimately show ?thesis
    using False o(1) order_is_permutation [of order bs] by (auto simp: topo_sort_computed_def bg)
qed (simp add: topo_sort_computed_def)

definition good_bindings :: "function_list \<Rightarrow> nat \<Rightarrow> computed_binding list \<Rightarrow> bool" where
  "good_bindings fs limit bs \<longleftrightarrow> length bs \<le> limit \<and> list_all (good_binding fs) bs
     \<and> (distinct (map cb_name bs) \<longrightarrow> topo_sorted bs)"

lemma sorted_bindings:
  assumes "length bs \<le> limit" "list_all (good_binding fs) bs"
  shows "yields src (liftS (topo_sort_computed bs)) (good_bindings fs limit)"
proof (rule yields_lift)
  show "parse_result (topo_sort_computed bs)" using topo_sort_returns [of bs] by auto
  fix out assume o: "topo_sort_computed bs = Ok out"
  then have m: "mset out = mset bs" using topo_sort_returns [of bs] by auto
  then have "length out = length bs" "set out = set bs" by (metis size_mset, metis set_mset_mset)
  moreover have "topo_sorted out" if d: "distinct (map cb_name out)"
  proof -
    have "mset (map cb_name out) = mset (map cb_name bs)" using m by simp
    then have "distinct (map cb_name bs)" using d by (metis mset_eq_imp_distinct_iff)
    then show ?thesis using topo_sort_exact [of bs] o by auto
  qed
  ultimately show "good_bindings fs limit out" using assms by (simp add: good_bindings_def list_all_iff)
qed

lemma parse_computed_ok:
  assumes "length src < 2 ^ 28" "good_functions fs"
  shows "yields src (parse_computed_with_functions env src fs limit) (good_bindings fs limit)"
  unfolding parse_computed_with_functions_def Let_def
  by (rule yields_bind [OF comp_lines_ok [OF assms]], use lines_sublist in blast, rule valid_if, rule yields_error,
      rule sorted_bindings) simp_all

section \<open>Loading a document\<close>

lemma add_endpoint_result: "(case fst (add_endpoint n entry registry t) of Fail f \<Rightarrow> \<exists>msg. f = Error (ParseError msg) | Ok _ \<Rightarrow> True)"
  by (auto simp: add_endpoint_def url_error_def split: prod.splits)

lemma url_lines_yield: "registry_ok registry \<Longrightarrow> yields src (parse_url_lines ls n registry) registry_ok"
proof (induction ls arbitrary: n registry)
  case (Cons l ls)
  have p: "parse_result (parse_url_line n (trim l))"
    by (auto simp: parse_url_line_def endpoint_kind_of_def url_error_def Let_def split: option.splits)
  have add: "yields src (add_endpoint n entry registry) registry_ok"
    if "parse_url_line n (trim l) = Ok entry" for entry
  proof (rule validI)
    fix t r t' assume "add_endpoint n entry registry t = (Ok r, t')"
    then show "registry_ok r"
      using add_endpoint_ok [OF Cons.prems] parse_url_line_ok that by (cases entry) metis
  next
    fix t f t' assume "add_endpoint n entry registry t = (Fail f, t')"
    then show "fault_in src f" using add_endpoint_result [of n entry registry t] by (auto simp: fault_in_def)
  qed
  have "yields src (bindS (liftS (parse_url_line n (trim l))) (\<lambda>entry. bindS (add_endpoint n entry registry) (\<lambda>r.
      parse_url_lines ls (Suc n) r))) registry_ok"
    by (rule yields_bind [OF yields_lift [OF p]], assumption, rule yields_bind [OF add], assumption, rule Cons.IH)
  then show ?case using Cons by simp
qed (simp add: yields_ok)

lemma compile_logic_ok:
  assumes "length src < 2 ^ 28"
  shows "yields src (compile_logic env max_comps max_timers urls src)
     (\<lambda>(registry, fs, comps, timers). registry_ok registry \<and> (good_functions fs \<and> acyclic (calls_of fs))
        \<and> good_bindings fs max_comps comps
        \<and> length timers \<le> max_timers \<and> list_all (\<lambda>tm. good_action (timer_action tm)) timers)"
proof -
  have "yields src (if trim urls \<noteq> [] then parse_urls urls else okS Map.empty) registry_ok"
    unfolding parse_urls_def by (intro valid_if url_lines_yield yields_ok) (simp_all add: registry_ok_def)
  then show ?thesis
    unfolding compile_logic_def
    by (rule yields_bind, intro yields_bind [OF parse_logic_ok [OF assms]])
      (auto intro!: yields_bind [OF parse_computed_ok [OF assms]] yields_bind [OF root_timers_ok [OF assms]] yields_ok)
qed



section \<open>Where the code and its descriptions part\<close>

text \<open>The suffix of seconds is cut off names that end in it, and a name may read as a number.\<close>

lemma interval_name_cut:
  "parse_interval ''ticks'' = IntervalVariable ''tick'' \<and> parse_interval ''nans'' = Millis 0"
proof -
  have t: "trim ''tick'' = ''tick''" "trim ''nan'' = ''nan''" by (simp_all add: trim_plain plain_def)
  have l: "map ascii_lower ''tick'' = ''tick''" "map ascii_lower ''nan'' = ''nan''" by (simp_all add: ascii_lower_def less_eq_char_def)
  show ?thesis
    by (simp add: parse_interval_def strip_suffix_def t parse_f64_def parse_sign_def l [simplified] Let_def is_digit_def suffix_def)
qed

text \<open>A blank after the opening bracket is an indentation marker, and no parameter name.\<close>

lemma lex_indented_word: "lex '' x'' = Ok [KIndent, KIdent ''x'', KNewline, KDedent]"
proof -
  have "trim_start '' x'' = ''x''" by (subst trim_start.simps) (simp add: trim_sides_plain plain_def)
  moreover from this have "trim '' x'' = ''x''" by (simp add: trim_def trim_sides_plain plain_def)
  ultimately show ?thesis
    by (simp add: lex_eval)
qed

lemma blank_before_parameter_refused:
  "fst (parse_params '' x'' header t) = Err (ParseError (''expected parameter name, got '' @ debug_next (Some KIndent)))"
proof -
  have "trim_start '' x'' = ''x''" by (subst trim_start.simps) (simp add: trim_sides_plain plain_def)
  then have "trim '' x'' \<noteq> []" by (simp add: trim_def trim_sides_plain plain_def)
  then show ?thesis by (simp add: parse_params_def lex_indented_word comput_defs)
qed

text \<open>The body of a function is not checked to its end.\<close>

lemma body_end_unchecked: "is_ok (fst (start_tree env ''a b'' t))"
  using two_words_tree [of "pe_max_depth env" t]
  by (auto simp: start_tree_def parse_source_def lex_two_words comput_defs)

text \<open>The comment of the source says that the type of a parameter may be left out.\<close>

lemma untyped_parameter_refused: "\<not> is_ok (fst (parse_params ''x'' header t))"
proof -
  have "lex ''x'' = Ok [KIdent ''x'', KNewline]" by (simp add: lex_eval)
  then show ?thesis by (simp add: parse_params_def trim_plain plain_def comput_defs)
qed

end
